(* ===== verification/Coro_Prelude.thy ===== *)
theory Coro_Prelude
  imports Main "HOL-Library.Word" "HOL-Library.Multiset" "HOL-Library.Sublist"
begin

unbundle bit_operations_syntax

text \<open>
  Prelude of the development: the exceptions the program throws, the error numbers it tests
  after a failed system call, the outcome of a coroutine body, and the generic lemmas on
  lists, buffers and maps that the component theories share.

  Addresses of coroutine frames (the values of \<open>std::coroutine_handle\<close>) are natural
  numbers; a handle that may be null is an option. File descriptors are C \<open>int\<close>s and are
  kept as integers, because the code compares them with zero.
\<close>

section \<open>Names\<close>

type_synonym handle = nat
type_synonym fd = int
type_synonym bytes = "char list"

named_theorems loop_defs "definitions of the event loop operations"
named_theorems pool_defs "definitions of the thread pool operations"
named_theorems io_simps "evaluation of system call loops"

section \<open>Exceptions and error numbers\<close>

text \<open>
  The four kinds of exception that the program can see. \<open>System_error e what\<close> is
  \<open>std::system_error(e, std::generic_category(), what)\<close>. \<open>Foreign\<close> is a thrown value whose
  type is not derived from \<open>std::exception\<close>: user code may throw one, and a handler
  \<open>catch (const std::exception&)\<close> does not catch it.
\<close>

datatype exn =
    Invalid_argument string
  | Runtime_error string
  | System_error int string
  | Foreign nat

definition std_exception :: "exn \<Rightarrow> bool" where
  "std_exception e = (case e of Foreign _ \<Rightarrow> False | _ \<Rightarrow> True)"

lemma std_exception_simps [simp]:
  "std_exception (Invalid_argument m)" "std_exception (Runtime_error m)"
  "std_exception (System_error n m)" "\<not> std_exception (Foreign k)"
  by (simp_all add: std_exception_def)

text \<open>Error numbers, with their Linux values (there \<open>EWOULDBLOCK\<close> is \<open>EAGAIN\<close>).\<close>

abbreviation ENOENT :: int where "ENOENT \<equiv> 2"
abbreviation EINTR :: int where "EINTR \<equiv> 4"
abbreviation EBADF :: int where "EBADF \<equiv> 9"
abbreviation EAGAIN :: int where "EAGAIN \<equiv> 11"
abbreviation EWOULDBLOCK :: int where "EWOULDBLOCK \<equiv> 11"
abbreviation EEXIST :: int where "EEXIST \<equiv> 17"
abbreviation EINPROGRESS :: int where "EINPROGRESS \<equiv> 115"

section \<open>Outcome of a coroutine body\<close>

text \<open>
  What a coroutine body has come to when the answers of its environment are used up: it
  returned, an exception left it, or it is still running or suspended.
\<close>

datatype 'a outcome = Returned 'a | Threw exn | Pending

fun map_outcome :: "('a \<Rightarrow> 'b) \<Rightarrow> 'a outcome \<Rightarrow> 'b outcome" where
  "map_outcome f (Returned x) = Returned (f x)"
| "map_outcome f (Threw e) = Threw e"
| "map_outcome f Pending = Pending"

lemma map_outcome_eq_simps [simp]:
  "map_outcome f r = Returned y \<longleftrightarrow> (\<exists>x. r = Returned x \<and> y = f x)"
  "map_outcome f r = Threw e \<longleftrightarrow> r = Threw e"
  "map_outcome f r = Pending \<longleftrightarrow> r = Pending"
  by (cases r; auto)+

text \<open>
  Sequencing of operations that may throw: an invariant of the state that both parts keep is
  kept by the sequence. \<open>P\<close> is about the state an operation leaves, thrown or not.
\<close>

lemma seq_keeps:
  assumes "P (snd r)" and "\<And>s. P s \<Longrightarrow> P (snd (k s))"
  shows "P (snd (case r of (Some e, s) \<Rightarrow> (Some e, s) | (None, s) \<Rightarrow> k s))"
  using assms by (cases r; cases "fst r") auto

lemma seq_finally:
  assumes "P (snd r)" and "\<And>s. P s \<Longrightarrow> P (f s)"
  shows "P (snd (case r of (Some e, s) \<Rightarrow> (Some e, s) | (None, s) \<Rightarrow> (None, f s)))"
  using assms by (cases r; cases "fst r") auto

section \<open>Buffers\<close>

text \<open>
  \<open>poke buf off bs\<close> is the buffer after the kernel has stored \<open>bs\<close> from offset
  \<open>off\<close>; everything before and behind is kept.
\<close>

definition poke :: "'a list \<Rightarrow> nat \<Rightarrow> 'a list \<Rightarrow> 'a list" where
  "poke buf off bs = take off buf @ bs @ drop (off + length bs) buf"

lemma length_poke [simp]:
  "off + length bs \<le> length buf \<Longrightarrow> length (poke buf off bs) = length buf"
  by (simp add: poke_def)

lemma poke_Nil [simp]: "poke buf off [] = buf"
  by (simp add: poke_def)

lemma take_poke [simp]:
  "off \<le> length buf \<Longrightarrow> take off (poke buf off bs) = take off buf"
  by (simp add: poke_def)

lemma take_poke_end:
  "off \<le> length buf \<Longrightarrow> take (off + length bs) (poke buf off bs) = take off buf @ bs"
  by (simp add: poke_def)

lemma take_poke_zero [simp]: "take (length bs) (poke buf 0 bs) = bs"
  by (simp add: poke_def)

lemma drop_poke:
  "off + length bs \<le> length buf \<Longrightarrow>
     drop (off + length bs) (poke buf off bs) = drop (off + length bs) buf"
  by (simp add: poke_def)

lemma poke_poke:
  "off + length bs \<le> length buf \<Longrightarrow> poke (poke buf off bs) (off + length bs) cs = poke buf off (bs @ cs)"
  unfolding poke_def by (cases "bs = []") (simp_all add: ac_simps)

section \<open>Lists and maps\<close>

lemma dropWhile_append_all:
  "list_all P xs \<Longrightarrow> dropWhile P (xs @ ys) = dropWhile P ys"
  by (induction xs) auto

lemma takeWhile_append_all:
  "list_all P xs \<Longrightarrow> takeWhile P (xs @ ys) = xs @ takeWhile P ys"
  by (induction xs) auto

lemma list_all_takeWhile [simp]: "list_all P (takeWhile P xs)"
  by (induction xs) auto

lemma dropWhile_ConsD: "dropWhile P xs = y # ys \<Longrightarrow> \<not> P y"
  by (induction xs) (auto split: if_splits)

lemma dropWhile_split: "dropWhile P xs = ys \<Longrightarrow> xs = takeWhile P xs @ ys"
  by (metis takeWhile_dropWhile_id)

lemma dropWhile_Nil_iff: "dropWhile P xs = [] \<longleftrightarrow> list_all P xs"
  by (simp add: list_all_iff)

declare dropWhile_eq_Nil_conv [simp del]

lemma dropWhile_filter_cut:
  "(\<And>x. Q x \<Longrightarrow> P x) \<Longrightarrow>
     dropWhile P (filter (\<lambda>x. \<not> Q x) xs) = filter (\<lambda>x. \<not> Q x) (dropWhile P xs)"
  by (induction xs) auto

lemma take_plus_drop: "take m xs @ take n (drop m xs) = take (m + n) xs"
  by (simp add: take_add)

lemma map_upd_self [simp]: "m k = Some v \<Longrightarrow> m(k \<mapsto> v) = m"
  by (simp add: fun_upd_idem)

lemma map_remove_absent [simp]: "m k = None \<Longrightarrow> m(k := None) = m"
  by (simp add: fun_upd_idem)

end
