(* ===== verification/Unique_Owner.thy ===== *)
theory Unique_Owner
  imports Coro_Prelude
begin

text \<open>
  The contract of a move-only owner of a resource. \<open>Task\<close> owns a coroutine frame, and
  \<open>TcpSocket\<close> and \<open>UdpSocket\<close> own a file descriptor; all three delete copying, leave the
  source of a move empty, release the old resource in move assignment, test for
  self-assignment, and release in the destructor. The locale states these laws for one
  class and derives what they are for: over any program of such operations every resource
  is owned by one object or has been released once.
\<close>

section \<open>Programs over a list of objects\<close>

text \<open>
  Objects are kept in slots. \<open>Op_new\<close> constructs an object around a new resource,
  \<open>Op_move i\<close> move-constructs a further object from slot \<open>i\<close>, \<open>Op_assign i j\<close> is
  \<open>slot[i] = std::move(slot[j])\<close>, and \<open>Op_release i\<close> is the destructor or an explicit
  \<open>close\<close>. A slot that does not exist makes the operation void.
\<close>

datatype 'o owner_op = Op_new 'o | Op_move nat | Op_assign nat nat | Op_release nat

type_synonym ('o, 'k) owned = "'o list \<times> 'k list"

fun perform ::
    "('o \<Rightarrow> 'o \<times> 'o) \<Rightarrow> ('o \<Rightarrow> 'k list \<times> 'o) \<Rightarrow> (bool \<Rightarrow> 'o \<Rightarrow> 'o \<Rightarrow> 'k list \<times> 'o \<times> 'o)
       \<Rightarrow> 'o owner_op \<Rightarrow> ('o, 'k) owned \<Rightarrow> ('o, 'k) owned" where
  "perform mv rel asg (Op_new x) (xs, freed) = (xs @ [x], freed)"
| "perform mv rel asg (Op_move i) (xs, freed) =
     (if i < length xs then (xs[i := snd (mv (xs ! i))] @ [fst (mv (xs ! i))], freed)
      else (xs, freed))"
| "perform mv rel asg (Op_assign i j) (xs, freed) =
     (if i < length xs \<and> j < length xs then
        (case asg (i = j) (xs ! i) (xs ! j) of
           (ks, x, y) \<Rightarrow> ((xs[j := y])[i := x], freed @ ks))
      else (xs, freed))"
| "perform mv rel asg (Op_release i) (xs, freed) =
     (if i < length xs then (xs[i := snd (rel (xs ! i))], freed @ fst (rel (xs ! i)))
      else (xs, freed))"

fun perform_all ::
    "('o \<Rightarrow> 'o \<times> 'o) \<Rightarrow> ('o \<Rightarrow> 'k list \<times> 'o) \<Rightarrow> (bool \<Rightarrow> 'o \<Rightarrow> 'o \<Rightarrow> 'k list \<times> 'o \<times> 'o)
       \<Rightarrow> 'o owner_op list \<Rightarrow> ('o, 'k) owned \<Rightarrow> ('o, 'k) owned" where
  "perform_all mv rel asg [] s = s"
| "perform_all mv rel asg (p # ps) s = perform_all mv rel asg ps (perform mv rel asg p s)"

text \<open>The resources held by the objects of a list, and those a program constructs.\<close>

definition held :: "('o \<Rightarrow> 'k option) \<Rightarrow> 'o \<Rightarrow> 'k multiset" where
  "held key x = (case key x of None \<Rightarrow> {#} | Some k \<Rightarrow> {#k#})"

fun live :: "('o \<Rightarrow> 'k option) \<Rightarrow> 'o list \<Rightarrow> 'k multiset" where
  "live key [] = {#}"
| "live key (x # xs) = held key x + live key xs"

fun acquired :: "('o \<Rightarrow> 'k option) \<Rightarrow> 'o owner_op list \<Rightarrow> 'k multiset" where
  "acquired key [] = {#}"
| "acquired key (Op_new x # ps) = held key x + acquired key ps"
| "acquired key (_ # ps) = acquired key ps"

lemma live_append [simp]: "live key (xs @ ys) = live key xs + live key ys"
  by (induction xs) auto

lemma live_update:
  "i < length xs \<Longrightarrow> live key (xs[i := y]) + held key (xs ! i) = live key xs + held key y"
proof (induction xs arbitrary: i)
  case Nil
  then show ?case by simp
next
  case (Cons x xs)
  then show ?case by (cases i) (auto simp: ac_simps)
qed

lemma live_update_empty:
  "i < length xs \<Longrightarrow> held key y = {#} \<Longrightarrow> live key xs = live key (xs[i := y]) + held key (xs ! i)"
  using live_update [of i xs key y] by simp

section \<open>The laws of an owner class\<close>

locale unique_owner =
  fixes key :: "'o \<Rightarrow> 'k option"
    and move :: "'o \<Rightarrow> 'o \<times> 'o"
    and release :: "'o \<Rightarrow> 'k list \<times> 'o"
    and assign :: "bool \<Rightarrow> 'o \<Rightarrow> 'o \<Rightarrow> 'k list \<times> 'o \<times> 'o"
  assumes move_target: "key (fst (move x)) = key x"
    and move_source: "key (snd (move x)) = None"
    and release_frees: "mset (fst (release x)) = held key x"
    and release_empties: "key (snd (release x)) = None"
    and assign_same: "assign True x x = ([], x, x)"
    and assign_frees: "mset (fst (assign False x y)) = held key x"
    and assign_target: "key (fst (snd (assign False x y))) = key y"
    and assign_source: "key (snd (snd (assign False x y))) = None"
begin

lemma perform_keeps:
  "live key (fst (perform move release assign p s)) + mset (snd (perform move release assign p s)) =
     acquired key [p] + live key (fst s) + mset (snd s)"
proof (cases s)
  case (Pair xs freed)
  show ?thesis
  proof (cases p)
    case (Op_new x)
    then show ?thesis using Pair by (simp add: ac_simps)
  next
    case (Op_move i)
    have "held key (fst (move (xs ! i))) = held key (xs ! i)" by (simp add: held_def move_target)
    moreover have "held key (snd (move (xs ! i))) = {#}" by (simp add: held_def move_source)
    ultimately show ?thesis
      using Pair Op_move live_update_empty [of i xs key "snd (move (xs ! i))"] by simp
  next
    case (Op_release i)
    have "held key (snd (release (xs ! i))) = {#}" by (simp add: held_def release_empties)
    then show ?thesis
      using Pair Op_release live_update_empty [of i xs key "snd (release (xs ! i))"]
      by (simp add: release_frees ac_simps)
  next
    case (Op_assign i j)
    show ?thesis
    proof (cases "i < length xs \<and> j < length xs \<and> i \<noteq> j")
      case True
      let ?a = "assign False (xs ! i) (xs ! j)"
      let ?ys = "xs[j := snd (snd ?a)]"
      have "live key xs = live key ?ys + held key (xs ! j)"
        using True by (intro live_update_empty) (simp_all add: held_def assign_source)
      moreover have "live key (?ys[i := fst (snd ?a)]) + held key (xs ! i) = live key ?ys + held key (xs ! j)"
        using True live_update [of i ?ys key "fst (snd ?a)"] by (simp add: held_def assign_target)
      ultimately show ?thesis
        using Pair Op_assign True by (simp add: assign_frees split_beta ac_simps)
    next
      case False
      then show ?thesis using Pair Op_assign by (auto simp: assign_same)
    qed
  qed
qed

lemma perform_all_keeps:
  "live key (fst (perform_all move release assign ps s)) + mset (snd (perform_all move release assign ps s)) =
     acquired key ps + live key (fst s) + mset (snd s)"
proof (induction ps arbitrary: s)
  case Nil
  then show ?case by simp
next
  case (Cons p ps)
  have "acquired key (p # ps) = acquired key [p] + acquired key ps" by (cases p) auto
  with Cons perform_keeps [of p s] show ?case by (simp add: ac_simps)
qed

lemma owned_once:
  assumes "perform_all move release assign ps ([], []) = (xs, freed)"
  shows "acquired key ps = live key xs + mset freed"
  using perform_all_keeps [of ps "([], [])"] assms by simp

lemma released_once:
  assumes run: "perform_all move release assign ps ([], []) = (xs, freed)"
    and fresh: "\<And>k. count (acquired key ps) k \<le> 1"
  shows "distinct freed \<and> (\<forall>k \<in> set freed. k \<notin># live key xs)"
proof -
  have sum: "count (live key xs) k + count (mset freed) k \<le> 1" for k
    using fresh [of k] by (simp add: owned_once [OF run])
  have one: "count (mset freed) k = 1" if "k \<in> set freed" for k
  proof -
    have "count (mset freed) k \<noteq> 0" using that by (simp add: count_eq_zero_iff)
    with sum [of k] show ?thesis by linarith
  qed
  then have "distinct freed" by (auto simp: distinct_count_atmost_1 count_eq_zero_iff)
  moreover have "k \<notin># live key xs" if "k \<in> set freed" for k
    using sum [of k] one [OF that] by (simp add: not_in_iff)
  ultimately show ?thesis by blast
qed

end

end
