(* ===== verification/Coro_Task.thy ===== *)
theory Coro_Task
  imports Unique_Owner
begin

text \<open>
  \<open>include/coro_epoll/task.hpp\<close>: the coroutine return type \<open>Task<T>\<close>.

  A coroutine frame lives at an address and holds the promise (value, exception,
  continuation), the resume point with its locals (\<open>body\<close>) and whether it is suspended at
  its final suspend point. \<open>Task\<close> is the owner of one frame, or null. The awaiters of
  \<open>Task\<close> start the awaited coroutine and resume the awaiting one by nested calls of
  \<open>coroutine_handle::resume\<close>; the machine below performs them one at a time and counts the
  native calls that are active.
\<close>

section \<open>Frames, promises and handles\<close>

record ('b, 'v) frame =
  body :: 'b
  awaiting :: "handle option"
  at_final :: bool
  promise_value :: "'v option"
  exception :: "exn option"
  continuation :: "handle option"

type_synonym ('b, 'v) heap = "handle \<Rightarrow> ('b, 'v) frame option"

text \<open>
  Calling a coroutine function allocates its frame; \<open>initial_suspend\<close> returns
  \<open>suspend_always\<close>, so the body has not begun.
\<close>

definition new_frame :: "'b \<Rightarrow> ('b, 'v) frame" where
  "new_frame b = \<lparr>body = b, awaiting = None, at_final = False,
                  promise_value = None, exception = None, continuation = None\<rparr>"

definition return_value :: "'v \<Rightarrow> ('b, 'v) frame \<Rightarrow> ('b, 'v) frame" where
  "return_value v f = f\<lparr>promise_value := Some v\<rparr>"

definition unhandled_exception :: "exn \<Rightarrow> ('b, 'v) frame \<Rightarrow> ('b, 'v) frame" where
  "unhandled_exception e f = f\<lparr>exception := Some e\<rparr>"

text \<open>\<open>handle.done()\<close>; on an address without a frame the call is undefined in C++.\<close>

definition handle_done :: "('b, 'v) heap \<Rightarrow> handle \<Rightarrow> bool" where
  "handle_done H h = (case H h of Some f \<Rightarrow> at_final f | None \<Rightarrow> False)"

section \<open>Task objects\<close>

text \<open>A \<open>Task\<close> holds the handle of the frame it owns, or null.\<close>

type_synonym task = "handle option"

definition task_done :: "('b, 'v) heap \<Rightarrow> task \<Rightarrow> bool" where
  "task_done H t = (case t of None \<Rightarrow> True | Some h \<Rightarrow> handle_done H h)"

definition task_exception :: "('b, 'v) heap \<Rightarrow> task \<Rightarrow> exn option" where
  "task_exception H t = (case t of
      None \<Rightarrow> None
    | Some h \<Rightarrow> (if handle_done H h then (case H h of Some f \<Rightarrow> exception f | None \<Rightarrow> None)
                 else None))"

text \<open>\<open>destroy()\<close>, the destructor: the frame is freed and the task becomes null.\<close>

definition task_destroy :: "('b, 'v) heap \<Rightarrow> task \<Rightarrow> ('b, 'v) heap \<times> task" where
  "task_destroy H t = (case t of None \<Rightarrow> (H, None) | Some h \<Rightarrow> (H(h := None), None))"

text \<open>The move constructor: the new task and what is left in the source.\<close>

definition task_move :: "task \<Rightarrow> task \<times> task" where
  "task_move other = (other, None)"

text \<open>Move assignment; \<open>same\<close> is the test \<open>this == &other\<close>.\<close>

definition task_move_assign ::
    "bool \<Rightarrow> ('b, 'v) heap \<Rightarrow> task \<Rightarrow> task \<Rightarrow> ('b, 'v) heap \<times> task \<times> task" where
  "task_move_assign same H self other =
     (if same then (H, self, other)
      else let (H', _) = task_destroy H self in (H', other, None))"

text \<open>
  The awaiter of \<open>operator co_await\<close>. \<open>await_resume\<close> is \<open>None\<close> where the code
  dereferences an empty optional, which the machine is shown never to do.
\<close>

definition await_ready :: "('b, 'v) heap \<Rightarrow> task \<Rightarrow> bool" where
  "await_ready H t = (case t of None \<Rightarrow> True | Some h \<Rightarrow> handle_done H h)"

definition set_continuation :: "handle \<Rightarrow> ('b, 'v) frame \<Rightarrow> ('b, 'v) frame" where
  "set_continuation k f = f\<lparr>continuation := Some k\<rparr>"

definition await_resume :: "('b, 'v) frame \<Rightarrow> (exn + 'v) option" where
  "await_resume f = (case exception f of
      Some e \<Rightarrow> Some (Inl e)
    | None \<Rightarrow> (case promise_value f of Some v \<Rightarrow> Some (Inr v) | None \<Rightarrow> None))"

lemmas frame_defs =
  new_frame_def return_value_def unhandled_exception_def set_continuation_def

lemma body_callee [simp]: "body (set_continuation h (new_frame b)) = b"
  by (simp add: frame_defs)

lemma await_resume_return [simp]:
  "exception f = None \<Longrightarrow> await_resume (return_value v f) = Some (Inr v)"
  by (simp add: await_resume_def return_value_def)

lemma await_resume_throw [simp]: "await_resume (unhandled_exception e f) = Some (Inl e)"
  by (simp add: await_resume_def unhandled_exception_def)

lemma await_resume_frame [simp]:
  "await_resume (f\<lparr>at_final := b\<rparr>) = await_resume f"
  "await_resume (f\<lparr>body := c\<rparr>) = await_resume f"
  "await_resume (f\<lparr>awaiting := a\<rparr>) = await_resume f"
  "await_resume (f\<lparr>continuation := k\<rparr>) = await_resume f"
  by (simp_all add: await_resume_def split: option.split)

section \<open>The machine\<close>

text \<open>
  What a body does when it runs from its resume point: it returns, an exception leaves it,
  it evaluates \<open>co_await f(...)\<close> on the task of a new coroutine, or it suspends in
  another awaiter, which keeps the handle (readiness on the event loop, the thread pool).
  The second component of the last two is the resume point it leaves.
\<close>

datatype ('b, 'v) act =
    Co_return 'v
  | Co_throw exn
  | Co_await 'b 'b
  | Co_suspend 'b

text \<open>
  A coroutine gets control for the first time, with the result of an awaiter outside this
  file, or because the coroutine it awaits reached its final suspend point.
\<close>

datatype 'v input = Start | Resumed "exn + 'v" | From_task

type_synonym ('b, 'v) code = "'b \<Rightarrow> (exn + 'v) option \<Rightarrow> ('b, 'v) act"

record ('b, 'v) machine =
  heap :: "('b, 'v) heap"
  next_addr :: handle
  control :: "(handle \<times> 'v input) option"   \<comment> \<open>the coroutine that has control\<close>
  depth :: nat                             \<comment> \<open>active native calls of \<open>resume\<close>\<close>
  parked :: "handle option"                \<comment> \<open>the handle kept by an awaiter outside\<close>

text \<open>
  \<open>final_suspend\<close>: the coroutine stops at its final suspend point, and
  \<open>FinalAwaiter::await_suspend\<close> resumes the continuation, if there is one, from inside
  the calls that are still active; otherwise all of them return.
\<close>

definition final_suspend ::
    "handle \<Rightarrow> ('b, 'v) frame \<Rightarrow> ('b, 'v) machine \<Rightarrow> ('b, 'v) machine" where
  "final_suspend h f m =
     (let m' = m\<lparr>heap := (heap m)(h \<mapsto> f\<lparr>at_final := True\<rparr>)\<rparr>
      in case continuation f of
           None \<Rightarrow> m'\<lparr>control := None, depth := 0\<rparr>
         | Some k \<Rightarrow> m'\<lparr>control := Some (k, From_task), depth := Suc (depth m)\<rparr>)"

text \<open>
  \<open>co_await\<close> on a new task: its frame is allocated, \<open>await_ready\<close> is false, the
  awaiting coroutine is suspended, and \<open>Awaiter::await_suspend\<close> stores the continuation
  and resumes the new coroutine in a nested call.
\<close>

definition co_await_new ::
    "handle \<Rightarrow> ('b, 'v) frame \<Rightarrow> 'b \<Rightarrow> 'b \<Rightarrow> ('b, 'v) machine \<Rightarrow> ('b, 'v) machine" where
  "co_await_new h f inner rest m =
     (let i = next_addr m
      in m\<lparr>heap := (heap m)(h \<mapsto> f\<lparr>body := rest, awaiting := Some i\<rparr>,
                           i \<mapsto> set_continuation h (new_frame inner)),
           next_addr := Suc i, control := Some (i, Start), depth := Suc (depth m)\<rparr>)"

definition run_body ::
    "('b, 'v) code \<Rightarrow> handle \<Rightarrow> ('b, 'v) frame \<Rightarrow> (exn + 'v) option
       \<Rightarrow> ('b, 'v) machine \<Rightarrow> ('b, 'v) machine" where
  "run_body B h f x m = (case B (body f) x of
      Co_return v \<Rightarrow> final_suspend h (return_value v f) m
    | Co_throw e \<Rightarrow> final_suspend h (unhandled_exception e f) m
    | Co_await inner rest \<Rightarrow> co_await_new h f inner rest m
    | Co_suspend rest \<Rightarrow> m\<lparr>heap := (heap m)(h \<mapsto> f\<lparr>body := rest\<rparr>),
                            control := None, parked := Some h, depth := 0\<rparr>)"

text \<open>
  When the continuation gets control, \<open>await_resume\<close> reads the promise of the awaited
  coroutine and the temporary \<open>Task\<close> is destroyed at the end of the full expression.
\<close>

definition finish_await ::
    "handle \<Rightarrow> ('b, 'v) frame \<Rightarrow> ('b, 'v) machine \<Rightarrow> ('b, 'v) machine option" where
  "finish_await h f m = (case awaiting f of
      None \<Rightarrow> None
    | Some i \<Rightarrow> (case heap m i of
        None \<Rightarrow> None
      | Some g \<Rightarrow> (case await_resume g of
          None \<Rightarrow> None
        | Some r \<Rightarrow> Some (m\<lparr>heap := fst (task_destroy
                                    ((heap m)(h \<mapsto> f\<lparr>awaiting := None\<rparr>)) (Some i)),
                             control := Some (h, Resumed r)\<rparr>))))"

definition step :: "('b, 'v) code \<Rightarrow> ('b, 'v) machine \<Rightarrow> ('b, 'v) machine option" where
  "step B m = (case control m of
      None \<Rightarrow> None
    | Some (h, inp) \<Rightarrow> (case heap m h of
        None \<Rightarrow> None
      | Some f \<Rightarrow> (case inp of
          Start \<Rightarrow> Some (run_body B h f None m)
        | Resumed r \<Rightarrow> Some (run_body B h f (Some r) m)
        | From_task \<Rightarrow> finish_await h f m)))"

text \<open>The awaiter outside resumes the parked handle; its \<open>await_resume\<close> gives \<open>r\<close>.\<close>

definition feed :: "exn + 'v \<Rightarrow> ('b, 'v) machine \<Rightarrow> ('b, 'v) machine option" where
  "feed r m = (case (control m, parked m) of
      (None, Some h) \<Rightarrow> Some (m\<lparr>control := Some (h, Resumed r), parked := None, depth := 1\<rparr>)
    | _ \<Rightarrow> None)"

fun run_steps :: "('b, 'v) code \<Rightarrow> nat \<Rightarrow> ('b, 'v) machine \<Rightarrow> ('b, 'v) machine option" where
  "run_steps B 0 m = Some m"
| "run_steps B (Suc n) m = (case step B m of None \<Rightarrow> None | Some m' \<Rightarrow> run_steps B n m')"

text \<open>A task that is resumed for the first time in an empty heap, as by \<open>EventLoop::spawn\<close>.\<close>

definition start_machine :: "'b \<Rightarrow> ('b, 'v) machine" where
  "start_machine b = \<lparr>heap = [0 \<mapsto> new_frame b], next_addr = 1,
                      control = Some (0, Start), depth = 1, parked = None\<rparr>"

text \<open>A run of the machine that uses up results of outside awaiters, in order.\<close>

inductive exec ::
    "('b, 'v) code \<Rightarrow> ('b, 'v) machine \<Rightarrow> (exn + 'v) list
       \<Rightarrow> ('b, 'v) machine \<Rightarrow> (exn + 'v) list \<Rightarrow> bool" for B where
  exec_refl: "exec B m es m es"
| exec_step: "step B m = Some m' \<Longrightarrow> exec B m' es n fs \<Longrightarrow> exec B m es n fs"
| exec_feed: "feed r m = Some m' \<Longrightarrow> exec B m' es n fs \<Longrightarrow> exec B m (r # es) n fs"

lemma exec_trans: "exec B m es n fs \<Longrightarrow> exec B n fs p gs \<Longrightarrow> exec B m es p gs"
  by (induction rule: exec.induct) (auto intro: exec.intros)

section \<open>Call and return: the specification of \<open>co_await\<close>\<close>

text \<open>
  What the programmer of a coroutine relies on: \<open>co_await f(...)\<close> behaves like a call that
  returns what the callee returns and throws what it throws. \<open>eval B b x es r fs\<close> is that
  direct reading: body \<open>b\<close>, entered with \<open>x\<close>, ends with \<open>r\<close> (a value or an exception) after
  using up the outside results \<open>es\<close> down to \<open>fs\<close>. No frame, promise or handle occurs in it.
\<close>

inductive eval ::
    "('b, 'v) code \<Rightarrow> 'b \<Rightarrow> (exn + 'v) option \<Rightarrow> (exn + 'v) list
       \<Rightarrow> (exn + 'v) \<Rightarrow> (exn + 'v) list \<Rightarrow> bool" for B where
  eval_return: "B b x = Co_return v \<Longrightarrow> eval B b x es (Inr v) es"
| eval_throw: "B b x = Co_throw e \<Longrightarrow> eval B b x es (Inl e) es"
| eval_await: "B b x = Co_await inner rest \<Longrightarrow> eval B inner None es r fs
     \<Longrightarrow> eval B rest (Some r) fs r' gs \<Longrightarrow> eval B b x es r' gs"
| eval_suspend: "B b x = Co_suspend rest \<Longrightarrow> eval B rest (Some r) es r' fs
     \<Longrightarrow> eval B b x (r # es) r' fs"

inductive_cases eval_returnE: "eval B b x [] r fs"

definition unused :: "('b, 'v) machine \<Rightarrow> bool" where
  "unused m \<longleftrightarrow> (\<forall>a \<ge> next_addr m. heap m a = None)"

definition pristine :: "('b, 'v) frame \<Rightarrow> bool" where
  "pristine f \<longleftrightarrow> \<not> at_final f \<and> awaiting f = None \<and> promise_value f = None \<and> exception f = None"

definition input_of :: "(exn + 'v) option \<Rightarrow> 'v input" where
  "input_of x = (case x of None \<Rightarrow> Start | Some r \<Rightarrow> Resumed r)"

text \<open>\<open>h\<close> has control with frame \<open>f\<close>, about to run its body with \<open>x\<close>.\<close>

definition in_control ::
    "('b, 'v) machine \<Rightarrow> handle \<Rightarrow> ('b, 'v) frame \<Rightarrow> (exn + 'v) option \<Rightarrow> bool" where
  "in_control m h f x \<longleftrightarrow> unused m \<and> heap m h = Some f \<and> pristine f
     \<and> control m = Some (h, input_of x) \<and> parked m = None"

text \<open>
  \<open>h\<close> has reached its final suspend point with result \<open>r\<close> in machine \<open>n\<close>, nothing else in
  the heap of \<open>m\<close> has changed, and control has passed to the continuation of \<open>h\<close>.
\<close>

definition completed ::
    "('b, 'v) machine \<Rightarrow> handle \<Rightarrow> ('b, 'v) frame \<Rightarrow> (exn + 'v)
       \<Rightarrow> ('b, 'v) machine \<Rightarrow> ('b, 'v) frame \<Rightarrow> bool" where
  "completed m h f r n g \<longleftrightarrow> heap n = (heap m)(h \<mapsto> g) \<and> at_final g \<and> awaiting g = None
     \<and> await_resume g = Some r \<and> continuation g = continuation f
     \<and> control n = map_option (\<lambda>k. (k, From_task)) (continuation f)
     \<and> unused n \<and> parked n = None"

lemma step_in_control:
  "in_control m h f x \<Longrightarrow> step B m = Some (run_body B h f x m)"
  by (auto simp: in_control_def step_def input_of_def split: option.split)

lemma unusedD: "unused m \<Longrightarrow> heap m h = Some f \<Longrightarrow> h < next_addr m"
  by (metis linorder_not_less option.distinct(1) unused_def)

lemma final_suspend_completed:
  assumes "in_control m h f x" and "await_resume f' = Some r"
    and "continuation f' = continuation f" and "awaiting f' = None"
  shows "completed m h f r (final_suspend h f' m) (f'\<lparr>at_final := True\<rparr>)"
  using assms unusedD [of m h f]
  by (auto simp: completed_def final_suspend_def in_control_def unused_def Let_def split: option.split)

lemma co_await_new_control:
  assumes "in_control m h f x"
  shows "in_control (co_await_new h f inner rest m) (next_addr m)
           (set_continuation h (new_frame inner)) None"
  using assms unusedD [of m h f]
  by (auto simp: co_await_new_def in_control_def pristine_def input_of_def frame_defs unused_def Let_def)

text \<open>
  The callee is done: one more step gives its result to the caller, whose frame is as it was
  but for the resume point; the frame of the callee is gone.
\<close>

lemma callee_completed:
  assumes ctl: "in_control m h f x"
    and don: "completed (co_await_new h f inner rest m) (next_addr m)
               (set_continuation h (new_frame inner)) r n g"
  shows "\<exists>n'. step B n = Some n' \<and> heap n' = (heap m)(h \<mapsto> f\<lparr>body := rest\<rparr>)
           \<and> in_control n' h (f\<lparr>body := rest\<rparr>) (Some r)"
proof -
  let ?i = "next_addr m"
  let ?f = "f\<lparr>body := rest, awaiting := Some ?i\<rparr>"
  have h: "h < ?i" and fresh: "heap m ?i = None" and f: "pristine f" "heap m h = Some f"
    using ctl unusedD [of m h f] by (auto simp: in_control_def unused_def)
  have hn: "heap n = (heap m)(h \<mapsto> ?f, ?i \<mapsto> g)"
    using don by (simp add: completed_def co_await_new_def Let_def)
  have tn: "control n = Some (h, From_task)" and r: "await_resume g = Some r"
    and un: "unused n" and pn: "parked n = None"
    using don by (simp_all add: completed_def set_continuation_def)
  let ?n' = "n\<lparr>heap := (heap m)(h \<mapsto> f\<lparr>body := rest\<rparr>), control := Some (h, Resumed r)\<rparr>"
  have restored: "f\<lparr>body := rest, awaiting := None\<rparr> = f\<lparr>body := rest\<rparr>"
    using f(1) by (simp add: pristine_def)
  have "step B n = Some ?n'"
    using h fresh restored
    by (simp add: step_def tn hn finish_await_def r task_destroy_def fun_upd_twist fun_upd_idem)
  moreover have "in_control ?n' h (f\<lparr>body := rest\<rparr>) (Some r)"
    using un f h hn by (auto simp: in_control_def pristine_def input_of_def unused_def pn split: if_splits)
  ultimately show ?thesis by auto
qed

lemma completed_trans:
  assumes "heap n = (heap m)(h \<mapsto> f')" and "continuation f' = continuation f"
    and "completed n h f' r p g"
  shows "completed m h f r p g"
  using assms by (auto simp: completed_def)

theorem eval_exec:
  assumes "eval B b x es r fs" and "in_control m h f x" and "body f = b"
  shows "\<exists>n g. exec B m es n fs \<and> completed m h f r n g"
  using assms
proof (induction arbitrary: m h f rule: eval.induct)
  case (eval_return b x v es)
  then have "step B m = Some (final_suspend h (return_value v f) m)"
    by (simp add: step_in_control run_body_def)
  moreover have "completed m h f (Inr v) (final_suspend h (return_value v f) m)
                   ((return_value v f)\<lparr>at_final := True\<rparr>)"
    using eval_return.prems
    by (intro final_suspend_completed) (auto simp: in_control_def pristine_def return_value_def await_resume_def)
  ultimately show ?case by (blast intro: exec_step exec_refl)
next
  case (eval_throw b x e es)
  then have "step B m = Some (final_suspend h (unhandled_exception e f) m)"
    by (simp add: step_in_control run_body_def)
  moreover have "completed m h f (Inl e) (final_suspend h (unhandled_exception e f) m)
                   ((unhandled_exception e f)\<lparr>at_final := True\<rparr>)"
    using eval_throw.prems
    by (intro final_suspend_completed) (auto simp: in_control_def pristine_def unhandled_exception_def await_resume_def)
  ultimately show ?case by (blast intro: exec_step exec_refl)
next
  case (eval_await b x inner rest es r fs r' gs)
  let ?m = "co_await_new h f inner rest m"
  let ?callee = "set_continuation h (new_frame inner)"
  have s1: "step B m = Some ?m"
    using eval_await.hyps eval_await.prems by (simp add: step_in_control run_body_def)
  have "body ?callee = inner" by (simp add: frame_defs)
  with eval_await.IH(1) [OF co_await_new_control [OF eval_await.prems(1)]]
  obtain n g where e1: "exec B ?m es n fs" and c1: "completed ?m (next_addr m) ?callee r n g"
    by blast
  from callee_completed [OF eval_await.prems(1) c1]
  obtain n' where s2: "step B n = Some n'" and hn: "heap n' = (heap m)(h \<mapsto> f\<lparr>body := rest\<rparr>)"
    and c2: "in_control n' h (f\<lparr>body := rest\<rparr>) (Some r)" by blast
  from eval_await.IH(2) [OF c2]
  obtain p k where e2: "exec B n' fs p gs" and c3: "completed n' h (f\<lparr>body := rest\<rparr>) r' p k"
    by auto
  have "exec B m es p gs"
    using s1 e1 s2 e2 by (blast intro: exec_step exec_trans)
  moreover have "completed m h f r' p k"
    using hn c3 by (rule_tac completed_trans) auto
  ultimately show ?case by blast
next
  case (eval_suspend b x rest r es r' fs)
  let ?m = "m\<lparr>heap := (heap m)(h \<mapsto> f\<lparr>body := rest\<rparr>), control := None, parked := Some h, depth := 0\<rparr>"
  let ?n = "?m\<lparr>control := Some (h, Resumed r), parked := None, depth := 1\<rparr>"
  have s1: "step B m = Some ?m" and s2: "feed r ?m = Some ?n"
    using eval_suspend.hyps eval_suspend.prems by (simp_all add: step_in_control run_body_def feed_def)
  have "in_control ?n h (f\<lparr>body := rest\<rparr>) (Some r)"
    using eval_suspend.prems(1) by (auto simp: in_control_def pristine_def input_of_def unused_def)
  from eval_suspend.IH [OF this]
  obtain p k where e2: "exec B ?n es p fs" and c2: "completed ?n h (f\<lparr>body := rest\<rparr>) r' p k"
    by auto
  have "exec B m (r # es) p fs" using s1 s2 e2 by (blast intro: exec_step exec_feed)
  moreover have "completed m h f r' p k"
    using c2 by (rule_tac completed_trans) auto
  ultimately show ?case by blast
qed

section \<open>No resumption of a finished, destroyed or null coroutine\<close>

text \<open>
  The frames of a machine form one chain: a coroutine that awaits a task is the continuation
  of the coroutine of that task, and only that one. Control is with a coroutine that can run.
\<close>

definition linked :: "('b, 'v) heap \<Rightarrow> bool" where
  "linked H \<longleftrightarrow>
     (\<forall>h f i. H h = Some f \<and> awaiting f = Some i \<longrightarrow>
        \<not> at_final f \<and> (\<exists>g. H i = Some g \<and> continuation g = Some h)) \<and>
     (\<forall>i g h. H i = Some g \<and> continuation g = Some h \<longrightarrow>
        (\<exists>f. H h = Some f \<and> awaiting f = Some i)) \<and>
     (\<forall>h f. H h = Some f \<and> at_final f \<longrightarrow> await_resume f \<noteq> None)"

definition runnable :: "('b, 'v) heap \<Rightarrow> handle \<Rightarrow> bool" where
  "runnable H h \<longleftrightarrow> (\<exists>f. H h = Some f \<and> \<not> at_final f \<and> awaiting f = None)"

definition top_ok :: "('b, 'v) heap \<Rightarrow> handle \<times> 'v input \<Rightarrow> bool" where
  "top_ok H c = (case c of
      (h, From_task) \<Rightarrow> (\<exists>f i g. H h = Some f \<and> awaiting f = Some i \<and> H i = Some g \<and> at_final g)
    | (h, _) \<Rightarrow> runnable H h)"

definition machine_ok :: "('b, 'v) machine \<Rightarrow> bool" where
  "machine_ok m \<longleftrightarrow> unused m \<and> linked (heap m)
     \<and> (\<forall>c. control m = Some c \<longrightarrow> top_ok (heap m) c \<and> parked m = None)
     \<and> (\<forall>h. parked m = Some h \<longrightarrow> runnable (heap m) h)"

lemma linkedD:
  assumes "linked H"
  shows "H h = Some f \<Longrightarrow> awaiting f = Some i \<Longrightarrow> \<not> at_final f \<and> (\<exists>g. H i = Some g \<and> continuation g = Some h)"
    and "H i = Some g \<Longrightarrow> continuation g = Some h \<Longrightarrow> \<exists>f. H h = Some f \<and> awaiting f = Some i"
    and "H h = Some f \<Longrightarrow> at_final f \<Longrightarrow> await_resume f \<noteq> None"
  using assms by (auto simp: linked_def)

lemma linked_resume_point:
  assumes "linked H" and "H h = Some f"
  shows "linked (H(h \<mapsto> f\<lparr>body := rest\<rparr>))"
  unfolding linked_def
proof (intro conjI allI impI)
  fix k f' i assume a: "(H(h \<mapsto> f\<lparr>body := rest\<rparr>)) k = Some f' \<and> awaiting f' = Some i"
  then obtain fk where "H k = Some fk" "awaiting fk = Some i" "at_final fk = at_final f'"
    using assms(2) by (auto split: if_splits)
  from linkedD(1) [OF assms(1) this(1,2)] this(3) assms(2)
  show "\<not> at_final f'" "\<exists>g. (H(h \<mapsto> f\<lparr>body := rest\<rparr>)) i = Some g \<and> continuation g = Some k"
    by auto
next
  fix i g k assume a: "(H(h \<mapsto> f\<lparr>body := rest\<rparr>)) i = Some g \<and> continuation g = Some k"
  then obtain gi where "H i = Some gi" "continuation gi = Some k"
    using assms(2) by (auto split: if_splits)
  from linkedD(2) [OF assms(1) this] assms(2)
  show "\<exists>f'. (H(h \<mapsto> f\<lparr>body := rest\<rparr>)) k = Some f' \<and> awaiting f' = Some i"
    by auto
next
  fix k f' assume "(H(h \<mapsto> f\<lparr>body := rest\<rparr>)) k = Some f' \<and> at_final f'"
  then show "await_resume f' \<noteq> None"
    using assms linkedD(3) [OF assms(1)] by (auto split: if_splits)
qed

lemma linked_final:
  assumes L: "linked H" and f: "H h = Some f" "awaiting f = None"
    and f': "awaiting f' = None" "continuation f' = continuation f" "await_resume f' \<noteq> None"
  shows "linked (H(h \<mapsto> f'\<lparr>at_final := True\<rparr>))"
  unfolding linked_def
proof (intro conjI allI impI)
  fix k fk i assume "(H(h \<mapsto> f'\<lparr>at_final := True\<rparr>)) k = Some fk \<and> awaiting fk = Some i"
  then have k: "H k = Some fk" "awaiting fk = Some i" using f' by (auto split: if_splits)
  from linkedD(1) [OF L k] f f'
  show "\<not> at_final fk" "\<exists>g. (H(h \<mapsto> f'\<lparr>at_final := True\<rparr>)) i = Some g \<and> continuation g = Some k"
    by auto
next
  fix i g k assume "(H(h \<mapsto> f'\<lparr>at_final := True\<rparr>)) i = Some g \<and> continuation g = Some k"
  then obtain gi where i: "H i = Some gi" "continuation gi = Some k"
    using f f' by (auto split: if_splits)
  from linkedD(2) [OF L i] f
  show "\<exists>fk. (H(h \<mapsto> f'\<lparr>at_final := True\<rparr>)) k = Some fk \<and> awaiting fk = Some i"
    by auto
next
  fix k fk assume "(H(h \<mapsto> f'\<lparr>at_final := True\<rparr>)) k = Some fk \<and> at_final fk"
  then show "await_resume fk \<noteq> None"
    using f' linkedD(3) [OF L] by (auto split: if_splits)
qed

lemma linked_await:
  assumes L: "linked H" and f: "H h = Some f" "awaiting f = None" "\<not> at_final f" and i: "H i = None"
  shows "linked (H(h \<mapsto> f\<lparr>body := rest, awaiting := Some i\<rparr>, i \<mapsto> set_continuation h (new_frame inner)))"
    (is "linked ?H")
  unfolding linked_def
proof (intro conjI allI impI)
  have hi: "h \<noteq> i" using f i by auto
  fix k fk j assume a: "?H k = Some fk \<and> awaiting fk = Some j"
  have "\<not> at_final fk \<and> (\<exists>g. ?H j = Some g \<and> continuation g = Some k)"
  proof (cases "k = h")
    case True
    then show ?thesis using a f hi by (auto simp: frame_defs)
  next
    case False
    with a have k: "H k = Some fk" "awaiting fk = Some j" by (auto simp: frame_defs split: if_splits)
    from linkedD(1) [OF L k] f i show ?thesis by auto
  qed
  then show "\<not> at_final fk" "\<exists>g. ?H j = Some g \<and> continuation g = Some k" by auto
next
  have hi: "h \<noteq> i" using f i by auto
  fix j g k assume a: "?H j = Some g \<and> continuation g = Some k"
  show "\<exists>fk. ?H k = Some fk \<and> awaiting fk = Some j"
  proof (cases "j = i")
    case True
    then show ?thesis using a hi by (auto simp: frame_defs)
  next
    case False
    with a f obtain gj where j: "H j = Some gj" "continuation gj = Some k" by (auto split: if_splits)
    from linkedD(2) [OF L j] f i show ?thesis by auto
  qed
next
  fix k fk assume "?H k = Some fk \<and> at_final fk"
  then show "await_resume fk \<noteq> None"
    using f linkedD(3) [OF L] by (auto simp: frame_defs split: if_splits)
qed

lemma linked_finish:
  assumes L: "linked H" and f: "H h = Some f" "awaiting f = Some i"
    and g: "H i = Some g" "at_final g"
  shows "linked (H(h \<mapsto> f\<lparr>awaiting := None\<rparr>, i := None))" (is "linked ?H")
proof -
  have hi: "h \<noteq> i" and gi: "continuation g = Some h"
    using linkedD(1) [OF L f] f g by auto
  have gn: "awaiting g = None"
    using linkedD(1) [OF L g(1)] g(2) by (cases "awaiting g") auto
  show ?thesis
    unfolding linked_def
  proof (intro conjI allI impI)
    fix k fk j assume "?H k = Some fk \<and> awaiting fk = Some j"
    then have k: "H k = Some fk" "awaiting fk = Some j" "k \<noteq> h" by (auto split: if_splits)
    from linkedD(1) [OF L k(1,2)] k(3) gi g(1) f
    show "\<not> at_final fk" "\<exists>g. ?H j = Some g \<and> continuation g = Some k" by auto
  next
    fix j g' k assume "?H j = Some g' \<and> continuation g' = Some k"
    then obtain gj where j: "H j = Some gj" "continuation gj = Some k" "j \<noteq> i"
      using f by (auto split: if_splits)
    from linkedD(2) [OF L j(1,2)] j(3) gn g(1) f
    show "\<exists>fk. ?H k = Some fk \<and> awaiting fk = Some j" by auto
  next
    fix k fk assume "?H k = Some fk \<and> at_final fk"
    then show "await_resume fk \<noteq> None"
      using linkedD(1) [OF L f] linkedD(3) [OF L] by (auto split: if_splits)
  qed
qed

lemma final_suspend_ok:
  assumes ok: "machine_ok m" and tp: "control m \<noteq> None" and f: "heap m h = Some f" "awaiting f = None"
    and f': "awaiting f' = None" "continuation f' = continuation f" "await_resume f' \<noteq> None"
  shows "machine_ok (final_suspend h f' m)"
proof -
  have L: "linked (heap m)" and U: "unused m" and P: "parked m = None"
    using ok tp by (auto simp: machine_ok_def)
  have L': "linked ((heap m)(h \<mapsto> f'\<lparr>at_final := True\<rparr>))" by (rule linked_final [OF L f f'])
  show ?thesis
  proof (cases "continuation f")
    case None
    then show ?thesis
      using L' U P f f' unusedD [OF U f(1)]
      by (auto simp: final_suspend_def machine_ok_def unused_def Let_def)
  next
    case (Some k)
    with linkedD(2) [OF L f(1)] obtain fk where k: "heap m k = Some fk" "awaiting fk = Some h" by blast
    with f have "k \<noteq> h" by auto
    with k have "top_ok ((heap m)(h \<mapsto> f'\<lparr>at_final := True\<rparr>)) (k, From_task)"
      by (simp add: top_ok_def)
    then show ?thesis
      using L' U P f' Some unusedD [OF U f(1)]
      by (auto simp: final_suspend_def machine_ok_def unused_def Let_def)
  qed
qed

lemma co_await_new_ok:
  assumes ok: "machine_ok m" and tp: "control m \<noteq> None"
    and f: "heap m h = Some f" "awaiting f = None" "\<not> at_final f"
  shows "machine_ok (co_await_new h f inner rest m)"
proof -
  have L: "linked (heap m)" and U: "unused m" and P: "parked m = None"
    using ok tp by (auto simp: machine_ok_def)
  have i: "heap m (next_addr m) = None" using U by (simp add: unused_def)
  show ?thesis
    using linked_await [OF L f i] U P unusedD [OF U f(1)]
    by (auto simp: co_await_new_def machine_ok_def unused_def top_ok_def runnable_def frame_defs Let_def)
qed

lemma run_body_ok:
  assumes ok: "machine_ok m" and tp: "control m \<noteq> None"
    and f: "heap m h = Some f" "awaiting f = None" "\<not> at_final f"
  shows "machine_ok (run_body B h f x m)"
proof (cases "B (body f) x")
  case (Co_return v)
  then show ?thesis
    unfolding run_body_def
    by (simp, intro final_suspend_ok [OF ok tp f(1,2)])
       (auto simp: return_value_def f await_resume_def split: option.split)
next
  case (Co_throw e)
  then show ?thesis
    unfolding run_body_def
    by (simp, intro final_suspend_ok [OF ok tp f(1,2)])
       (auto simp: unhandled_exception_def f await_resume_def)
next
  case (Co_await inner rest)
  then show ?thesis using co_await_new_ok [OF ok tp f] by (simp add: run_body_def)
next
  case (Co_suspend rest)
  have "linked (heap m)" "unused m" using ok by (auto simp: machine_ok_def)
  then show ?thesis
    using Co_suspend f unusedD [of m h f] linked_resume_point [of "heap m" h f rest]
    by (auto simp: run_body_def machine_ok_def unused_def runnable_def)
qed

lemma finish_await_ok:
  assumes ok: "machine_ok m" and tp: "control m = Some (h, From_task)" and f: "heap m h = Some f"
  shows "\<exists>m'. finish_await h f m = Some m' \<and> machine_ok m'"
proof -
  have L: "linked (heap m)" and U: "unused m" and P: "parked m = None"
    and T: "top_ok (heap m) (h, From_task)"
    using ok tp by (auto simp: machine_ok_def)
  from T f obtain i g where a: "awaiting f = Some i" and g: "heap m i = Some g" "at_final g"
    by (auto simp: top_ok_def)
  from linkedD(3) [OF L g] obtain r where r: "await_resume g = Some r" by auto
  from linkedD(1) [OF L f a] g(2) f g(1) have nf: "\<not> at_final f" "i \<noteq> h" by auto
  show ?thesis
    using a g r U P nf linked_finish [OF L f a g] unusedD [OF U f]
    by (auto simp: finish_await_def task_destroy_def machine_ok_def unused_def top_ok_def runnable_def)
qed

theorem step_ok:
  assumes ok: "machine_ok m" and tp: "control m = Some c"
  shows "\<exists>m'. step B m = Some m' \<and> machine_ok m'"
proof (cases c)
  case (Pair h inp)
  with ok tp have T: "top_ok (heap m) (h, inp)" by (simp add: machine_ok_def)
  show ?thesis
  proof (cases inp)
    case From_task
    with T obtain f where "heap m h = Some f" by (auto simp: top_ok_def)
    with finish_await_ok [OF ok _ this] show ?thesis
      using tp Pair From_task by (simp add: step_def)
  next
    case Start
    with T obtain f where "heap m h = Some f" "awaiting f = None" "\<not> at_final f"
      by (auto simp: top_ok_def runnable_def)
    with run_body_ok [OF ok _ this] show ?thesis
      using tp Pair Start by (simp add: step_def)
  next
    case (Resumed r)
    with T obtain f where "heap m h = Some f" "awaiting f = None" "\<not> at_final f"
      by (auto simp: top_ok_def runnable_def)
    with run_body_ok [OF ok _ this] show ?thesis
      using tp Pair Resumed by (simp add: step_def)
  qed
qed

lemma feed_ok: "machine_ok m \<Longrightarrow> feed r m = Some m' \<Longrightarrow> machine_ok m'"
  by (auto simp: feed_def machine_ok_def unused_def top_ok_def split: option.splits)

theorem exec_ok:
  assumes "exec B m es n fs" and "machine_ok m"
  shows "machine_ok n"
  using assms
proof (induction rule: exec.induct)
  case (exec_refl m es)
  then show ?case .
next
  case (exec_step m m' es n fs)
  from exec_step.hyps(1) obtain c where "control m = Some c" by (auto simp: step_def split: option.splits)
  from step_ok [OF exec_step.prems this, of B] exec_step.hyps(1) have "machine_ok m'" by auto
  then show ?case by (rule exec_step.IH)
next
  case (exec_feed r m m' es n fs)
  then show ?case using feed_ok by blast
qed

lemma start_machine_ok: "machine_ok (start_machine b)"
  by (auto simp: start_machine_def machine_ok_def unused_def linked_def top_ok_def runnable_def
        new_frame_def split: if_splits)

lemma start_in_control: "in_control (start_machine b) 0 (new_frame b) None"
  by (simp add: start_machine_def in_control_def unused_def pristine_def input_of_def new_frame_def)

section \<open>Ownership of frames\<close>

text \<open>
  The operations of \<open>Task\<close> as those of an owner class: the frames an operation frees, and
  the objects after it. They are what \<open>task_destroy\<close> and \<open>task_move_assign\<close> do to the heap.
\<close>

definition task_free :: "task \<Rightarrow> handle list \<times> task" where
  "task_free t = (case t of None \<Rightarrow> ([], None) | Some h \<Rightarrow> ([h], None))"

definition task_assign :: "bool \<Rightarrow> task \<Rightarrow> task \<Rightarrow> handle list \<times> task \<times> task" where
  "task_assign same self other =
     (if same then ([], self, other) else (fst (task_free self), other, None))"

definition free_all :: "handle list \<Rightarrow> ('b, 'v) heap \<Rightarrow> ('b, 'v) heap" where
  "free_all hs H = (\<lambda>h. if h \<in> set hs then None else H h)"

lemma task_destroy_frees:
  "task_destroy H t = (free_all (fst (task_free t)) H, snd (task_free t))"
  by (auto simp: task_destroy_def task_free_def free_all_def split: option.split)

lemma task_move_assign_frees:
  "task_move_assign same H self other =
     (free_all (fst (task_assign same self other)) H, snd (task_assign same self other))"
  by (simp add: task_move_assign_def task_assign_def task_destroy_frees free_all_def)

interpretation task_owner: unique_owner id task_move task_free task_assign
  by unfold_locales (auto simp: task_move_def task_free_def task_assign_def held_def split: option.split)

section \<open>Properties\<close>

text \<open>
  C1. \<open>co_await\<close> is a call. Whenever the direct reading \<open>eval\<close> says that a coroutine ends
  with \<open>r\<close>, the frames, promises and nested resumptions of \<open>task.hpp\<close> bring a task that is
  resumed for the first time to its final suspend point with exactly that value or
  exception in its promise, after the same outside results; all frames of awaited
  coroutines are gone from the heap and no coroutine is left with control.
\<close>

theorem co_await_is_call:
  assumes "eval B b None es r fs"
  shows "\<exists>n g. exec B (start_machine b) es n fs \<and> heap n = [0 \<mapsto> g]
           \<and> at_final g \<and> await_resume g = Some r \<and> control n = None"
proof -
  have b: "body (new_frame b) = b" by (simp add: new_frame_def)
  from eval_exec [OF assms start_in_control b] obtain n g
    where e: "exec B (start_machine b) es n fs"
      and c: "completed (start_machine b) 0 (new_frame b) r n g" by blast
  then show ?thesis
    by (intro exI [of _ n] exI [of _ g]) (simp add: completed_def start_machine_def new_frame_def)
qed

text \<open>
  An example program, for the witnesses: resume point 0 awaits a coroutine that starts at 1,
  suspends there in an outside awaiter and returns one more than it was given; resume point 2
  returns the double of what the awaited coroutine returned, or throws what it threw.
\<close>

fun example_code :: "(nat, nat) code" where
  "example_code p x =
     (if p = 0 then Co_await 1 2
      else if p = 1 then Co_suspend 3
      else (case x of
          Some (Inr v) \<Rightarrow> (if p = 3 then Co_return (v + 1) else Co_return (2 * v))
        | Some (Inl e) \<Rightarrow> Co_throw e
        | None \<Rightarrow> Co_throw (Foreign 0)))"

lemma example_eval: "eval example_code 0 None [Inr 20] (Inr 42) []"
proof (rule eval_await [where inner = 1 and rest = 2 and r = "Inr 21" and fs = "[]"])
  show "eval example_code 1 None [Inr 20] (Inr 21) []"
    by (rule eval_suspend [where rest = 3]) (auto intro: eval_return)
  show "eval example_code 2 (Some (Inr 21)) [] (Inr 42) []"
    by (rule eval_return) simp
qed simp

theorem co_await_is_call_witness:
  "\<exists>n g. exec example_code (start_machine 0) [Inr 20] n [] \<and> heap n = [0 \<mapsto> g]
     \<and> at_final g \<and> await_resume g = Some (Inr 42) \<and> control n = None"
  by (rule co_await_is_call [OF example_eval])

text \<open>
  C2. No undefined behaviour in the resumption protocol. In every machine that a program can
  reach from a fresh task, the coroutine that has control exists, is not at its final suspend
  point and can take its next step: no destroyed, finished or null coroutine is resumed,
  and \<open>await_resume\<close> never reads an empty promise.
\<close>

theorem no_dangling_resume:
  assumes "exec B (start_machine b) es n fs" and "control n = Some (h, inp)"
  shows "\<exists>f. heap n h = Some f \<and> \<not> at_final f \<and> (\<exists>n'. step B n = Some n' \<and> machine_ok n')"
proof -
  have ok: "machine_ok n" by (rule exec_ok [OF assms(1) start_machine_ok])
  with assms(2) have "top_ok (heap n) (h, inp)" and L: "linked (heap n)"
    by (auto simp: machine_ok_def)
  then have "\<exists>f. heap n h = Some f \<and> \<not> at_final f"
    using linkedD(1) [OF L] by (cases inp) (auto simp: top_ok_def runnable_def)
  with step_ok [OF ok assms(2), of B] show ?thesis by auto
qed

lemma example_first_step:
  "\<exists>n. exec example_code (start_machine 0) [] n [] \<and> control n = Some (1, Start)"
proof -
  let ?n = "co_await_new 0 (new_frame 0) 1 2 (start_machine 0)"
  have "step example_code (start_machine 0) = Some ?n"
    by (simp add: step_in_control [OF start_in_control] run_body_def new_frame_def)
  then have "exec example_code (start_machine 0) [] ?n []" by (rule exec_step) (rule exec_refl)
  moreover have "control ?n = Some (1, Start)" by (simp add: co_await_new_def start_machine_def)
  ultimately show ?thesis by blast
qed

theorem no_dangling_resume_witness:
  "\<exists>n f. exec example_code (start_machine 0) [] n [] \<and> heap n 1 = Some f \<and> \<not> at_final f
     \<and> (\<exists>n'. step example_code n = Some n' \<and> machine_ok n')"
proof -
  obtain n where n: "exec example_code (start_machine 0) [] n []" "control n = Some (1, Start)"
    using example_first_step by blast
  from no_dangling_resume [OF n] n(1) show ?thesis by blast
qed

text \<open>
  The awaiters of \<open>Task\<close> do not transfer control symmetrically: starting the awaited
  coroutine and resuming the continuation are both calls from inside the calls that are
  still active. One \<open>co_await\<close> on a coroutine that finishes without suspending adds two.
\<close>

lemma synchronous_await:
  assumes ctl: "in_control m h f x"
    and outer: "B (body f) x = Co_await leaf rest" and inner: "B leaf None = Co_return v"
  shows "\<exists>n. run_steps B 3 m = Some n \<and> depth n = depth m + 2
           \<and> in_control n h (f\<lparr>body := rest\<rparr>) (Some (Inr v))"
proof -
  let ?m = "co_await_new h f leaf rest m"
  let ?g = "set_continuation h (new_frame leaf)"
  let ?n = "final_suspend (next_addr m) (return_value v ?g) ?m"
  have s1: "step B m = Some ?m" using ctl outer by (simp add: step_in_control run_body_def)
  have c1: "in_control ?m (next_addr m) ?g None" by (rule co_await_new_control [OF ctl])
  have s2: "step B ?m = Some ?n" using c1 inner by (simp add: step_in_control run_body_def)
  have "completed ?m (next_addr m) ?g (Inr v) ?n ((return_value v ?g)\<lparr>at_final := True\<rparr>)"
    by (rule final_suspend_completed [OF c1]) (simp_all add: frame_defs await_resume_def)
  from callee_completed [OF ctl this] obtain n'
    where s3: "step B ?n = Some n'" and c3: "in_control n' h (f\<lparr>body := rest\<rparr>) (Some (Inr v))" by blast
  have "depth n' = depth ?n"
    using s3 by (auto simp: step_def finish_await_def final_suspend_def frame_defs split: option.splits)
  also have "\<dots> = depth m + 2" by (simp add: final_suspend_def frame_defs co_await_new_def Let_def)
  finally show ?thesis using s1 s2 s3 c3 by (auto simp: eval_nat_numeral)
qed

lemma run_steps_add:
  "run_steps B (a + k) m = (case run_steps B a m of None \<Rightarrow> None | Some m' \<Rightarrow> run_steps B k m')"
  by (induction a arbitrary: m) (auto split: option.split)

text \<open>
  C40. Native stack use of \<open>co_await\<close>. A coroutine that awaits, one after the other,
  \<open>k\<close> coroutines that finish without suspending is, after the last of them, still inside
  \<open>2 k\<close> nested calls of \<open>resume\<close>: the depth of the native stack grows with the number of
  awaits between two real suspensions and has no bound.
\<close>

theorem await_stack_depth:
  assumes "in_control m h f x" and "body f = b j"
    and "\<And>i y. i < j + k \<Longrightarrow> B (b i) y = Co_await leaf (b (Suc i))" and "B leaf None = Co_return v"
  shows "\<exists>n g y. run_steps B (3 * k) m = Some n \<and> in_control n h g y \<and> body g = b (j + k)
           \<and> depth n = depth m + 2 * k"
  using assms
proof (induction k arbitrary: m f x j)
  case 0
  then show ?case by auto
next
  case (Suc k)
  have "B (body f) x = Co_await leaf (b (Suc j))" using Suc.prems(2,3) by simp
  from synchronous_await [OF Suc.prems(1) this Suc.prems(4)]
  obtain n where r1: "run_steps B 3 m = Some n" and d1: "depth n = depth m + 2"
    and c1: "in_control n h (f\<lparr>body := b (Suc j)\<rparr>) (Some (Inr v))" by blast
  have "\<And>i y. i < Suc j + k \<Longrightarrow> B (b i) y = Co_await leaf (b (Suc i))" using Suc.prems(3) by simp
  with Suc.IH [OF c1 _ _ Suc.prems(4), of "Suc j"]
  obtain p g y where r2: "run_steps B (3 * k) n = Some p" and "in_control p h g y"
    and "body g = b (Suc j + k)" and "depth p = depth n + 2 * k" by auto
  moreover have "run_steps B (3 * Suc k) m = Some p"
    using r1 r2 run_steps_add [of B 3 "3 * k" m] by simp
  ultimately show ?case using d1 by (intro exI [of _ p] exI [of _ g] exI [of _ y]) simp
qed

text \<open>A loop that awaits a one-byte read 1000 times and finds a byte each time.\<close>

fun byte_loop :: "(nat, char) code" where
  "byte_loop p x = (if p = 0 then Co_return CHR ''a''
                    else if p \<le> 1000 then Co_await 0 (Suc p) else Co_return CHR ''z'')"

theorem await_stack_depth_witness:
  "\<exists>n g y. run_steps byte_loop 3000 (start_machine 1) = Some n \<and> in_control n 0 g y
     \<and> body g = 1001 \<and> depth n = 2001"
  using await_stack_depth [OF start_in_control, of 1 Suc 0 1000 byte_loop 0 "CHR ''a''"]
  by (simp add: new_frame_def start_machine_def)

text \<open>
  C24. Every coroutine frame has one owner. In any program of constructions, move
  constructions, move assignments (self-assignment included) and destructions of \<open>Task\<close>
  objects, each frame that was created is owned by exactly one task or has been destroyed
  exactly once; no frame is destroyed twice and none is destroyed while a task owns it.
\<close>

theorem task_frames_owned_once:
  assumes "perform_all task_move task_free task_assign ps ([], []) = (ts, freed)"
    and "\<And>h. count (acquired id ps) h \<le> 1"
  shows "acquired id ps = live id ts + mset freed \<and> distinct freed
     \<and> (\<forall>h \<in> set freed. Some h \<notin> set ts)"
proof -
  have "h \<in># live id ts" if "Some h \<in> set ts" for h
    using that by (induction ts) (auto simp: held_def)
  with task_owner.released_once [OF assms] task_owner.owned_once [OF assms(1)] show ?thesis by blast
qed

theorem task_frames_owned_once_witness:
  "perform_all task_move task_free task_assign
     [Op_new (Some 7), Op_new (Some 8), Op_assign 0 1, Op_assign 0 0, Op_move 0, Op_release 2, Op_release 0] ([], [])
     = ([None, None, None], [7, 8])
   \<and> acquired id [Op_new (Some 7), Op_new (Some (8 :: handle))] = live id [None, None] + mset [7, 8]"
proof -
  let ?ps = "[Op_new (Some 7), Op_new (Some 8), Op_assign 0 1, Op_assign 0 0, Op_move 0, Op_release 2,
              Op_release 0] :: task owner_op list"
  have run: "perform_all task_move task_free task_assign ?ps ([], []) = ([None, None, None], [7, 8])"
    by (simp add: task_assign_def task_free_def task_move_def)
  have "count (acquired id ?ps) h \<le> 1" for h by (simp add: held_def)
  from task_frames_owned_once [OF run this] run show ?thesis by (simp add: held_def)
qed

end
