(* ===== verification/Task_Void.thy ===== *)
theory Task_Void
  imports Coro_Task
begin

text \<open>
  \<open>include/coro_epoll/task.hpp\<close>: the explicit specialisation \<open>Task<void>\<close>.

  The source writes the class a second time for coroutines without a value. This theory
  models that second text on its own: a promise without \<open>value\<close>, \<open>return_void\<close> in place
  of \<open>return_value\<close>, and an \<open>await_resume\<close> that only rethrows. The last section relates
  it to \<open>Task<T>\<close> at \<open>T = unit\<close>: forgetting the stored unit is a simulation in both
  directions, so what \<open>Coro_Task\<close> shows of \<open>Task<T>\<close> holds of \<open>Task<void>\<close>.
\<close>

section \<open>Frames and promises\<close>

record 'b void_frame =
  void_body :: 'b
  void_awaiting :: "handle option"
  void_at_final :: bool
  void_exception :: "exn option"
  void_continuation :: "handle option"

type_synonym 'b void_heap = "handle \<Rightarrow> 'b void_frame option"

definition new_void_frame :: "'b \<Rightarrow> 'b void_frame" where
  "new_void_frame b = \<lparr>void_body = b, void_awaiting = None, void_at_final = False,
                       void_exception = None, void_continuation = None\<rparr>"

text \<open>\<open>return_void\<close> has an empty body.\<close>

definition return_void :: "'b void_frame \<Rightarrow> 'b void_frame" where
  "return_void f = f"

definition void_unhandled_exception :: "exn \<Rightarrow> 'b void_frame \<Rightarrow> 'b void_frame" where
  "void_unhandled_exception e f = f\<lparr>void_exception := Some e\<rparr>"

definition void_handle_done :: "'b void_heap \<Rightarrow> handle \<Rightarrow> bool" where
  "void_handle_done H h = (case H h of Some f \<Rightarrow> void_at_final f | None \<Rightarrow> False)"

section \<open>Task objects\<close>

definition void_task_done :: "'b void_heap \<Rightarrow> task \<Rightarrow> bool" where
  "void_task_done H t = (case t of None \<Rightarrow> True | Some h \<Rightarrow> void_handle_done H h)"

definition void_task_exception :: "'b void_heap \<Rightarrow> task \<Rightarrow> exn option" where
  "void_task_exception H t = (case t of
      None \<Rightarrow> None
    | Some h \<Rightarrow> (if void_handle_done H h
                 then (case H h of Some f \<Rightarrow> void_exception f | None \<Rightarrow> None) else None))"

definition void_task_destroy :: "'b void_heap \<Rightarrow> task \<Rightarrow> 'b void_heap \<times> task" where
  "void_task_destroy H t = (case t of None \<Rightarrow> (H, None) | Some h \<Rightarrow> (H(h := None), None))"

definition void_task_move :: "task \<Rightarrow> task \<times> task" where
  "void_task_move other = (other, None)"

text \<open>Move assignment; \<open>same\<close> is the test \<open>this == &other\<close>.\<close>

definition void_task_move_assign ::
    "bool \<Rightarrow> 'b void_heap \<Rightarrow> task \<Rightarrow> task \<Rightarrow> 'b void_heap \<times> task \<times> task" where
  "void_task_move_assign same H self other =
     (if same then (H, self, other)
      else let (H', _) = void_task_destroy H self in (H', other, None))"

definition void_await_ready :: "'b void_heap \<Rightarrow> task \<Rightarrow> bool" where
  "void_await_ready H t = (case t of None \<Rightarrow> True | Some h \<Rightarrow> void_handle_done H h)"

definition void_set_continuation :: "handle \<Rightarrow> 'b void_frame \<Rightarrow> 'b void_frame" where
  "void_set_continuation k f = f\<lparr>void_continuation := Some k\<rparr>"

text \<open>There is no value to dereference, so the result is total.\<close>

definition void_await_resume :: "'b void_frame \<Rightarrow> exn + unit" where
  "void_await_resume f = (case void_exception f of Some e \<Rightarrow> Inl e | None \<Rightarrow> Inr ())"

section \<open>The machine\<close>

record 'b void_machine =
  void_heap :: "'b void_heap"
  void_next_addr :: handle
  void_control :: "(handle \<times> unit input) option"
  void_depth :: nat
  void_parked :: "handle option"

definition void_final_suspend ::
    "handle \<Rightarrow> 'b void_frame \<Rightarrow> 'b void_machine \<Rightarrow> 'b void_machine" where
  "void_final_suspend h f m =
     (let m' = m\<lparr>void_heap := (void_heap m)(h \<mapsto> f\<lparr>void_at_final := True\<rparr>)\<rparr>
      in case void_continuation f of
           None \<Rightarrow> m'\<lparr>void_control := None, void_depth := 0\<rparr>
         | Some k \<Rightarrow> m'\<lparr>void_control := Some (k, From_task), void_depth := Suc (void_depth m)\<rparr>)"

definition void_co_await_new ::
    "handle \<Rightarrow> 'b void_frame \<Rightarrow> 'b \<Rightarrow> 'b \<Rightarrow> 'b void_machine \<Rightarrow> 'b void_machine" where
  "void_co_await_new h f inner rest m =
     (let i = void_next_addr m
      in m\<lparr>void_heap := (void_heap m)(h \<mapsto> f\<lparr>void_body := rest, void_awaiting := Some i\<rparr>,
                                      i \<mapsto> void_set_continuation h (new_void_frame inner)),
           void_next_addr := Suc i, void_control := Some (i, Start),
           void_depth := Suc (void_depth m)\<rparr>)"

definition void_run_body ::
    "('b, unit) code \<Rightarrow> handle \<Rightarrow> 'b void_frame \<Rightarrow> (exn + unit) option
       \<Rightarrow> 'b void_machine \<Rightarrow> 'b void_machine" where
  "void_run_body B h f x m = (case B (void_body f) x of
      Co_return _ \<Rightarrow> void_final_suspend h (return_void f) m
    | Co_throw e \<Rightarrow> void_final_suspend h (void_unhandled_exception e f) m
    | Co_await inner rest \<Rightarrow> void_co_await_new h f inner rest m
    | Co_suspend rest \<Rightarrow> m\<lparr>void_heap := (void_heap m)(h \<mapsto> f\<lparr>void_body := rest\<rparr>),
                            void_control := None, void_depth := 0, void_parked := Some h\<rparr>)"

definition void_finish_await ::
    "handle \<Rightarrow> 'b void_frame \<Rightarrow> 'b void_machine \<Rightarrow> 'b void_machine option" where
  "void_finish_await h f m = (case void_awaiting f of
      None \<Rightarrow> None
    | Some i \<Rightarrow> (case void_heap m i of
        None \<Rightarrow> None
      | Some g \<Rightarrow> Some (m\<lparr>void_heap := fst (void_task_destroy
                             ((void_heap m)(h \<mapsto> f\<lparr>void_awaiting := None\<rparr>)) (Some i)),
                          void_control := Some (h, Resumed (void_await_resume g))\<rparr>)))"

definition void_step :: "('b, unit) code \<Rightarrow> 'b void_machine \<Rightarrow> 'b void_machine option" where
  "void_step B m = (case void_control m of
      None \<Rightarrow> None
    | Some (h, inp) \<Rightarrow> (case void_heap m h of
        None \<Rightarrow> None
      | Some f \<Rightarrow> (case inp of
          Start \<Rightarrow> Some (void_run_body B h f None m)
        | Resumed r \<Rightarrow> Some (void_run_body B h f (Some r) m)
        | From_task \<Rightarrow> void_finish_await h f m)))"

definition void_feed :: "exn + unit \<Rightarrow> 'b void_machine \<Rightarrow> 'b void_machine option" where
  "void_feed r m = (case (void_control m, void_parked m) of
      (None, Some h) \<Rightarrow> Some (m\<lparr>void_control := Some (h, Resumed r), void_depth := 1,
                                void_parked := None\<rparr>)
    | _ \<Rightarrow> None)"

text \<open>
  \<open>resume()\<close> of a task whose coroutine has not begun: nothing for a null or a finished
  task. \<open>EventLoop::spawn\<close> starts a coroutine by this call.
\<close>

definition void_task_resume :: "task \<Rightarrow> 'b void_machine \<Rightarrow> 'b void_machine" where
  "void_task_resume t m = (case t of
      None \<Rightarrow> m
    | Some h \<Rightarrow> (if void_handle_done (void_heap m) h then m
                 else m\<lparr>void_control := Some (h, Start), void_depth := Suc (void_depth m)\<rparr>))"

definition void_start_machine :: "'b \<Rightarrow> 'b void_machine" where
  "void_start_machine b = void_task_resume (Some 0)
     \<lparr>void_heap = [0 \<mapsto> new_void_frame b], void_next_addr = 1, void_control = None,
      void_depth = 0, void_parked = None\<rparr>"

inductive void_exec ::
    "('b, unit) code \<Rightarrow> 'b void_machine \<Rightarrow> (exn + unit) list
       \<Rightarrow> 'b void_machine \<Rightarrow> (exn + unit) list \<Rightarrow> bool" for B where
  void_exec_refl: "void_exec B m es m es"
| void_exec_step: "void_step B m = Some m' \<Longrightarrow> void_exec B m' es n fs \<Longrightarrow> void_exec B m es n fs"
| void_exec_feed: "void_feed r m = Some m' \<Longrightarrow> void_exec B m' es n fs \<Longrightarrow> void_exec B m (r # es) n fs"

section \<open>The simulation\<close>

text \<open>The stored unit is forgotten; nothing else changes.\<close>

definition forget_frame :: "('b, unit) frame \<Rightarrow> 'b void_frame" where
  "forget_frame f = \<lparr>void_body = body f, void_awaiting = awaiting f, void_at_final = at_final f,
                     void_exception = exception f, void_continuation = continuation f\<rparr>"

definition forget_heap :: "('b, unit) heap \<Rightarrow> 'b void_heap" where
  "forget_heap H = (\<lambda>h. map_option forget_frame (H h))"

definition forget :: "('b, unit) machine \<Rightarrow> 'b void_machine" where
  "forget m = \<lparr>void_heap = forget_heap (heap m), void_next_addr = next_addr m,
               void_control = control m, void_depth = depth m, void_parked = parked m\<rparr>"

named_theorems forgets \<open>the image of an operation of \<open>Task<T>\<close> under \<open>forget\<close>\<close>

lemma forget_heap_simps [forgets]:
  "forget_heap (H(h \<mapsto> f)) = (forget_heap H)(h \<mapsto> forget_frame f)"
  "forget_heap (H(h := None)) = (forget_heap H)(h := None)"
  "forget_heap H h = map_option forget_frame (H h)"
  by (auto simp: forget_heap_def)

lemma forget_frame_simps [forgets]:
  "forget_frame (f\<lparr>body := c\<rparr>) = (forget_frame f)\<lparr>void_body := c\<rparr>"
  "forget_frame (f\<lparr>awaiting := a\<rparr>) = (forget_frame f)\<lparr>void_awaiting := a\<rparr>"
  "forget_frame (f\<lparr>at_final := d\<rparr>) = (forget_frame f)\<lparr>void_at_final := d\<rparr>"
  "forget_frame (new_frame b) = new_void_frame b"
  "forget_frame (return_value u f) = return_void (forget_frame f)"
  "forget_frame (unhandled_exception e f) = void_unhandled_exception e (forget_frame f)"
  "forget_frame (set_continuation k f) = void_set_continuation k (forget_frame f)"
  by (simp_all add: forget_frame_def frame_defs new_void_frame_def return_void_def
      void_unhandled_exception_def void_set_continuation_def)

lemma forget_frame_sel [forgets]:
  "void_body (forget_frame f) = body f"
  "void_awaiting (forget_frame f) = awaiting f"
  "void_at_final (forget_frame f) = at_final f"
  "void_exception (forget_frame f) = exception f"
  "void_continuation (forget_frame f) = continuation f"
  by (simp_all add: forget_frame_def)

lemma forget_sel [forgets]:
  "void_heap (forget m) = forget_heap (heap m)"
  "void_next_addr (forget m) = next_addr m"
  "void_control (forget m) = control m"
  "void_depth (forget m) = depth m"
  "void_parked (forget m) = parked m"
  by (simp_all add: forget_def)

lemma forget_handle_done [forgets]: "void_handle_done (forget_heap H) h = handle_done H h"
  by (simp add: void_handle_done_def handle_done_def forgets split: option.split)

text \<open>The operations of a task object are those of \<open>Task<T>\<close>.\<close>

lemma forget_task [forgets]:
  "void_task_done (forget_heap H) t = task_done H t"
  "void_await_ready (forget_heap H) t = await_ready H t"
  "void_task_exception (forget_heap H) t = task_exception H t"
  "void_task_move t = task_move t"
  "void_task_destroy (forget_heap H) t = apfst forget_heap (task_destroy H t)"
  by (simp_all add: void_task_done_def task_done_def void_await_ready_def await_ready_def
      void_task_exception_def task_exception_def void_task_move_def task_move_def
      void_task_destroy_def task_destroy_def forgets split: option.split)

lemma forget_task_assign [forgets]:
  "void_task_move_assign same (forget_heap H) self other
     = apfst forget_heap (task_move_assign same H self other)"
  by (simp add: void_task_move_assign_def task_move_assign_def forgets split: prod.split)

lemma forget_await_resume:
  "await_resume g = Some r \<Longrightarrow> void_await_resume (forget_frame g) = r"
  by (auto simp: await_resume_def void_await_resume_def forgets split: option.splits)

lemma forget_final_suspend [forgets]:
  "forget (final_suspend h f m) = void_final_suspend h (forget_frame f) (forget m)"
  by (simp add: final_suspend_def void_final_suspend_def forget_def forgets Let_def
      split: option.split)

lemma forget_co_await [forgets]:
  "forget (co_await_new h f inner rest m) = void_co_await_new h (forget_frame f) inner rest (forget m)"
  by (simp add: co_await_new_def void_co_await_new_def forget_def forgets Let_def)

lemma forget_run_body [forgets]:
  "forget (run_body B h f x m) = void_run_body B h (forget_frame f) x (forget m)"
proof (cases "B (body f) x")
  case (Co_suspend rest)
  then show ?thesis by (simp add: run_body_def void_run_body_def forget_def forgets)
qed (simp_all add: run_body_def void_run_body_def forgets)

lemma forget_finish_await:
  assumes "finish_await h f m = Some m'"
  shows "void_finish_await h (forget_frame f) (forget m) = Some (forget m')"
proof -
  from assms obtain i g r where i: "awaiting f = Some i" and g: "heap m i = Some g"
    and r: "await_resume g = Some r"
    and m': "m' = m\<lparr>heap := fst (task_destroy ((heap m)(h \<mapsto> f\<lparr>awaiting := None\<rparr>)) (Some i)),
                    control := Some (h, Resumed r)\<rparr>"
    by (auto simp: finish_await_def split: option.splits)
  from forget_await_resume [OF r] show ?thesis
    by (simp add: void_finish_await_def i g forgets m' forget_def task_destroy_def void_task_destroy_def)
qed

lemma forget_step:
  assumes "step B m = Some m'"
  shows "void_step B (forget m) = Some (forget m')"
proof -
  from assms obtain h inp f where "control m = Some (h, inp)" and "heap m h = Some f"
    by (auto simp: step_def split: option.splits)
  with assms show ?thesis
    by (cases inp) (auto simp: step_def void_step_def forgets forget_finish_await)
qed

lemma forget_feed [forgets]: "void_feed r (forget m) = map_option forget (feed r m)"
  by (simp add: void_feed_def feed_def forgets forget_def split: option.split)

lemma forget_start [forgets]: "forget (start_machine b) = void_start_machine b"
  by (auto simp: start_machine_def void_start_machine_def void_task_resume_def forget_def forget_heap_def
      void_handle_done_def new_void_frame_def forget_frame_def new_frame_def fun_eq_iff)

text \<open>Conversely a step of \<open>Task<void>\<close> from a sound machine is one of \<open>Task<T>\<close>.\<close>

lemma step_forget:
  assumes "machine_ok m" and "void_step B (forget m) = Some w"
  shows "\<exists>m'. step B m = Some m' \<and> machine_ok m' \<and> forget m' = w"
proof -
  from assms(2) obtain c where "control m = Some c"
    by (auto simp: void_step_def forgets split: option.splits)
  from step_ok [OF assms(1) this] obtain m' where m': "step B m = Some m'" "machine_ok m'" by blast
  with forget_step [OF m'(1)] assms(2) show ?thesis by simp
qed

lemma forget_exec: "exec B m es n fs \<Longrightarrow> void_exec B (forget m) es (forget n) fs"
proof (induction rule: exec.induct)
  case (exec_feed r m m' es n fs)
  then show ?case by (auto intro: void_exec_feed simp: forgets)
qed (auto intro: void_exec_refl void_exec_step dest: forget_step)

lemma exec_forget:
  assumes "void_exec B w es v fs" and "w = forget m" and "machine_ok m"
  shows "\<exists>n. exec B m es n fs \<and> forget n = v"
  using assms
proof (induction arbitrary: m rule: void_exec.induct)
  case (void_exec_refl w es)
  then show ?case by (auto intro: exec_refl)
next
  case (void_exec_step w w' es v fs)
  then obtain m' where "step B m = Some m'" "machine_ok m'" "forget m' = w'"
    using step_forget by blast
  with void_exec_step.IH [of m'] show ?case by (auto intro: exec_step)
next
  case (void_exec_feed r w w' es v fs)
  then obtain m' where m': "feed r m = Some m'" "forget m' = w'"
    by (auto simp: forgets)
  with feed_ok [OF void_exec_feed.prems(2) m'(1)] void_exec_feed.IH [of m']
  show ?case by (auto intro: exec_feed)
qed

text \<open>
  C3. The two versions of the class agree. \<open>Task<void>\<close>, written out a second time in
  the source with its own promise and awaiter, runs every coroutine program, with the same
  results of outside awaiters, through exactly the states \<open>Task<T>\<close> goes through, less the
  stored value: resume points, continuations, exceptions, which coroutine has control, the
  number of active native calls and the frames that are alive.
\<close>

theorem void_task_same_runs:
  "void_exec B (void_start_machine b) es v fs
     \<longleftrightarrow> (\<exists>n. exec B (start_machine b) es n fs \<and> v = forget n)"
proof
  assume "void_exec B (void_start_machine b) es v fs"
  from exec_forget [OF this forget_start [symmetric] start_machine_ok]
  show "\<exists>n. exec B (start_machine b) es n fs \<and> v = forget n" by blast
next
  assume "\<exists>n. exec B (start_machine b) es n fs \<and> v = forget n"
  then show "void_exec B (void_start_machine b) es v fs"
    using forget_exec [of B "start_machine b"] by (auto simp: forgets)
qed

text \<open>
  In particular a \<open>co_await\<close> of a \<open>Task<void>\<close> ends as the call it stands for: only the
  outermost frame is left, and its awaiter returns or rethrows what the body's run gives.
\<close>

lemma void_co_await_is_call:
  assumes "eval B b None es r fs"
  shows "\<exists>v g. void_exec B (void_start_machine b) es v fs \<and> void_heap v = [0 \<mapsto> g]
           \<and> void_at_final g \<and> void_await_resume g = r \<and> void_control v = None"
proof -
  from eval_exec [OF assms start_in_control] obtain n g where e: "exec B (start_machine b) es n fs"
    and c: "completed (start_machine b) 0 (new_frame b) r n g" by (auto simp: new_frame_def)
  have "heap n = [0 \<mapsto> g]" using c by (simp add: completed_def start_machine_def)
  then have "void_heap (forget n) = [0 \<mapsto> forget_frame g]"
    by (auto simp: forgets forget_heap_def)
  moreover have "at_final g" "control n = None" "await_resume g = Some r"
    using c by (simp_all add: completed_def new_frame_def)
  ultimately show ?thesis
    using forget_exec [OF e, unfolded forget_start] forget_await_resume [of g r]
    by (intro exI [of _ "forget n"] exI [of _ "forget_frame g"]) (simp add: forgets)
qed

end
