(* ===== verification/Sys_Io.thy ===== *)
theory Sys_Io
  imports Coro_Prelude
begin

text \<open>
  The environment of a socket coroutine and the contract its system call loops share.

  A body such as \<open>TcpSocket::async_read\<close> is a loop; one iteration makes one non-blocking
  system call and, when the call would block, awaits readiness on the event loop. What one
  iteration gets from outside is a \<^emph>\<open>turn\<close>: the answer of the system call and, should the
  iteration await, how that await ends. The kernel and the peers are not code of the
  program, so a run takes any list of turns, and the properties quantify over all of them.
  When the list is used up, the coroutine is pending. The calls made are recorded in order.
\<close>

section \<open>Turns and calls\<close>

text \<open>
  \<open>ret t\<close> is what the system call returns: \<open>Inl e\<close> for the result \<open>-1\<close> with
  \<open>errno = e\<close>, \<open>Inr x\<close> for success. \<open>wake t\<close> is used when the iteration awaits:
  \<open>None\<close> when the coroutine is resumed, \<open>Some ex\<close> when registering the interest throws
  \<open>ex\<close> out of the \<open>co_await\<close> expression.
\<close>

record 'a turn =
  ret :: "int + 'a"
  wake :: "exn option"

datatype direction = Readable | Writable

text \<open>Directions are ordered as the loop serves them, the reader first.\<close>

instantiation direction :: linorder
begin

definition less_eq_direction :: "direction \<Rightarrow> direction \<Rightarrow> bool" where
  "less_eq_direction a b \<longleftrightarrow> a = Readable \<or> b = Writable"

definition less_direction :: "direction \<Rightarrow> direction \<Rightarrow> bool" where
  "less_direction a b \<longleftrightarrow> a = Readable \<and> b = Writable"

instance
proof
  fix a b c :: direction
  show "a \<le> a" "a \<le> b \<or> b \<le> a" "a < b \<longleftrightarrow> a \<le> b \<and> \<not> b \<le> a"
    by (cases a; cases b; simp add: less_eq_direction_def less_direction_def)+
  show "a \<le> b \<Longrightarrow> b \<le> c \<Longrightarrow> a \<le> c" "a \<le> b \<Longrightarrow> b \<le> a \<Longrightarrow> a = b"
    by (cases a; cases b; cases c; simp add: less_eq_direction_def)+
qed

end

lemma direction_order [simp]: "Readable \<le> d" "d \<le> Writable" "Readable < Writable" "\<not> Writable \<le> Readable"
  by (simp_all add: less_eq_direction_def less_direction_def)

datatype io =
    Recv fd nat                 \<comment> \<open>\<open>recv(fd, _, size, 0)\<close>\<close>
  | Send fd nat nat             \<comment> \<open>\<open>send(fd, buffer + offset, size, _)\<close>\<close>
  | Accept fd                   \<comment> \<open>\<open>accept4(fd, _, _, _)\<close>\<close>
  | Recvfrom fd nat             \<comment> \<open>\<open>recvfrom(fd, _, size, 0, _, _)\<close>\<close>
  | Sendto fd nat               \<comment> \<open>\<open>sendto(fd, _, size, 0, _, _)\<close>\<close>
  | Await fd direction bool     \<comment> \<open>\<open>co_await\<close> on readiness; the flag is edge-triggered\<close>
  | Sys_socket
  | Sys_setsockopt fd string
  | Sys_bind fd nat
  | Sys_listen fd int
  | Sys_connect fd "32 word" nat  \<comment> \<open>address and port in network order\<close>
  | Sys_getsockopt fd
  | Sys_fcntl fd string int     \<comment> \<open>\<open>fcntl(fd, command, argument)\<close>\<close>
  | Sys_close fd
  | Loop_remove fd              \<comment> \<open>\<open>EventLoop::remove(fd)\<close>\<close>

type_synonym ('a, 'b) run = "'b outcome \<times> 'a turn list \<times> io list"

definition emit :: "io list \<Rightarrow> ('a, 'b) run \<Rightarrow> ('a, 'b) run" where
  "emit pre r = (case r of (out, ts, tr) \<Rightarrow> (out, ts, pre @ tr))"

lemma emit_simps [simp]:
  "emit pre (out, ts, tr) = (out, ts, pre @ tr)"
  "fst (emit pre r) = fst r"
  "fst (snd (emit pre r)) = fst (snd r)"
  "snd (snd (emit pre r)) = pre @ snd (snd r)"
  "emit [] r = r"
  "emit p (emit q r) = emit (p @ q) r"
  by (cases r; simp add: emit_def)+

section \<open>How a turn is classified\<close>

text \<open>The test \<open>errno == EAGAIN || errno == EWOULDBLOCK\<close> of every loop.\<close>

definition would_block :: "int \<Rightarrow> bool" where
  "would_block e \<longleftrightarrow> e = EAGAIN \<or> e = EWOULDBLOCK"

text \<open>A turn after which a loop goes round again, and the calls such an iteration makes.\<close>

definition retries :: "'a turn \<Rightarrow> bool" where
  "retries t = (case ret t of
      Inl e \<Rightarrow> e = EINTR \<or> (would_block e \<and> wake t = None)
    | Inr _ \<Rightarrow> False)"

definition interrupted :: "'a turn \<Rightarrow> bool" where
  "interrupted t \<longleftrightarrow> ret t = Inl EINTR"

definition blocks :: "'a turn \<Rightarrow> bool" where
  "blocks t = (case ret t of Inl e \<Rightarrow> would_block e | Inr _ \<Rightarrow> False)"

definition turn_calls :: "io \<Rightarrow> io \<Rightarrow> 'a turn \<Rightarrow> io list" where
  "turn_calls call wait t = (if blocks t then [call, wait] else [call])"

text \<open>What a turn that ends the loop makes of it.\<close>

definition verdict :: "string \<Rightarrow> ('a \<Rightarrow> 'b) \<Rightarrow> 'a turn \<Rightarrow> 'b outcome" where
  "verdict name result t = (case ret t of
      Inr x \<Rightarrow> Returned (result x)
    | Inl e \<Rightarrow> (if would_block e
                then (case wake t of Some ex \<Rightarrow> Threw ex | None \<Rightarrow> Pending)
                else Threw (System_error e name)))"

lemma interrupted_retries: "interrupted t \<Longrightarrow> retries t"
  by (simp add: interrupted_def retries_def)

lemma interrupted_not_blocks: "interrupted t \<Longrightarrow> \<not> blocks t"
  by (simp add: interrupted_def blocks_def would_block_def)

lemma verdict_not_pending: "\<not> retries t \<Longrightarrow> verdict name result t \<noteq> Pending"
  by (auto simp: verdict_def retries_def split: sum.splits option.splits)

lemma verdict_Returned:
  "verdict name result t = Returned y \<longleftrightarrow> (\<exists>x. ret t = Inr x \<and> y = result x)"
  by (auto simp: verdict_def split: sum.splits option.splits if_splits)

section \<open>What a trace closes\<close>

text \<open>The descriptors that a list of calls closes, in order.\<close>

fun closes :: "io \<Rightarrow> fd list" where
  "closes (Sys_close fd) = [fd]"
| "closes _ = []"

definition closed :: "io list \<Rightarrow> fd list" where
  "closed tr = concat (map closes tr)"

lemma closed_simps [simp]:
  "closed [] = []" "closed (c # tr) = closes c @ closed tr" "closed (tr @ tr') = closed tr @ closed tr'"
  by (simp_all add: closed_def)

text \<open>The bytes, descriptors or counts that the kernel handed over in a list of turns.\<close>

definition answers :: "'a turn list \<Rightarrow> 'a list" where
  "answers ts = concat (map (\<lambda>t. case ret t of Inr x \<Rightarrow> [x] | Inl _ \<Rightarrow> []) ts)"

lemma answers_simps [simp]:
  "answers [] = []"
  "answers (t # ts) = (case ret t of Inr x \<Rightarrow> x # answers ts | Inl _ \<Rightarrow> answers ts)"
  "answers (ts @ us) = answers ts @ answers us"
  by (simp_all add: answers_def split: sum.split)

lemma answers_retries: "list_all retries ts \<Longrightarrow> answers ts = []"
  by (induction ts) (auto simp: retries_def split: sum.splits)

section \<open>The contract of a system call loop\<close>

text \<open>
  Several operations share one shape: make the call; on success return; on \<open>EINTR\<close> go
  round; on \<open>EAGAIN\<close> await readiness and go round; on any other error throw
  \<open>std::system_error\<close>. The locale states that shape as the two unfolding laws and
  derives, once, what the callers of such an operation rely on.
\<close>

locale retry_loop =
  fixes run :: "'a turn list \<Rightarrow> ('a, 'b) run"
    and call :: io and wait :: io and name :: string and result :: "'a \<Rightarrow> 'b"
  assumes run_Nil: "run [] = (Pending, [], [])"
    and run_Cons: "run (t # ts) =
      (if retries t then emit (turn_calls call wait t) (run ts)
       else (verdict name result t, ts, turn_calls call wait t))"
begin

lemma run_retry: "retries t \<Longrightarrow> run (t # ts) = emit (turn_calls call wait t) (run ts)"
  by (simp add: run_Cons)

lemma run_stop:
  "\<not> retries t \<Longrightarrow> run (t # ts) = (verdict name result t, ts, turn_calls call wait t)"
  by (simp add: run_Cons)

lemma run_skip:
  "list_all retries pre \<Longrightarrow>
     run (pre @ ts) = emit (concat (map (turn_calls call wait) pre)) (run ts)"
  by (induction pre) (auto simp: run_retry)

lemma run_spec:
  "run ts =
     (let pre = takeWhile retries ts; trace = concat (map (turn_calls call wait) pre)
      in case dropWhile retries ts of
           [] \<Rightarrow> (Pending, [], trace)
         | t # rest \<Rightarrow> (verdict name result t, rest, trace @ turn_calls call wait t))"
proof -
  let ?pre = "takeWhile retries ts"
  have split: "run ts = emit (concat (map (turn_calls call wait) ?pre)) (run (dropWhile retries ts))"
    using run_skip [of ?pre "dropWhile retries ts"] by simp
  show ?thesis
  proof (cases "dropWhile retries ts")
    case Nil
    then show ?thesis using split by (simp only: run_Nil Let_def list.case emit_simps) simp
  next
    case (Cons t rest)
    then have "\<not> retries t" by (rule dropWhile_ConsD)
    then show ?thesis using split Cons by (simp add: run_stop Let_def)
  qed
qed

lemma outcome_spec:
  "fst (run ts) = (case dropWhile retries ts of [] \<Rightarrow> Pending | t # _ \<Rightarrow> verdict name result t)"
  by (simp add: run_spec Let_def split: list.split)

lemma pending_iff: "fst (run ts) = Pending \<longleftrightarrow> list_all retries ts"
proof (cases "dropWhile retries ts")
  case Nil
  then have "list_all retries ts" by (simp only: dropWhile_Nil_iff)
  then show ?thesis using Nil by (simp add: outcome_spec)
next
  case (Cons t rest)
  then have "\<not> retries t" by (rule dropWhile_ConsD)
  moreover have "\<not> list_all retries ts"
    using Cons by (simp only: flip: dropWhile_Nil_iff) simp
  ultimately show ?thesis using Cons by (simp add: outcome_spec verdict_not_pending)
qed

lemma returned_iff:
  "fst (run ts) = Returned y \<longleftrightarrow>
     (\<exists>pre t post x. ts = pre @ t # post \<and> list_all retries pre \<and> ret t = Inr x \<and> y = result x)"
proof
  assume ret: "fst (run ts) = Returned y"
  then obtain t rest where d: "dropWhile retries ts = t # rest"
    by (cases "dropWhile retries ts") (auto simp: outcome_spec)
  with ret obtain x where "ret t = Inr x" "y = result x"
    by (auto simp: outcome_spec verdict_Returned)
  moreover have "ts = takeWhile retries ts @ t # rest" using d by (rule dropWhile_split)
  moreover have "list_all retries (takeWhile retries ts)" by simp
  ultimately show "\<exists>pre t post x. ts = pre @ t # post \<and> list_all retries pre \<and> ret t = Inr x \<and> y = result x"
    by blast
next
  assume "\<exists>pre t post x. ts = pre @ t # post \<and> list_all retries pre \<and> ret t = Inr x \<and> y = result x"
  then obtain pre t post x
    where ts: "ts = pre @ t # post" "list_all retries pre" "ret t = Inr x" "y = result x"
    by blast
  have "\<not> retries t" using ts(3) by (simp add: retries_def)
  with ts show "fst (run ts) = Returned y"
    by (simp add: run_skip run_stop verdict_Returned)
qed

lemma remaining_shorter: "fst (run ts) \<noteq> Pending \<Longrightarrow> length (fst (snd (run ts))) < length ts"
proof (induction ts)
  case Nil
  then show ?case by (simp add: run_Nil)
next
  case (Cons t ts)
  then show ?case by (cases "retries t") (auto simp: run_retry run_stop)
qed

lemma run_suffix: "\<exists>used. ts = used @ fst (snd (run ts))"
proof (induction ts)
  case Nil
  then show ?case by (simp add: run_Nil)
next
  case (Cons t ts)
  then obtain used where "ts = used @ fst (snd (run ts))" ..
  then show ?case
    by (cases "retries t") (auto simp: run_retry run_stop intro: exI [of _ "t # used"] exI [of _ "[t]"])
qed

lemma returned_used:
  assumes "run ts = (Returned y, rest, tr)"
  shows "\<exists>pre t x. ts = pre @ t # rest \<and> list_all retries pre \<and> ret t = Inr x \<and> y = result x
    \<and> answers (pre @ [t]) = [x]"
proof -
  have "fst (run ts) = Returned y" using assms by simp
  then obtain t u where d: "dropWhile retries ts = t # u"
    by (cases "dropWhile retries ts") (auto simp: outcome_spec)
  have "run ts = (verdict name result t, u, concat (map (turn_calls call wait) (takeWhile retries ts))
      @ turn_calls call wait t)" by (simp add: run_spec Let_def d)
  with assms have v: "verdict name result t = Returned y" and u: "u = rest" by auto
  from v obtain x where x: "ret t = Inr x" "y = result x" by (auto simp: verdict_Returned)
  have "ts = takeWhile retries ts @ t # rest" using d u by (metis dropWhile_split)
  moreover have "answers (takeWhile retries ts @ [t]) = [x]" using x by (simp add: answers_retries)
  ultimately show ?thesis using x by (metis list_all_takeWhile)
qed

lemma interrupted_transparent: "fst (run (filter (\<lambda>t. \<not> interrupted t) ts)) = fst (run ts)"
  by (induction ts) (auto simp: run_Cons interrupted_retries)

lemma awaits_eq_blocks:
  assumes "call \<noteq> wait" and "list_all retries pre"
  shows "count_list (snd (snd (run (pre @ ts)))) wait =
     length (filter blocks pre) + count_list (snd (snd (run ts))) wait"
  using assms(2)
proof (induction pre)
  case Nil
  then show ?case by simp
next
  case (Cons t pre)
  then show ?case using assms(1) by (auto simp: run_retry turn_calls_def)
qed

end

text \<open>
  The loops are written with the tests of the code, in its order. These rules bring one
  iteration into the form the locale asks for.
\<close>

lemma would_block_not_EINTR [simp]: "would_block EAGAIN" "\<not> would_block EINTR"
  by (simp_all add: would_block_def)

lemma retry_turn_cases:
  "(case ret t of
      Inr x \<Rightarrow> (Returned (result x), ts, [call])
    | Inl e \<Rightarrow>
        (if e = EINTR then emit [call] rest
         else if would_block e then
           (case wake t of None \<Rightarrow> emit [call, wait] rest | Some ex \<Rightarrow> (Threw ex, ts, [call, wait]))
         else (Threw (System_error e name), ts, [call]))) =
   (if retries t then emit (turn_calls call wait t) rest
    else (verdict name result t, ts, turn_calls call wait t))"
  by (auto simp: retries_def turn_calls_def verdict_def blocks_def split: sum.split option.split)

end
