(* ===== verification/Event_Loop.thy ===== *)
theory Event_Loop
  imports Coro_Task Sys_Io
begin

unbundle bit_operations_syntax

text \<open>
  \<open>include/coro_epoll/event_loop.hpp\<close>, the Linux branch: the reactor \<open>EventLoop\<close>.

  The state is the record \<open>event_loop\<close>; it is extensible, so that a client adds what its
  coroutines work on. What the loop calls and does not define itself is gathered in a
  \<open>host\<close>: the kernel (\<open>epoll_ctl\<close>, the eventfd), the coroutine runtime (resume, done and
  destroy a handle) and the bodies of posted callbacks. Callbacks are data here, of any type
  \<open>'c\<close>, and \<open>invoke\<close> says what calling one does. An exception that leaves an operation
  is the first component of its result; the state that is left is the second.
\<close>

section \<open>State\<close>

abbreviation EPOLLIN :: "32 word" where "EPOLLIN \<equiv> 0x1"
abbreviation EPOLLOUT :: "32 word" where "EPOLLOUT \<equiv> 0x4"
abbreviation EPOLLERR :: "32 word" where "EPOLLERR \<equiv> 0x8"
abbreviation EPOLLHUP :: "32 word" where "EPOLLHUP \<equiv> 0x10"
abbreviation EPOLLRDHUP :: "32 word" where "EPOLLRDHUP \<equiv> 0x2000"
abbreviation EPOLLET :: "32 word" where "EPOLLET \<equiv> 0x80000000"

record fd_state =
  read_handle :: "handle option"
  write_handle :: "handle option"
  edge_trigger :: bool

definition fd_state_init :: fd_state where
  "fd_state_init = \<lparr>read_handle = None, write_handle = None, edge_trigger = False\<rparr>"

record epoll_event =
  ev_events :: "32 word"
  ev_fd :: fd

datatype ctl_op = CTL_ADD | CTL_MOD | CTL_DEL

record ('c, 'k) event_loop =
  epoll_fd :: fd
  wakeup_fd :: fd
  stopped :: bool
  states :: "fd \<Rightarrow> fd_state option"
  tasks :: "task list"
  pending :: "'c list"
  kern :: 'k
  cerr :: "(string \<times> exn) list"

text \<open>
  \<open>ctl op fd events k\<close> is \<open>epoll_ctl\<close> in kernel state \<open>k\<close>: \<open>None\<close> for success, \<open>Some e\<close>
  for \<open>-1\<close> with \<open>errno = e\<close>, and the kernel state after it. \<open>signal\<close> is the effect of the
  loop in \<open>wakeup\<close> on the eventfd, \<open>unsignal\<close> that of the loop in \<open>drain_wakeup_fd\<close>.
\<close>

record ('s, 'c, 'k) host =
  ctl :: "ctl_op \<Rightarrow> fd \<Rightarrow> 32 word \<Rightarrow> 'k \<Rightarrow> int option \<times> 'k"
  signal :: "'k \<Rightarrow> 'k"
  unsignal :: "'k \<Rightarrow> 'k"
  resume_handle :: "handle \<Rightarrow> 's \<Rightarrow> 's"
  done_handle :: "'s \<Rightarrow> handle \<Rightarrow> bool"
  failure_of :: "'s \<Rightarrow> handle \<Rightarrow> exn option"
  destroy_handle :: "handle \<Rightarrow> 's \<Rightarrow> 's"
  invoke :: "'c \<Rightarrow> 's \<Rightarrow> exn option \<times> 's"

type_synonym ('c, 'k, 'z) loop_host = "(('c, 'k, 'z) event_loop_scheme, 'c, 'k) host"
type_synonym ('c, 'k, 'z) loop_result = "exn option \<times> ('c, 'k, 'z) event_loop_scheme"

section \<open>Construction and destruction\<close>

text \<open>
  The constructor, from the results of \<open>epoll_create1\<close> and \<open>eventfd\<close> (\<open>Inl errno\<close> or the
  descriptor); \<open>add_wakeup_fd\<close> registers the eventfd for input. With the outcome come the
  descriptors that were closed on the way, in order.
\<close>

definition add_wakeup_fd ::
    "('c, 'k, 'z) loop_host \<Rightarrow> ('c, 'k, 'z) event_loop_scheme \<Rightarrow> ('c, 'k, 'z) loop_result" where
  "add_wakeup_fd H L = (case ctl H CTL_ADD (wakeup_fd L) EPOLLIN (kern L) of
      (Some e, k) \<Rightarrow> (Some (System_error e ''epoll_ctl wakeup fd''), L\<lparr>kern := k\<rparr>)
    | (None, k) \<Rightarrow> (None, L\<lparr>kern := k\<rparr>))"

definition event_loop_new ::
    "('c, 'k, unit) loop_host \<Rightarrow> int + fd \<Rightarrow> int + fd \<Rightarrow> 'k \<Rightarrow> (exn + ('c, 'k) event_loop) \<times> fd list" where
  "event_loop_new H epoll_created event_created k = (case epoll_created of
      Inl e \<Rightarrow> (Inl (System_error e ''epoll_create1''), [])
    | Inr ep \<Rightarrow> (case event_created of
          Inl e \<Rightarrow> (Inl (System_error e ''eventfd''), [ep])
        | Inr ev \<Rightarrow>
            (case add_wakeup_fd H \<lparr>epoll_fd = ep, wakeup_fd = ev, stopped = False, states = Map.empty,
                                   tasks = [], pending = [], kern = k, cerr = []\<rparr> of
               (Some e, _) \<Rightarrow> (Inl e, [ev, ep])
             | (None, L) \<Rightarrow> (Inr L, []))))"

text \<open>The destructor: the descriptors it closes.\<close>

definition event_loop_delete :: "('c, 'k, 'z) event_loop_scheme \<Rightarrow> fd list" where
  "event_loop_delete L =
     (if 0 \<le> wakeup_fd L then [wakeup_fd L] else []) @ (if 0 \<le> epoll_fd L then [epoll_fd L] else [])"

section \<open>Readiness interests\<close>

definition active_events :: "fd_state \<Rightarrow> 32 word" where
  "active_events st =
     (let events = (if read_handle st \<noteq> None then EPOLLIN else 0)
                     OR (if write_handle st \<noteq> None then EPOLLOUT else 0)
      in if events = EPOLLRDHUP then 0 else events)"

definition update_or_remove_impl ::
    "('c, 'k, 'z) loop_host \<Rightarrow> fd \<Rightarrow> fd_state \<Rightarrow> bool
       \<Rightarrow> ('c, 'k, 'z) event_loop_scheme \<Rightarrow> ('c, 'k, 'z) loop_result" where
  "update_or_remove_impl H fd st et L =
     (let events = active_events st
      in if events = 0 then
           (None, L\<lparr>states := (states L)(fd := None), kern := snd (ctl H CTL_DEL fd 0 (kern L))\<rparr>)
         else
           (case ctl H CTL_MOD fd (events OR (if et then EPOLLET else 0)) (kern L) of
              (Some e, k) \<Rightarrow> (if e \<noteq> EBADF \<and> e \<noteq> ENOENT
                              then (Some (System_error e ''epoll_ctl mod''), L\<lparr>kern := k\<rparr>)
                              else (None, L\<lparr>kern := k\<rparr>))
            | (None, k) \<Rightarrow> (None, L\<lparr>kern := k\<rparr>)))"

definition update_or_remove ::
    "('c, 'k, 'z) loop_host \<Rightarrow> fd \<Rightarrow> fd_state
       \<Rightarrow> ('c, 'k, 'z) event_loop_scheme \<Rightarrow> ('c, 'k, 'z) loop_result" where
  "update_or_remove H fd st L = update_or_remove_impl H fd st (edge_trigger st) L"

text \<open>
  \<open>try_emplace\<close> leaves an existing entry alone; the entry is written even when the event is
  not supported and the operation throws. A failing \<open>epoll_ctl\<close> erases the entry.
\<close>

definition add_interest_impl ::
    "('c, 'k, 'z) loop_host \<Rightarrow> fd \<Rightarrow> 32 word \<Rightarrow> handle \<Rightarrow> bool
       \<Rightarrow> ('c, 'k, 'z) event_loop_scheme \<Rightarrow> ('c, 'k, 'z) loop_result" where
  "add_interest_impl H fd event h et L =
     (if fd < 0 then
        (Some (Invalid_argument ''cannot wait on an invalid file descriptor''), L)
      else
        let inserted = (states L fd = None);
            st = (case states L fd of None \<Rightarrow> fd_state_init | Some st \<Rightarrow> st);
            L1 = L\<lparr>states := (states L)(fd \<mapsto> st)\<rparr>
        in if event \<noteq> EPOLLIN \<and> event \<noteq> EPOLLOUT then
             (Some (Invalid_argument ''unsupported epoll event interest''), L1)
           else
             let st1 = (if event = EPOLLIN then st\<lparr>read_handle := Some h\<rparr>
                        else st\<lparr>write_handle := Some h\<rparr>);
                 events = (EPOLLIN OR EPOLLOUT) OR (if et then EPOLLET else 0);
                 operation = (if inserted then CTL_ADD else CTL_MOD)
             in (case ctl H operation fd events (kern L) of
                   (Some e, k) \<Rightarrow>
                     (Some (System_error e ''epoll_ctl''),
                      L1\<lparr>states := (states L)(fd := None), kern := k\<rparr>)
                 | (None, k) \<Rightarrow>
                     (None, L1\<lparr>states := (states L)(fd \<mapsto> st1\<lparr>edge_trigger := et\<rparr>), kern := k\<rparr>)))"

definition add_interest where
  "add_interest H fd event h L = add_interest_impl H fd event h False L"

definition add_interest_et where
  "add_interest_et H fd event h L = add_interest_impl H fd event h True L"

text \<open>
  \<open>ReadinessAwaiter\<close>: the file descriptor, the event and the trigger mode that
  \<open>readable\<close>, \<open>writable\<close>, \<open>readable_et\<close> and \<open>writable_et\<close> put into it.
\<close>

record readiness_awaiter =
  aw_fd :: fd
  aw_edge :: bool
  aw_event :: "32 word"

definition readable :: "fd \<Rightarrow> readiness_awaiter" where
  "readable fd = \<lparr>aw_fd = fd, aw_edge = False, aw_event = EPOLLIN\<rparr>"
definition writable :: "fd \<Rightarrow> readiness_awaiter" where
  "writable fd = \<lparr>aw_fd = fd, aw_edge = False, aw_event = EPOLLOUT\<rparr>"
definition readable_et :: "fd \<Rightarrow> readiness_awaiter" where
  "readable_et fd = \<lparr>aw_fd = fd, aw_edge = True, aw_event = EPOLLIN\<rparr>"
definition writable_et :: "fd \<Rightarrow> readiness_awaiter" where
  "writable_et fd = \<lparr>aw_fd = fd, aw_edge = True, aw_event = EPOLLOUT\<rparr>"

definition await_suspend_ready ::
    "('c, 'k, 'z) loop_host \<Rightarrow> readiness_awaiter \<Rightarrow> handle
       \<Rightarrow> ('c, 'k, 'z) event_loop_scheme \<Rightarrow> ('c, 'k, 'z) loop_result" where
  "await_suspend_ready H a h L =
     (if aw_edge a then add_interest_et H (aw_fd a) (aw_event a) h L
      else add_interest H (aw_fd a) (aw_event a) h L)"

definition remove ::
    "('c, 'k, 'z) loop_host \<Rightarrow> fd \<Rightarrow> ('c, 'k, 'z) event_loop_scheme \<Rightarrow> ('c, 'k, 'z) event_loop_scheme" where
  "remove H fd L =
     (if fd < 0 then L
      else L\<lparr>states := (states L)(fd := None), kern := snd (ctl H CTL_DEL fd 0 (kern L))\<rparr>)"

text \<open>What a trace of a socket does to the table of the loop.\<close>

fun removes ::
    "('c, 'k, 'z) loop_host \<Rightarrow> io list \<Rightarrow> ('c, 'k, 'z) event_loop_scheme \<Rightarrow> ('c, 'k, 'z) event_loop_scheme" where
  "removes H [] L = L"
| "removes H (Loop_remove fd # tr) L = removes H tr (remove H fd L)"
| "removes H (_ # tr) L = removes H tr L"

section \<open>Tasks and callbacks\<close>

definition wakeup where
  "wakeup H L = (if wakeup_fd L < 0 then L else L\<lparr>kern := signal H (kern L)\<rparr>)"

definition drain_wakeup_fd where
  "drain_wakeup_fd H L = L\<lparr>kern := unsignal H (kern L)\<rparr>"

definition post ::
    "('c, 'k, 'z) loop_host \<Rightarrow> 'c \<Rightarrow> ('c, 'k, 'z) event_loop_scheme \<Rightarrow> ('c, 'k, 'z) event_loop_scheme" where
  "post H c L = wakeup H (L\<lparr>pending := pending L @ [c]\<rparr>)"

definition stop ::
    "('c, 'k, 'z) loop_host \<Rightarrow> ('c, 'k, 'z) event_loop_scheme \<Rightarrow> ('c, 'k, 'z) event_loop_scheme" where
  "stop H L = wakeup H (L\<lparr>stopped := True\<rparr>)"

definition task_is_done where
  "task_is_done H L t = (case t of None \<Rightarrow> True | Some h \<Rightarrow> done_handle H L h)"

definition task_failure where
  "task_failure H L t = (case t of
      None \<Rightarrow> None | Some h \<Rightarrow> (if done_handle H L h then failure_of H L h else None))"

definition task_resume where
  "task_resume H t L = (case t of
      None \<Rightarrow> L | Some h \<Rightarrow> (if done_handle H L h then L else resume_handle H h L))"

definition spawn ::
    "('c, 'k, 'z) loop_host \<Rightarrow> task \<Rightarrow> ('c, 'k, 'z) event_loop_scheme \<Rightarrow> ('c, 'k, 'z) event_loop_scheme" where
  "spawn H t L = task_resume H t (L\<lparr>tasks := tasks L @ [t]\<rparr>)"

text \<open>
  The queue is swapped with an empty one, so callbacks posted meanwhile wait for the next
  drain. An exception leaves the loop and the rest of the swapped queue is destroyed.
\<close>

fun run_local ::
    "('c, 'k, 'z) loop_host \<Rightarrow> 'c list \<Rightarrow> ('c, 'k, 'z) event_loop_scheme \<Rightarrow> ('c, 'k, 'z) loop_result" where
  "run_local H [] L = (None, L)"
| "run_local H (c # cs) L = (case invoke H c L of
      (Some e, L') \<Rightarrow> (Some e, L')
    | (None, L') \<Rightarrow> run_local H cs L')"

definition drain_pending_tasks ::
    "('c, 'k, 'z) loop_host \<Rightarrow> ('c, 'k, 'z) event_loop_scheme \<Rightarrow> ('c, 'k, 'z) loop_result" where
  "drain_pending_tasks H L = run_local H (pending L) (L\<lparr>pending := []\<rparr>)"

fun report_failures ::
    "('c, 'k, 'z) loop_host \<Rightarrow> task list \<Rightarrow> ('c, 'k, 'z) event_loop_scheme \<Rightarrow> ('c, 'k, 'z) loop_result" where
  "report_failures H [] L = (None, L)"
| "report_failures H (t # ts) L =
     (if task_is_done H L t then
        (case task_failure H L t of
           None \<Rightarrow> report_failures H ts L
         | Some e \<Rightarrow>
             (if std_exception e
              then report_failures H ts (L\<lparr>cerr := cerr L @ [(''unhandled coroutine exception: '', e)]\<rparr>)
              else (Some e, L)))
      else report_failures H ts L)"

text \<open>
  \<open>erase(remove_if(...))\<close>: the finished tasks leave the vector and their frames are
  destroyed, in the order of the vector.
\<close>

definition destroy_task where
  "destroy_task H t L = (case t of None \<Rightarrow> L | Some h \<Rightarrow> destroy_handle H h L)"

definition erase_finished ::
    "('c, 'k, 'z) loop_host \<Rightarrow> ('c, 'k, 'z) event_loop_scheme \<Rightarrow> ('c, 'k, 'z) event_loop_scheme" where
  "erase_finished H L =
     fold (destroy_task H) (filter (task_is_done H L) (tasks L))
       (L\<lparr>tasks := filter (\<lambda>t. \<not> task_is_done H L t) (tasks L)\<rparr>)"

definition compact_finished_tasks ::
    "('c, 'k, 'z) loop_host \<Rightarrow> ('c, 'k, 'z) event_loop_scheme \<Rightarrow> ('c, 'k, 'z) loop_result" where
  "compact_finished_tasks H L = (case report_failures H (tasks L) L of
      (Some e, L') \<Rightarrow> (Some e, L')
    | (None, L') \<Rightarrow> (None, erase_finished H L'))"

section \<open>Dispatching events\<close>

definition resume_opt where
  "resume_opt H h L = (case h of None \<Rightarrow> L | Some a \<Rightarrow> resume_handle H a L)"

definition has_error :: "32 word \<Rightarrow> bool" where
  "has_error events \<longleftrightarrow> events AND (EPOLLERR OR EPOLLHUP OR EPOLLRDHUP) \<noteq> 0"

definition wants_read :: "32 word \<Rightarrow> bool" where
  "wants_read events \<longleftrightarrow> events AND EPOLLIN \<noteq> 0 \<or> has_error events"

definition wants_write :: "32 word \<Rightarrow> bool" where
  "wants_write events \<longleftrightarrow> events AND EPOLLOUT \<noteq> 0 \<or> has_error events"

text \<open>
  The handles that an event readies are taken out of the entry first; they are resumed after
  the registration has been narrowed to what is left.
\<close>

definition dispatch_wakeup ::
    "('c, 'k, 'z) loop_host \<Rightarrow> ('c, 'k, 'z) event_loop_scheme \<Rightarrow> ('c, 'k, 'z) loop_result" where
  "dispatch_wakeup H L = (case drain_pending_tasks H (drain_wakeup_fd H L) of
      (Some e, L') \<Rightarrow> (Some e, L')
    | (None, L') \<Rightarrow> compact_finished_tasks H L')"

definition dispatch_fd ::
    "('c, 'k, 'z) loop_host \<Rightarrow> 32 word \<Rightarrow> fd \<Rightarrow> fd_state
       \<Rightarrow> ('c, 'k, 'z) event_loop_scheme \<Rightarrow> ('c, 'k, 'z) loop_result" where
  "dispatch_fd H events fd st L =
     (let r = (if wants_read events then read_handle st else None);
          w = (if wants_write events then write_handle st else None);
          st1 = (if wants_read events then st\<lparr>read_handle := None\<rparr> else st);
          st2 = (if wants_write events then st1\<lparr>write_handle := None\<rparr> else st1)
      in case update_or_remove H fd st2 (L\<lparr>states := (states L)(fd \<mapsto> st2)\<rparr>) of
           (Some e, L') \<Rightarrow> (Some e, L')
         | (None, L') \<Rightarrow> (None, resume_opt H w (resume_opt H r L')))"

definition dispatch ::
    "('c, 'k, 'z) loop_host \<Rightarrow> epoll_event \<Rightarrow> ('c, 'k, 'z) event_loop_scheme \<Rightarrow> ('c, 'k, 'z) loop_result" where
  "dispatch H ev L =
     (if ev_fd ev = wakeup_fd L then dispatch_wakeup H L
      else (case states L (ev_fd ev) of
          None \<Rightarrow> (None, L)
        | Some st \<Rightarrow> dispatch_fd H (ev_events ev) (ev_fd ev) st L))"

section \<open>The loop\<close>

text \<open>
  The body of the \<open>for\<close> loop over the events of one \<open>epoll_wait\<close>: every exception is logged,
  whatever its type. The part before \<open>epoll_wait\<close> catches standard exceptions only.
\<close>

fun dispatch_all ::
    "('c, 'k, 'z) loop_host \<Rightarrow> epoll_event list \<Rightarrow> ('c, 'k, 'z) event_loop_scheme
       \<Rightarrow> ('c, 'k, 'z) event_loop_scheme" where
  "dispatch_all H [] L = L"
| "dispatch_all H (ev # evs) L = (case dispatch H ev L of
      (None, L') \<Rightarrow> dispatch_all H evs L'
    | (Some e, L') \<Rightarrow>
        dispatch_all H evs (L'\<lparr>cerr := cerr L' @
          [(if std_exception e then ''event loop dispatch error: ''
            else ''event loop dispatch unknown error'', e)]\<rparr>))"

definition before_wait ::
    "('c, 'k, 'z) loop_host \<Rightarrow> ('c, 'k, 'z) event_loop_scheme \<Rightarrow> ('c, 'k, 'z) loop_result" where
  "before_wait H L =
     (let (e, L') = (case drain_pending_tasks H L of
            (Some e, L1) \<Rightarrow> (Some e, L1)
          | (None, L1) \<Rightarrow> compact_finished_tasks H L1)
      in case e of
           None \<Rightarrow> (None, L')
         | Some e \<Rightarrow> (if std_exception e
                     then (None, L'\<lparr>cerr := cerr L' @ [(''event loop task error: '', e)]\<rparr>)
                     else (Some e, L')))"

text \<open>
  \<open>run\<close> takes the answers of \<open>epoll_wait\<close>: an error number or the events it reports. It is
  \<open>Pending\<close> when it waits for an answer that is not in the list.
\<close>

fun run ::
    "('c, 'k, 'z) loop_host \<Rightarrow> (int + epoll_event list) list \<Rightarrow> ('c, 'k, 'z) event_loop_scheme
       \<Rightarrow> unit outcome \<times> ('c, 'k, 'z) event_loop_scheme" where
  "run H ws L =
     (if stopped L then (Returned (), L)
      else (case before_wait H L of
          (Some e, L1) \<Rightarrow> (Threw e, L1)
        | (None, L1) \<Rightarrow>
            (case ws of
               [] \<Rightarrow> (Pending, L1)
             | Inl errno # ws' \<Rightarrow>
                 (if errno = EINTR then run H ws' L1
                  else (Threw (System_error errno ''epoll_wait''), L1))
             | Inr evs # ws' \<Rightarrow> run H ws' (dispatch_all H evs L1))))"

declare run.simps [simp del]

lemmas loop_op_defs [loop_defs] =
  update_or_remove_def update_or_remove_impl_def add_interest_impl_def add_interest_def
  add_interest_et_def await_suspend_ready_def remove_def wakeup_def drain_wakeup_fd_def post_def
  stop_def spawn_def task_resume_def drain_pending_tasks_def compact_finished_tasks_def
  erase_finished_def dispatch_wakeup_def dispatch_fd_def dispatch_def before_wait_def resume_opt_def

section \<open>What the kernel promises\<close>

text \<open>
  The documented behaviour of \<open>epoll_ctl\<close> that the loop relies on, over \<open>interest k\<close>, the
  interest list of the loop's epoll instance: \<open>ADD\<close> fails for a registered descriptor
  (EEXIST), \<open>MOD\<close> reports ENOENT or EBADF only for one that is not registered, \<open>DEL\<close> leaves
  the descriptor unregistered, and a failing call changes nothing. The eventfd operations do
  not touch the list.
\<close>

definition epoll_laws ::
    "('s, 'c, 'k) host \<Rightarrow> ('k \<Rightarrow> fd \<Rightarrow> 32 word option) \<Rightarrow> bool" where
  "epoll_laws H interest \<longleftrightarrow>
     (\<forall>fd ev k k'. ctl H CTL_ADD fd ev k = (None, k') \<longrightarrow>
        interest k fd = None \<and> interest k' = (interest k)(fd \<mapsto> ev)) \<and>
     (\<forall>fd ev k e k'. ctl H CTL_ADD fd ev k = (Some e, k') \<longrightarrow> interest k' = interest k) \<and>
     (\<forall>fd ev k k'. ctl H CTL_MOD fd ev k = (None, k') \<longrightarrow> interest k' = (interest k)(fd \<mapsto> ev)) \<and>
     (\<forall>fd ev k e k'. ctl H CTL_MOD fd ev k = (Some e, k') \<longrightarrow>
        interest k' = interest k \<and> (e = ENOENT \<or> e = EBADF \<longrightarrow> interest k fd = None)) \<and>
     (\<forall>fd ev k. interest (snd (ctl H CTL_DEL fd ev k)) = (interest k)(fd := None)) \<and>
     (\<forall>k. interest (signal H k) = interest k \<and> interest (unsignal H k) = interest k)"

lemma epoll_lawsD:
  assumes "epoll_laws H interest"
  shows "ctl H CTL_ADD fd ev k = (None, k') \<Longrightarrow> interest k fd = None \<and> interest k' = (interest k)(fd \<mapsto> ev)"
    and "ctl H CTL_ADD fd ev k = (Some e, k') \<Longrightarrow> interest k' = interest k"
    and "ctl H CTL_MOD fd ev k = (None, k') \<Longrightarrow> interest k' = (interest k)(fd \<mapsto> ev)"
    and "ctl H CTL_MOD fd ev k = (Some e, k') \<Longrightarrow>
           interest k' = interest k \<and> (e = ENOENT \<or> e = EBADF \<longrightarrow> interest k fd = None)"
    and "interest (snd (ctl H CTL_DEL fd ev k)) = (interest k)(fd := None)"
    and "interest (signal H k) = interest k" and "interest (unsignal H k) = interest k"
  using assms by (auto simp: epoll_laws_def)

end
