(* ===== verification/Loop_Spec.thy ===== *)
theory Loop_Spec
  imports Event_Loop
begin

unbundle bit_operations_syntax

text \<open>
  What the event loop promises: the abstract view of its table of descriptors as the set of
  waiting coroutines, the invariant that ties that table to the interest list of the kernel,
  and the contract with the coroutines it resumes.
\<close>

section \<open>The waiting coroutines\<close>

fun event_of :: "direction \<Rightarrow> 32 word" where
  "event_of Readable = EPOLLIN"
| "event_of Writable = EPOLLOUT"

fun handle_for :: "direction \<Rightarrow> fd_state \<Rightarrow> handle option" where
  "handle_for Readable st = read_handle st"
| "handle_for Writable st = write_handle st"

fun wants :: "direction \<Rightarrow> 32 word \<Rightarrow> bool" where
  "wants Readable e = wants_read e"
| "wants Writable e = wants_write e"

lemma all_direction: "(\<forall>d. P d) \<longleftrightarrow> P Readable \<and> P Writable"
  by (metis direction.exhaust)

text \<open>Abstraction function: who waits on which descriptor in which direction.\<close>

definition waiting :: "('c, 'k, 'z) event_loop_scheme \<Rightarrow> fd \<Rightarrow> direction \<Rightarrow> handle option" where
  "waiting L fd d = (case states L fd of None \<Rightarrow> None | Some st \<Rightarrow> handle_for d st)"

lemma waiting_simps [simp]:
  "waiting (L\<lparr>kern := k\<rparr>) = waiting L" "waiting (L\<lparr>pending := p\<rparr>) = waiting L"
  "waiting (L\<lparr>stopped := b\<rparr>) = waiting L" "waiting (L\<lparr>tasks := ts\<rparr>) = waiting L"
  "waiting (L\<lparr>cerr := log\<rparr>) = waiting L"
  by (simp_all add: waiting_def fun_eq_iff)

lemma waiting_upd:
  "waiting (L\<lparr>states := (states L)(fd := x)\<rparr>) =
     (waiting L)(fd := (\<lambda>d. case x of None \<Rightarrow> None | Some st \<Rightarrow> handle_for d st))"
  by (auto simp: waiting_def fun_eq_iff)

lemma event_words:
  "EPOLLIN \<noteq> 0" "EPOLLOUT \<noteq> 0" "EPOLLIN \<noteq> EPOLLOUT" "EPOLLIN OR EPOLLOUT \<noteq> 0"
  "EPOLLIN AND EPOLLET = 0" "EPOLLOUT AND EPOLLET = 0" "(EPOLLIN OR EPOLLOUT) AND EPOLLET = 0"
  by simp_all

lemma event_of_cases [simp]:
  "event_of d = EPOLLIN \<longleftrightarrow> d = Readable" "event_of d = EPOLLOUT \<longleftrightarrow> d = Writable"
  by (cases d; simp)+

lemma event_of_supported [simp]: "event_of d = EPOLLIN \<or> event_of d = EPOLLOUT"
  by (cases d) simp_all

lemma active_events_eq:
  "active_events st =
     (if read_handle st \<noteq> None then (if write_handle st \<noteq> None then EPOLLIN OR EPOLLOUT else EPOLLIN)
      else (if write_handle st \<noteq> None then EPOLLOUT else 0))"
  by (simp add: active_events_def)

lemma active_events_zero [simp]:
  "active_events st = 0 \<longleftrightarrow> read_handle st = None \<and> write_handle st = None"
  by (simp add: active_events_eq)

text \<open>
  The registered event mask. \<open>active_events\<close> asks for input exactly when a reader waits
  and for output exactly when a writer waits, and is zero exactly when nobody waits. Its
  last test, for a mask equal to \<open>EPOLLRDHUP\<close>, can never succeed.
\<close>

theorem active_events_exact:
  "(active_events st AND EPOLLIN \<noteq> 0 \<longleftrightarrow> read_handle st \<noteq> None)
   \<and> (active_events st AND EPOLLOUT \<noteq> 0 \<longleftrightarrow> write_handle st \<noteq> None)
   \<and> (active_events st = 0 \<longleftrightarrow> read_handle st = None \<and> write_handle st = None)
   \<and> (if read_handle st \<noteq> None then EPOLLIN else 0) OR (if write_handle st \<noteq> None then EPOLLOUT else 0)
       \<noteq> EPOLLRDHUP
   \<and> active_events st AND EPOLLET = 0"
  by (simp add: active_events_eq)

section \<open>The table and the kernel agree\<close>

text \<open>
  \<open>armed st ev\<close>: the registration \<open>ev\<close> reports every event that an entry waits for, and is
  edge-triggered exactly when the entry says so.
\<close>

definition armed :: "fd_state \<Rightarrow> 32 word \<Rightarrow> bool" where
  "armed st ev \<longleftrightarrow> active_events st AND ev = active_events st \<and> (ev AND EPOLLET \<noteq> 0 \<longleftrightarrow> edge_trigger st)"

definition registered :: "('k \<Rightarrow> fd \<Rightarrow> 32 word option) \<Rightarrow> 'k \<Rightarrow> fd \<Rightarrow> fd_state \<Rightarrow> bool" where
  "registered interest k fd st \<longleftrightarrow> 0 \<le> fd \<and> (\<exists>ev. interest k fd = Some ev \<and> armed st ev)"

text \<open>
  The invariant: every entry of the table has a waiter and is registered in the kernel for
  all it waits for. So no coroutine waits for an event the kernel will not report.
\<close>

definition loop_ok ::
    "('k \<Rightarrow> fd \<Rightarrow> 32 word option) \<Rightarrow> ('c, 'k, 'z) event_loop_scheme \<Rightarrow> bool" where
  "loop_ok interest L \<longleftrightarrow>
     (\<forall>fd st. states L fd = Some st \<longrightarrow> active_events st \<noteq> 0 \<and> registered interest (kern L) fd st)"

lemma loop_ok_simps [simp]:
  "loop_ok interest (L\<lparr>pending := p\<rparr>) = loop_ok interest L"
  "loop_ok interest (L\<lparr>stopped := b\<rparr>) = loop_ok interest L"
  "loop_ok interest (L\<lparr>tasks := ts\<rparr>) = loop_ok interest L"
  "loop_ok interest (L\<lparr>cerr := log\<rparr>) = loop_ok interest L"
  by (simp_all add: loop_ok_def)

lemma loop_okD:
  "loop_ok interest L \<Longrightarrow> states L fd = Some st \<Longrightarrow>
     active_events st \<noteq> 0 \<and> registered interest (kern L) fd st"
  by (simp add: loop_ok_def)

lemma loop_ok_kernel:
  "loop_ok interest L \<Longrightarrow> interest k = interest (kern L) \<Longrightarrow> loop_ok interest (L\<lparr>kern := k\<rparr>)"
  by (simp add: loop_ok_def registered_def)

text \<open>Updating the entry of one descriptor, and unregistering it.\<close>

lemma loop_ok_upd:
  assumes "loop_ok interest (L\<lparr>states := (states L)(fd := None)\<rparr>)"
    and "\<And>g. g \<noteq> fd \<Longrightarrow> interest k g = interest (kern L) g"
    and "active_events st \<noteq> 0" and "registered interest k fd st"
  shows "loop_ok interest (L\<lparr>states := (states L)(fd \<mapsto> st), kern := k\<rparr>)"
  using assms by (auto simp: loop_ok_def registered_def split: if_splits)

lemma loop_ok_erase:
  assumes "loop_ok interest (L\<lparr>states := (states L)(fd := None)\<rparr>)"
    and "\<And>g. g \<noteq> fd \<Longrightarrow> interest k g = interest (kern L) g"
  shows "loop_ok interest (L\<lparr>states := (states L)(fd := None), kern := k\<rparr>)"
  using assms by (auto simp: loop_ok_def registered_def split: if_splits)

lemma loop_ok_drop:
  "loop_ok interest L \<Longrightarrow> loop_ok interest (L\<lparr>states := (states L)(fd := None)\<rparr>)"
  by (auto simp: loop_ok_def)

lemma armed_all:
  "armed (st\<lparr>edge_trigger := et\<rparr>) ((EPOLLIN OR EPOLLOUT) OR (if et then EPOLLET else 0))"
  by (simp add: armed_def active_events_def)

lemma armed_active:
  "armed st (active_events st OR (if edge_trigger st then EPOLLET else 0))"
  by (simp add: armed_def active_events_eq)

lemma masked_part:
  assumes "(a OR b) AND ev = a OR b" and "x AND (a OR b) = x"
  shows "x AND ev = (x :: 32 word)"
proof -
  have "x AND ev = (x AND (a OR b)) AND ev" by (simp only: assms(2))
  also have "\<dots> = x AND ((a OR b) AND ev)" by (simp only: and.assoc)
  also have "\<dots> = x" by (simp only: assms)
  finally show ?thesis .
qed

lemmas masked_events =
  masked_part [of EPOLLIN EPOLLOUT _ EPOLLIN] masked_part [of EPOLLIN EPOLLOUT _ EPOLLOUT]

lemma active_events_less:
  "active_events st AND ev = active_events st \<Longrightarrow>
     active_events (st\<lparr>read_handle := None\<rparr>) AND ev = active_events (st\<lparr>read_handle := None\<rparr>)"
  "active_events st AND ev = active_events st \<Longrightarrow>
     active_events (st\<lparr>write_handle := None\<rparr>) AND ev = active_events (st\<lparr>write_handle := None\<rparr>)"
  using masked_events [of ev] unfolding active_events_eq by (auto split: if_splits)

lemma armed_less:
  "armed st ev \<Longrightarrow> armed (st\<lparr>read_handle := None\<rparr>) ev"
  "armed st ev \<Longrightarrow> armed (st\<lparr>write_handle := None\<rparr>) ev"
  by (simp_all add: armed_def active_events_less)

section \<open>Operations of the table\<close>

lemma update_or_remove_ok:
  assumes laws: "epoll_laws H interest"
    and rest: "loop_ok interest (L\<lparr>states := (states L)(fd := None)\<rparr>)"
    and st: "states L fd = Some st" and reg: "registered interest (kern L) fd st"
  shows "loop_ok interest (snd (update_or_remove H fd st L))"
proof (cases "active_events st = 0")
  case True
  have "interest (snd (ctl H CTL_DEL fd 0 (kern L))) g = interest (kern L) g" if "g \<noteq> fd" for g
    using that by (simp add: epoll_lawsD(5) [OF laws])
  with True loop_ok_erase [OF rest] show ?thesis
    by (simp add: update_or_remove_def update_or_remove_impl_def)
next
  case False
  let ?ev = "active_events st OR (if edge_trigger st then EPOLLET else 0)"
  have same: "L\<lparr>states := (states L)(fd \<mapsto> st), kern := k\<rparr> = L\<lparr>kern := k\<rparr>" for k
    using st by simp
  obtain res k where c: "ctl H CTL_MOD fd ?ev (kern L) = (res, k)" by (meson surj_pair)
  have "loop_ok interest (L\<lparr>kern := k\<rparr>)"
  proof (cases res)
    case None
    then have k: "interest k = (interest (kern L))(fd \<mapsto> ?ev)"
      using epoll_lawsD(3) [OF laws] c by blast
    then have "registered interest k fd st"
      using reg armed_active [of st] by (simp add: registered_def)
    with loop_ok_upd [OF rest _ False this] k show ?thesis by (simp add: same)
  next
    case (Some e)
    then have k: "interest k = interest (kern L)" using epoll_lawsD(4) [OF laws] c by blast
    then have "registered interest k fd st" using reg by (simp add: registered_def)
    with loop_ok_upd [OF rest _ False this] k show ?thesis by (simp add: same)
  qed
  then show ?thesis
    using False c by (auto simp: update_or_remove_def update_or_remove_impl_def split: option.split)
qed

lemma add_interest_ok:
  assumes laws: "epoll_laws H interest" and ok: "loop_ok interest L"
  shows "loop_ok interest (snd (add_interest_impl H fd (event_of d) h et L))"
proof (cases "fd < 0")
  case True
  then show ?thesis using ok by (simp add: add_interest_impl_def)
next
  case False
  let ?op = "if states L fd = None then CTL_ADD else CTL_MOD"
  let ?ev = "(EPOLLIN OR EPOLLOUT) OR (if et then EPOLLET else 0)"
  obtain res k where c: "ctl H ?op fd ?ev (kern L) = (res, k)" by (meson surj_pair)
  have rest: "loop_ok interest (L\<lparr>states := (states L)(fd := None)\<rparr>)" by (rule loop_ok_drop [OF ok])
  show ?thesis
  proof (cases res)
    case None
    then have k: "interest k = (interest (kern L))(fd \<mapsto> ?ev)"
      using c epoll_lawsD(1,3) [OF laws] by (cases "states L fd = None") auto
    obtain st where st: "snd (add_interest_impl H fd (event_of d) h et L) =
        L\<lparr>states := (states L)(fd \<mapsto> st\<lparr>edge_trigger := et\<rparr>), kern := k\<rparr>"
        and act: "active_events (st\<lparr>edge_trigger := et\<rparr>) \<noteq> 0"
      using False None c by (cases d) (auto simp: add_interest_impl_def Let_def)
    have "registered interest k fd (st\<lparr>edge_trigger := et\<rparr>)"
      using False k armed_all by (simp add: registered_def)
    from loop_ok_upd [OF rest _ act this] k show ?thesis by (simp add: st)
  next
    case (Some e)
    then have k: "interest k = interest (kern L)"
      using c epoll_lawsD(2,4) [OF laws] by (cases "states L fd = None") auto
    have "snd (add_interest_impl H fd (event_of d) h et L) =
        L\<lparr>states := (states L)(fd := None), kern := k\<rparr>"
      using False Some c by (cases d) (auto simp: add_interest_impl_def Let_def)
    with loop_ok_erase [OF rest] k show ?thesis by simp
  qed
qed

lemma remove_ok:
  "epoll_laws H interest \<Longrightarrow> loop_ok interest L \<Longrightarrow> loop_ok interest (remove H fd L)"
  by (auto simp: remove_def epoll_lawsD(5) intro!: loop_ok_erase loop_ok_drop)

lemma wakeup_ok:
  "epoll_laws H interest \<Longrightarrow> loop_ok interest L \<Longrightarrow> loop_ok interest (wakeup H L)"
  by (simp add: wakeup_def loop_ok_kernel epoll_lawsD(6))

lemma drain_wakeup_fd_ok:
  "epoll_laws H interest \<Longrightarrow> loop_ok interest L \<Longrightarrow> loop_ok interest (drain_wakeup_fd H L)"
  by (simp add: drain_wakeup_fd_def loop_ok_kernel epoll_lawsD(7))

lemma post_ok:
  "epoll_laws H interest \<Longrightarrow> loop_ok interest L \<Longrightarrow> loop_ok interest (post H c L)"
  by (simp add: post_def wakeup_ok)

lemma stop_ok:
  "epoll_laws H interest \<Longrightarrow> loop_ok interest L \<Longrightarrow> loop_ok interest (stop H L)"
  by (simp add: stop_def wakeup_ok)

section \<open>The contract with the coroutines\<close>

text \<open>
  The loop runs code it does not know: coroutines it resumes, callbacks, and destructors of
  finished frames. The locale states what it needs of them, that they use the loop through
  operations that keep the table and the kernel in step, and derives that the loop itself
  keeps them in step, whatever events arrive and whatever exceptions fly.
\<close>

locale loop_client =
  fixes H :: "('c, 'k, 'z) loop_host"
  assumes resume_keeps:
      "epoll_laws H interest \<Longrightarrow> loop_ok interest L \<Longrightarrow> loop_ok interest (resume_handle H h L)"
    and invoke_keeps:
      "epoll_laws H interest \<Longrightarrow> loop_ok interest L \<Longrightarrow> loop_ok interest (snd (invoke H c L))"
    and destroy_keeps:
      "epoll_laws H interest \<Longrightarrow> loop_ok interest L \<Longrightarrow> loop_ok interest (destroy_handle H h L)"
begin

lemma resume_opt_keeps:
  "epoll_laws H interest \<Longrightarrow> loop_ok interest L \<Longrightarrow> loop_ok interest (resume_opt H h L)"
  by (simp add: resume_opt_def resume_keeps split: option.split)

lemma task_resume_keeps:
  "epoll_laws H interest \<Longrightarrow> loop_ok interest L \<Longrightarrow> loop_ok interest (task_resume H t L)"
  by (simp add: task_resume_def resume_keeps split: option.split)

lemma spawn_keeps:
  "epoll_laws H interest \<Longrightarrow> loop_ok interest L \<Longrightarrow> loop_ok interest (spawn H t L)"
  by (simp add: spawn_def task_resume_keeps)

lemma run_local_keeps:
  "epoll_laws H interest \<Longrightarrow> loop_ok interest L \<Longrightarrow> loop_ok interest (snd (run_local H cs L))"
proof (induction cs arbitrary: L)
  case Nil
  then show ?case by simp
next
  case (Cons c cs)
  show ?case
    unfolding run_local.simps
    by (rule seq_keeps) (simp_all add: Cons.IH Cons.prems invoke_keeps)
qed

lemma drain_pending_tasks_keeps:
  "epoll_laws H interest \<Longrightarrow> loop_ok interest L \<Longrightarrow> loop_ok interest (snd (drain_pending_tasks H L))"
  by (simp add: drain_pending_tasks_def run_local_keeps)

lemma report_failures_keeps:
  "loop_ok interest L \<Longrightarrow> loop_ok interest (snd (report_failures H ts L))"
  by (induction ts arbitrary: L) (auto split: option.split)

lemma erase_finished_keeps:
  assumes "epoll_laws H interest" and "loop_ok interest L"
  shows "loop_ok interest (erase_finished H L)"
proof -
  have "loop_ok interest M \<Longrightarrow> loop_ok interest (fold (destroy_task H) ts M)" for ts M
    by (induction ts arbitrary: M) (auto simp: destroy_task_def destroy_keeps assms(1) split: option.split)
  with assms(2) show ?thesis by (simp add: erase_finished_def)
qed

lemma compact_keeps:
  assumes "epoll_laws H interest" and "loop_ok interest L"
  shows "loop_ok interest (snd (compact_finished_tasks H L))"
  unfolding compact_finished_tasks_def
  by (rule seq_finally) (simp_all add: assms report_failures_keeps erase_finished_keeps)

lemma dispatch_wakeup_keeps:
  assumes "epoll_laws H interest" and "loop_ok interest L"
  shows "loop_ok interest (snd (dispatch_wakeup H L))"
  unfolding dispatch_wakeup_def
  by (rule seq_keeps) (simp_all add: assms drain_pending_tasks_keeps drain_wakeup_fd_ok compact_keeps)

lemma dispatch_fd_keeps:
  assumes laws: "epoll_laws H interest" and ok: "loop_ok interest L" and st: "states L fd = Some st"
  shows "loop_ok interest (snd (dispatch_fd H events fd st L))"
proof -
  let ?st1 = "if wants_read events then st\<lparr>read_handle := None\<rparr> else st"
  let ?st2 = "if wants_write events then ?st1\<lparr>write_handle := None\<rparr> else ?st1"
  let ?L = "L\<lparr>states := (states L)(fd \<mapsto> ?st2)\<rparr>"
  have "registered interest (kern L) fd ?st2"
    using loop_okD [OF ok st] by (auto simp: registered_def armed_less)
  then have "loop_ok interest (snd (update_or_remove H fd ?st2 ?L))"
    using loop_ok_drop [OF ok, of fd] by (intro update_or_remove_ok [OF laws]) simp_all
  then show ?thesis
    unfolding dispatch_fd_def Let_def
    by (rule seq_finally) (simp add: resume_opt_keeps [OF laws])
qed

lemma dispatch_keeps:
  "epoll_laws H interest \<Longrightarrow> loop_ok interest L \<Longrightarrow> loop_ok interest (snd (dispatch H ev L))"
  by (auto simp: dispatch_def dispatch_wakeup_keeps dispatch_fd_keeps split: option.split)

lemma dispatch_all_keeps:
  assumes laws: "epoll_laws H interest"
  shows "loop_ok interest L \<Longrightarrow> loop_ok interest (dispatch_all H evs L)"
proof (induction evs arbitrary: L)
  case Nil
  then show ?case by simp
next
  case (Cons ev evs)
  obtain x L1 where d: "dispatch H ev L = (x, L1)" by (meson surj_pair)
  with dispatch_keeps [OF laws Cons.prems, of ev] have "loop_ok interest L1" by simp
  with d show ?case by (cases x) (simp_all add: Cons.IH)
qed

lemma before_wait_keeps:
  assumes "epoll_laws H interest" and "loop_ok interest L"
  shows "loop_ok interest (snd (before_wait H L))"
proof -
  obtain x L1 where d: "(case drain_pending_tasks H L of
      (Some e, L1) \<Rightarrow> (Some e, L1) | (None, L1) \<Rightarrow> compact_finished_tasks H L1) = (x, L1)"
    by (meson surj_pair)
  have "loop_ok interest (snd (case drain_pending_tasks H L of
      (Some e, L1) \<Rightarrow> (Some e, L1) | (None, L1) \<Rightarrow> compact_finished_tasks H L1))"
    by (rule seq_keeps) (simp_all add: assms drain_pending_tasks_keeps compact_keeps)
  then have "loop_ok interest L1" by (simp add: d)
  then show ?thesis by (cases x) (simp_all add: before_wait_def d)
qed

lemma run_keeps:
  assumes laws: "epoll_laws H interest"
  shows "loop_ok interest L \<Longrightarrow> loop_ok interest (snd (run H ws L))"
proof (induction ws arbitrary: L)
  case Nil
  obtain x L1 where b: "before_wait H L = (x, L1)" by (meson surj_pair)
  with before_wait_keeps [OF laws Nil.prems] have "loop_ok interest L1" by simp
  with Nil b show ?case by (subst run.simps) (cases x; simp)
next
  case (Cons w ws)
  obtain x L1 where b: "before_wait H L = (x, L1)" by (meson surj_pair)
  with before_wait_keeps [OF laws Cons.prems] have "loop_ok interest L1" by simp
  with Cons b show ?case
    by (subst run.simps) (cases x; cases w; simp add: dispatch_all_keeps [OF laws])
qed

end

section \<open>A kernel for the examples\<close>

text \<open>
  An executable interest list with the documented errors, and a host whose coroutines record
  in the queue of callbacks that they were resumed; used in the witnesses.
\<close>

type_synonym interest_list = "fd \<Rightarrow> 32 word option"

fun list_ctl :: "ctl_op \<Rightarrow> fd \<Rightarrow> 32 word \<Rightarrow> interest_list \<Rightarrow> int option \<times> interest_list" where
  "list_ctl CTL_ADD fd ev k = (case k fd of None \<Rightarrow> (None, k(fd \<mapsto> ev)) | Some _ \<Rightarrow> (Some EEXIST, k))"
| "list_ctl CTL_MOD fd ev k = (case k fd of None \<Rightarrow> (Some ENOENT, k) | Some _ \<Rightarrow> (None, k(fd \<mapsto> ev)))"
| "list_ctl CTL_DEL fd ev k = (case k fd of None \<Rightarrow> (Some ENOENT, k) | Some _ \<Rightarrow> (None, k(fd := None)))"

definition example_host :: "(handle, interest_list, unit) loop_host" where
  "example_host = \<lparr>ctl = list_ctl, signal = id, unsignal = id,
     resume_handle = (\<lambda>h L. L\<lparr>pending := pending L @ [h]\<rparr>),
     done_handle = (\<lambda>L h. odd h), failure_of = (\<lambda>L h. if h = 3 then Some (Runtime_error ''boom'') else None),
     destroy_handle = (\<lambda>h L. L),
     invoke = (\<lambda>c L. if c = 0 then (Some (Foreign 1), L) else (None, L\<lparr>pending := pending L @ [c + 10]\<rparr>))\<rparr>"

definition example_loop :: "(handle, interest_list) event_loop" where
  "example_loop = \<lparr>epoll_fd = 3, wakeup_fd = 4, stopped = False, states = Map.empty, tasks = [],
     pending = [], kern = [4 \<mapsto> EPOLLIN], cerr = []\<rparr>"

lemma example_simps [simp]:
  "ctl example_host = list_ctl" "resume_handle example_host h L = L\<lparr>pending := pending L @ [h]\<rparr>"
  "done_handle example_host L h = odd h"
  "invoke example_host c L = (if c = 0 then (Some (Foreign 1), L)
     else (None, L\<lparr>pending := pending L @ [c + 10]\<rparr>))"
  "destroy_handle example_host h L = L"
  "failure_of example_host L h = (if h = 3 then Some (Runtime_error ''boom'') else None)"
  by (simp_all add: example_host_def)

lemma example_laws: "epoll_laws example_host (\<lambda>k. k)"
proof -
  have "ctl example_host = list_ctl" "signal example_host = id" "unsignal example_host = id"
    by (simp_all add: example_host_def)
  then show ?thesis by (auto simp: epoll_laws_def fun_eq_iff split: option.splits)
qed

section \<open>Properties\<close>

definition aw_direction :: "readiness_awaiter \<Rightarrow> direction" where
  "aw_direction a = (if aw_event a = EPOLLIN then Readable else Writable)"

lemmas awaiter_defs = readable_def writable_def readable_et_def writable_et_def

text \<open>
  Waiting for readiness. When the kernel accepts the registration, suspending in any of
  the four awaiters makes the coroutine the one waiter of its descriptor and direction,
  keeps every other waiter, sets the trigger mode of the descriptor to that of the awaiter,
  and changes nothing else of the loop.
\<close>

theorem await_registers:
  assumes "a \<in> {readable fd, writable fd, readable_et fd, writable_et fd}" and "0 \<le> fd"
    and "ctl H (if states L fd = None then CTL_ADD else CTL_MOD) fd
           ((EPOLLIN OR EPOLLOUT) OR (if aw_edge a then EPOLLET else 0)) (kern L) = (None, k)"
  shows "\<exists>L'. await_suspend_ready H a h L = (None, L')
     \<and> waiting L' = (waiting L)(fd := (waiting L fd)(aw_direction a := Some h))
     \<and> map_option edge_trigger (states L' fd) = Some (aw_edge a)
     \<and> kern L' = k \<and> tasks L' = tasks L \<and> pending L' = pending L \<and> stopped L' = stopped L"
proof -
  have w: "waiting (L\<lparr>states := (states L)(fd \<mapsto> st), kern := k\<rparr>) =
      (waiting L)(fd := (\<lambda>d. handle_for d st))" for st
    by (auto simp: waiting_def fun_eq_iff)
  have f: "aw_fd a = fd" "\<not> fd < 0" "aw_event a = EPOLLIN \<or> aw_event a = EPOLLOUT"
    using assms by (auto simp: awaiter_defs)
  define st where "st = (case states L fd of None \<Rightarrow> fd_state_init | Some st \<Rightarrow> st)"
  define st1 where "st1 = (if aw_event a = EPOLLIN then st\<lparr>read_handle := Some h\<rparr>
    else st\<lparr>write_handle := Some h\<rparr>)\<lparr>edge_trigger := aw_edge a\<rparr>"
  have run: "await_suspend_ready H a h L = (None, L\<lparr>states := (states L)(fd \<mapsto> st1), kern := k\<rparr>)"
    using f assms(3)
    by (cases "aw_edge a"; cases "states L fd")
       (auto simp: await_suspend_ready_def add_interest_def add_interest_et_def add_interest_impl_def
         Let_def st1_def st_def)
  define L' where "L' = L\<lparr>states := (states L)(fd \<mapsto> st1), kern := k\<rparr>"
  have "(\<lambda>d. handle_for d st1) = (waiting L fd)(aw_direction a := Some h)"
  proof
    fix d
    show "handle_for d st1 = ((waiting L fd)(aw_direction a := Some h)) d"
      using f by (cases d) (auto simp: st1_def st_def aw_direction_def waiting_def fd_state_init_def
        split: option.split)
  qed
  then have "waiting L' = (waiting L)(fd := (waiting L fd)(aw_direction a := Some h))"
    unfolding L'_def w by simp
  moreover have "map_option edge_trigger (states L' fd) = Some (aw_edge a)"
    and "kern L' = k" "tasks L' = tasks L" "pending L' = pending L" "stopped L' = stopped L"
    by (simp_all add: L'_def st1_def)
  ultimately show ?thesis using run unfolding L'_def [symmetric] by blast
qed

theorem await_registers_witness:
  "\<exists>L'. await_suspend_ready example_host (writable_et 7) 2 example_loop = (None, L')
     \<and> waiting L' 7 Writable = Some 2 \<and> map_option edge_trigger (states L' 7) = Some True"
  using await_registers [of "writable_et 7" 7 example_host example_loop "[4 \<mapsto> EPOLLIN, 7 \<mapsto> 0x80000005]" 2]
  by (auto simp: awaiter_defs example_loop_def aw_direction_def)

text \<open>
  A registration that fails takes the other waiter with it. When a writer waits on a
  descriptor and \<open>epoll_ctl\<close> then fails for a reader of the same descriptor, the reader gets
  the exception, and the entry is erased although it was there before: the writer waits no
  more, was not resumed, and no later event on the descriptor resumes it.
\<close>

theorem failed_wait_drops_other_waiter:
  assumes "states L fd = Some st" and "write_handle st = Some w" and "0 \<le> fd" and "fd \<noteq> wakeup_fd L"
    and "ctl H CTL_MOD fd (EPOLLIN OR EPOLLOUT) (kern L) = (Some e, k)"
  shows "add_interest H fd EPOLLIN h L =
           (Some (System_error e ''epoll_ctl''), L\<lparr>states := (states L)(fd := None), kern := k\<rparr>)
    \<and> waiting L fd Writable = Some w
    \<and> waiting (snd (add_interest H fd EPOLLIN h L)) fd Writable = None
    \<and> dispatch H \<lparr>ev_events = events, ev_fd = fd\<rparr> (snd (add_interest H fd EPOLLIN h L)) =
        (None, snd (add_interest H fd EPOLLIN h L))"
  using assms by (simp add: add_interest_def add_interest_impl_def Let_def waiting_def dispatch_def)

theorem failed_wait_drops_other_waiter_witness:
  "waiting (snd (add_interest example_host 7 EPOLLIN 5
      (example_loop\<lparr>states := [7 \<mapsto> fd_state_init\<lparr>write_handle := Some 2\<rparr>]\<rparr>))) 7 Writable = None"
proof -
  let ?st = "fd_state_init\<lparr>write_handle := Some 2\<rparr>"
  let ?L = "example_loop\<lparr>states := [7 \<mapsto> ?st]\<rparr>"
  have p: "states ?L 7 = Some ?st" "write_handle ?st = Some 2" "(0 :: int) \<le> 7" "7 \<noteq> wakeup_fd ?L"
    "ctl example_host CTL_MOD 7 (EPOLLIN OR EPOLLOUT) (kern ?L) = (Some ENOENT, [4 \<mapsto> EPOLLIN])"
    by (simp_all add: example_loop_def)
  from failed_wait_drops_other_waiter [OF p] show ?thesis by blast
qed

definition ready_handles :: "32 word \<Rightarrow> fd_state \<Rightarrow> handle list" where
  "ready_handles events st =
     (if wants_read events then (case read_handle st of None \<Rightarrow> [] | Some h \<Rightarrow> [h]) else [])
     @ (if wants_write events then (case write_handle st of None \<Rightarrow> [] | Some h \<Rightarrow> [h]) else [])"

text \<open>In the order of the directions, those that wait for what is reported.\<close>

lemma ready_handles_sorted:
  "ready_handles events st =
     map (\<lambda>d. the (handle_for d st)) (sorted_list_of_set {d. wants d events \<and> handle_for d st \<noteq> None})"
proof -
  have "{d. wants d events \<and> handle_for d st \<noteq> None} =
      (if wants_read events \<and> read_handle st \<noteq> None then {Readable} else {})
      \<union> (if wants_write events \<and> write_handle st \<noteq> None then {Writable} else {})"
  proof (intro set_eqI)
    fix d
    show "d \<in> {d. wants d events \<and> handle_for d st \<noteq> None} \<longleftrightarrow> d \<in>
      (if wants_read events \<and> read_handle st \<noteq> None then {Readable} else {})
      \<union> (if wants_write events \<and> write_handle st \<noteq> None then {Writable} else {})"
      by (cases d) auto
  qed
  moreover have "sorted_list_of_set {Readable, Writable} = [Readable, Writable]" by simp
  ultimately show ?thesis by (auto simp: ready_handles_def split: option.split)
qed

lemma resume_opt_fold:
  "resume_opt H h L = fold (resume_handle H) (case h of None \<Rightarrow> [] | Some a \<Rightarrow> [a]) L"
  by (simp add: resume_opt_def split: option.split)

lemma update_or_remove_narrows:
  assumes "states L fd = Some st"
    and "\<And>ev e k. ctl H CTL_MOD fd ev (kern L) = (Some e, k) \<Longrightarrow> e = EBADF \<or> e = ENOENT"
  shows "\<exists>k. update_or_remove H fd st L =
     (None, L\<lparr>states := (states L)(fd := if active_events st = 0 then None else Some st), kern := k\<rparr>)"
proof -
  let ?ev = "active_events st OR (if edge_trigger st then EPOLLET else 0)"
  obtain res k where c: "ctl H CTL_MOD fd ?ev (kern L) = (res, k)" by (meson surj_pair)
  have same: "(states L)(fd \<mapsto> st) = states L" using assms(1) by simp
  show ?thesis
  proof (cases "active_events st = 0")
    case True
    then show ?thesis by (auto simp: update_or_remove_def update_or_remove_impl_def)
  next
    case False
    have "res = Some e \<Longrightarrow> e = EBADF \<or> e = ENOENT" for e using assms(2) c by blast
    then have "update_or_remove H fd st L = (None, L\<lparr>kern := k\<rparr>)"
      using False c
      by (cases res) (auto simp: update_or_remove_def update_or_remove_impl_def Let_def)
    with False same show ?thesis by (intro exI [of _ k]) auto
  qed
qed

text \<open>
  C10. Dispatching an event. When the registration can be narrowed, an event on a descriptor
  resumes exactly the coroutines that wait for what it reports, first the reader and then
  the writer, each once; before the first of them runs, exactly those are taken out of the
  table, and the entry is gone if nobody waits any more. An error or hang-up readies both.
\<close>

theorem dispatch_delivers:
  assumes "states L fd = Some st" and "fd \<noteq> wakeup_fd L"
    and "\<forall>ev e k. ctl H CTL_MOD fd ev (kern L) = (Some e, k) \<longrightarrow> e = EBADF \<or> e = ENOENT"
  shows "\<exists>L1. dispatch H \<lparr>ev_events = events, ev_fd = fd\<rparr> L =
             (None, fold (resume_handle H) (ready_handles events st) L1)
     \<and> (\<forall>g d. waiting L1 g d = (if g = fd \<and> wants d events then None else waiting L g d))
     \<and> (states L1 fd = None \<longleftrightarrow> (\<forall>d. waiting L1 fd d = None))
     \<and> tasks L1 = tasks L \<and> pending L1 = pending L"
proof -
  define st1 where "st1 = (if wants_read events then st\<lparr>read_handle := None\<rparr> else st)"
  define st2 where "st2 = (if wants_write events then st1\<lparr>write_handle := None\<rparr> else st1)"
  have hf: "handle_for d st2 = (if wants d events then None else handle_for d st)" for d
    by (cases d) (simp_all add: st1_def st2_def)
  obtain L1 where u: "update_or_remove H fd st2 (L\<lparr>states := (states L)(fd \<mapsto> st2)\<rparr>) = (None, L1)"
    and s: "states L1 = (states L)(fd := if active_events st2 = 0 then None else Some st2)"
    and t: "tasks L1 = tasks L" "pending L1 = pending L"
    using update_or_remove_narrows [of "L\<lparr>states := (states L)(fd \<mapsto> st2)\<rparr>" fd st2 H] assms(3)
    by auto
  have none: "active_events st2 = 0 \<longleftrightarrow> (\<forall>d. handle_for d st2 = None)"
    by (simp add: all_direction)
  have w: "waiting L1 g d = (if g = fd \<and> wants d events then None else waiting L g d)" for g d
    using assms(1) hf [of d] none by (auto simp: waiting_def s split: if_splits)
  have "states L1 fd = None \<longleftrightarrow> (\<forall>d. waiting L1 fd d = None)"
    using none by (auto simp: waiting_def s)
  moreover have "dispatch H \<lparr>ev_events = events, ev_fd = fd\<rparr> L =
      (None, fold (resume_handle H) (ready_handles events st) L1)"
    using assms(1,2) u
    by (auto simp: dispatch_def dispatch_fd_def Let_def st1_def st2_def resume_opt_fold ready_handles_def)
  ultimately show ?thesis using w t by (intro exI [of _ L1] conjI allI)
qed

theorem dispatch_delivers_witness:
  "\<exists>L1. dispatch example_host \<lparr>ev_events = EPOLLIN, ev_fd = 7\<rparr>
        (example_loop\<lparr>states := [7 \<mapsto> fd_state_init\<lparr>read_handle := Some 1, write_handle := Some 2\<rparr>],
                      kern := [4 \<mapsto> EPOLLIN, 7 \<mapsto> EPOLLIN OR EPOLLOUT]\<rparr>) =
        (None, fold (resume_handle example_host) [1] L1)
     \<and> waiting L1 7 Readable = None \<and> waiting L1 7 Writable = Some 2"
proof -
  let ?st = "fd_state_init\<lparr>read_handle := Some 1, write_handle := Some 2\<rparr>"
  let ?L = "example_loop\<lparr>states := [7 \<mapsto> ?st], kern := [4 \<mapsto> EPOLLIN, 7 \<mapsto> EPOLLIN OR EPOLLOUT]\<rparr>"
  have p: "states ?L 7 = Some ?st" "(7 :: int) \<noteq> wakeup_fd ?L" by (simp_all add: example_loop_def)
  have c: "\<forall>ev e k. ctl example_host CTL_MOD 7 ev (kern ?L) = (Some e, k) \<longrightarrow> e = EBADF \<or> e = ENOENT"
    by simp
  have r: "ready_handles EPOLLIN ?st = [1]"
    by (simp add: ready_handles_def wants_read_def wants_write_def has_error_def)
  have "\<not> wants Writable EPOLLIN" "wants Readable EPOLLIN"
    by (simp_all add: wants_read_def wants_write_def has_error_def)
  moreover have "waiting ?L 7 Writable = Some 2" by (simp add: waiting_def)
  moreover from dispatch_delivers [where events = EPOLLIN, OF p c] obtain L1
    where "dispatch example_host \<lparr>ev_events = EPOLLIN, ev_fd = 7\<rparr> ?L =
        (None, fold (resume_handle example_host) [1] L1)"
      and "\<forall>g d. waiting L1 g d = (if g = 7 \<and> wants d EPOLLIN then None else waiting ?L g d)"
    unfolding r by blast
  ultimately show ?thesis by (intro exI [of _ L1]) simp
qed

text \<open>
  A handle is lost when narrowing fails. If \<open>epoll_ctl\<close> fails with an error other than
  EBADF or ENOENT while a reader is made ready and a writer stays, the exception leaves
  \<open>dispatch\<close> after the reader was taken out of the table: the reader is neither resumed nor
  waiting any more.
\<close>

theorem dispatch_failure_loses_reader:
  assumes "states L fd = Some st" and "fd \<noteq> wakeup_fd L"
    and "read_handle st = Some r" and "write_handle st = Some w" and "\<not> edge_trigger st"
    and "ctl H CTL_MOD fd EPOLLOUT (kern L) = (Some e, k)" and "e \<noteq> EBADF" and "e \<noteq> ENOENT"
  shows "dispatch H \<lparr>ev_events = EPOLLIN, ev_fd = fd\<rparr> L =
      (Some (System_error e ''epoll_ctl mod''),
       L\<lparr>states := (states L)(fd \<mapsto> st\<lparr>read_handle := None\<rparr>), kern := k\<rparr>)"
  using assms
  by (simp add: dispatch_def dispatch_fd_def wants_read_def wants_write_def has_error_def Let_def
      update_or_remove_def update_or_remove_impl_def active_events_eq)

theorem dispatch_failure_loses_reader_witness:
  "\<exists>H :: (handle, interest_list, unit) loop_host.
     fst (dispatch H \<lparr>ev_events = EPOLLIN, ev_fd = 7\<rparr>
       (example_loop\<lparr>states := [7 \<mapsto> fd_state_init\<lparr>read_handle := Some 1, write_handle := Some 2\<rparr>]\<rparr>))
     = Some (System_error 12 ''epoll_ctl mod'')"
proof -
  let ?H = "example_host\<lparr>ctl := (\<lambda>op fd ev k. (Some 12, k))\<rparr>"
  let ?st = "fd_state_init\<lparr>read_handle := Some 1, write_handle := Some 2\<rparr>"
  let ?L = "example_loop\<lparr>states := [7 \<mapsto> ?st]\<rparr>"
  have p: "states ?L 7 = Some ?st" "(7 :: int) \<noteq> wakeup_fd ?L" "read_handle ?st = Some 1"
    "write_handle ?st = Some 2" "\<not> edge_trigger ?st"
    "ctl ?H CTL_MOD 7 EPOLLOUT (kern ?L) = (Some 12, kern ?L)" "(12 :: int) \<noteq> EBADF" "(12 :: int) \<noteq> ENOENT"
    by (simp_all add: example_loop_def fd_state_init_def)
  show ?thesis by (intro exI [of _ ?H]) (simp only: dispatch_failure_loses_reader [OF p] fst_conv)
qed

text \<open>
  Removing a descriptor. \<open>remove\<close> forgets both waiters of the descriptor and nobody
  else, without resuming them: the queue, the tasks and every other waiter are as before,
  the kernel is told, and an event on the descriptor that is still in the current batch
  finds no entry and changes nothing.
\<close>

theorem remove_forgets:
  assumes "0 \<le> fd" and "fd \<noteq> wakeup_fd L"
  shows "waiting (remove H fd L) = (waiting L)(fd := (\<lambda>d. None))
     \<and> kern (remove H fd L) = snd (ctl H CTL_DEL fd 0 (kern L))
     \<and> pending (remove H fd L) = pending L \<and> tasks (remove H fd L) = tasks L
     \<and> dispatch H \<lparr>ev_events = events, ev_fd = fd\<rparr> (remove H fd L) = (None, remove H fd L)"
  using assms by (auto simp: remove_def waiting_def dispatch_def fun_eq_iff)

theorem remove_forgets_witness:
  "waiting (remove example_host 7
      (example_loop\<lparr>states := [7 \<mapsto> fd_state_init\<lparr>write_handle := Some 2\<rparr>]\<rparr>)) 7 Writable = None"
  using remove_forgets [of 7 "example_loop\<lparr>states := [7 \<mapsto> fd_state_init\<lparr>write_handle := Some 2\<rparr>]\<rparr>"
      example_host 0]
  by (simp add: example_loop_def)

definition calls_quietly where
  "calls_quietly H cs L \<longleftrightarrow>
     (\<forall>xs c ys. cs = xs @ c # ys \<longrightarrow> fst (invoke H c (fold (\<lambda>c. snd \<circ> invoke H c) xs L)) = None)"

lemma calls_quietly_Cons:
  "calls_quietly H (c # cs) L \<longleftrightarrow> fst (invoke H c L) = None \<and> calls_quietly H cs (snd (invoke H c L))"
proof
  assume q: "calls_quietly H (c # cs) L"
  have "fst (invoke H c (fold (\<lambda>c. snd \<circ> invoke H c) [] L)) = None"
    using q unfolding calls_quietly_def by blast
  moreover have "fst (invoke H d (fold (\<lambda>c. snd \<circ> invoke H c) xs (snd (invoke H c L)))) = None"
    if "cs = xs @ d # ys" for xs d ys
    using q [unfolded calls_quietly_def, rule_format, of "c # xs" d ys] that by simp
  ultimately show "fst (invoke H c L) = None \<and> calls_quietly H cs (snd (invoke H c L))"
    by (auto simp: calls_quietly_def)
next
  assume q: "fst (invoke H c L) = None \<and> calls_quietly H cs (snd (invoke H c L))"
  show "calls_quietly H (c # cs) L"
    unfolding calls_quietly_def
  proof (intro allI impI)
    fix xs d ys
    assume "c # cs = xs @ d # ys"
    then show "fst (invoke H d (fold (\<lambda>c. snd \<circ> invoke H c) xs L)) = None"
      using q by (cases xs) (auto simp: calls_quietly_def)
  qed
qed

lemma run_local_append:
  "calls_quietly H xs L \<Longrightarrow>
     run_local H (xs @ ys) L = run_local H ys (fold (\<lambda>c. snd \<circ> invoke H c) xs L)"
proof (induction xs arbitrary: L)
  case Nil
  then show ?case by simp
next
  case (Cons c xs)
  then show ?case by (cases "invoke H c L") (simp add: calls_quietly_Cons)
qed

text \<open>
  C23. Draining the queue. The callbacks posted before a drain run in the order they were
  posted, each once, on a loop whose queue is empty, so what they post waits for the next
  drain. If one throws, the exception leaves the drain with the state that callback left:
  the callbacks behind it are neither run nor in the queue any more.
\<close>

theorem drain_runs_in_order:
  assumes "calls_quietly H xs (L\<lparr>pending := []\<rparr>)"
  defines "M \<equiv> fold (\<lambda>c. snd \<circ> invoke H c) xs (L\<lparr>pending := []\<rparr>)"
  shows "(pending L = xs \<longrightarrow> drain_pending_tasks H L = (None, M))
    \<and> (\<forall>c ys e. pending L = xs @ c # ys \<and> fst (invoke H c M) = Some e
         \<longrightarrow> drain_pending_tasks H L = (Some e, snd (invoke H c M)))"
proof (intro conjI impI allI)
  assume "pending L = xs"
  then show "drain_pending_tasks H L = (None, M)"
    using run_local_append [OF assms(1), of "[]"] by (simp add: drain_pending_tasks_def M_def)
next
  fix c ys e
  assume "pending L = xs @ c # ys \<and> fst (invoke H c M) = Some e"
  then show "drain_pending_tasks H L = (Some e, snd (invoke H c M))"
    using run_local_append [OF assms(1), of "c # ys"]
    by (cases "invoke H c M") (simp add: drain_pending_tasks_def M_def)
qed

theorem drain_runs_in_order_witness:
  "drain_pending_tasks example_host (example_loop\<lparr>pending := [5, 6, 0, 7]\<rparr>) =
     (Some (Foreign 1), example_loop\<lparr>pending := [15, 16]\<rparr>)"
proof -
  let ?L = "example_loop\<lparr>pending := [5, 6, 0, 7]\<rparr>"
  have q: "calls_quietly example_host [5, 6] (?L\<lparr>pending := []\<rparr>)"
    by (simp add: calls_quietly_Cons) (simp add: calls_quietly_def)
  from drain_runs_in_order [OF q] show ?thesis by (simp add: example_loop_def)
qed

definition failures where
  "failures H L ts = List.map_filter (task_failure H L) (filter (task_is_done H L) ts)"

lemma failures_Cons:
  "failures H L (t # ts) =
     (if task_is_done H L t then (case task_failure H L t of None \<Rightarrow> [] | Some e \<Rightarrow> [e]) else [])
       @ failures H L ts"
  by (simp add: failures_def map_filter_simps split: option.split)

lemma failures_Nil [simp]: "failures H L [] = []"
  by (simp add: failures_def map_filter_simps)

lemma report_failures_log:
  assumes log: "\<And>L log. done_handle H (L\<lparr>cerr := log\<rparr>) = done_handle H L"
    "\<And>L log. failure_of H (L\<lparr>cerr := log\<rparr>) = failure_of H L"
  shows "list_all std_exception (failures H L ts) \<Longrightarrow>
     report_failures H ts L =
       (None, L\<lparr>cerr := cerr L @ map (Pair ''unhandled coroutine exception: '') (failures H L ts)\<rparr>)"
proof (induction ts arbitrary: L)
  case Nil
  then show ?case by simp
next
  case (Cons t ts)
  have same: "task_is_done H (L\<lparr>cerr := l\<rparr>) = task_is_done H L"
    "task_failure H (L\<lparr>cerr := l\<rparr>) = task_failure H L" for l
    by (auto simp: task_is_done_def task_failure_def log fun_eq_iff split: option.split)
  have "failures H (L\<lparr>cerr := l\<rparr>) = failures H L" for l
    by (simp add: failures_def same fun_eq_iff)
  note same = same this
  from Cons show ?case
    by (auto simp: failures_Cons same split: option.splits)
qed

text \<open>
  Compacting finished tasks. When the exceptions of the finished tasks are standard
  ones, each is logged, in order, exactly the finished tasks leave the vector and the others
  keep their order; nothing is thrown. An exception that is not a standard one leaves the
  operation before any task is erased.
\<close>

theorem compact_erases_finished:
  assumes "\<And>L log. done_handle H (L\<lparr>cerr := log\<rparr>) = done_handle H L"
    and "\<And>L log. failure_of H (L\<lparr>cerr := log\<rparr>) = failure_of H L"
    and "\<And>h L. tasks (destroy_handle H h L) = tasks L \<and> cerr (destroy_handle H h L) = cerr L"
    and "list_all std_exception (failures H L (tasks L))"
  shows "\<exists>L'. compact_finished_tasks H L = (None, L')
     \<and> tasks L' = filter (\<lambda>t. \<not> task_is_done H L t) (tasks L)
     \<and> cerr L' = cerr L @ map (Pair ''unhandled coroutine exception: '') (failures H L (tasks L))"
proof -
  let ?L = "L\<lparr>cerr := cerr L @ map (Pair ''unhandled coroutine exception: '') (failures H L (tasks L))\<rparr>"
  have fold: "tasks (fold (destroy_task H) ts M) = tasks M \<and> cerr (fold (destroy_task H) ts M) = cerr M"
    for ts M
    by (induction ts arbitrary: M) (auto simp: destroy_task_def assms(3) split: option.split)
  have "task_is_done H ?L = task_is_done H L"
    by (auto simp: task_is_done_def assms(1) fun_eq_iff split: option.split)
  then have "compact_finished_tasks H L = (None, erase_finished H ?L)"
    and "tasks (erase_finished H ?L) = filter (\<lambda>t. \<not> task_is_done H L t) (tasks L)"
    and "cerr (erase_finished H ?L) = cerr ?L"
    using report_failures_log [OF assms(1,2,4)]
    by (simp_all add: compact_finished_tasks_def erase_finished_def fold)
  then show ?thesis by auto
qed

theorem compact_erases_finished_witness:
  "\<exists>L'. compact_finished_tasks example_host (example_loop\<lparr>tasks := [Some 2, Some 3, None, Some 4, Some 5]\<rparr>) =
        (None, L')
     \<and> tasks L' = [Some 2, Some 4]
     \<and> cerr L' = [(''unhandled coroutine exception: '', Runtime_error ''boom'')]"
proof -
  let ?L = "example_loop\<lparr>tasks := [Some 2, Some 3, None, Some 4, Some 5]\<rparr>"
  have f: "failures example_host ?L (tasks ?L) = [Runtime_error ''boom'']"
    by (simp add: failures_Cons task_is_done_def task_failure_def)
  have "list_all std_exception (failures example_host ?L (tasks ?L))" unfolding f by simp
  from compact_erases_finished [OF _ _ _ this]
  show ?thesis unfolding f by (simp add: task_is_done_def fun_eq_iff example_loop_def)
qed

lemma before_wait_throws: "before_wait H L = (Some e, L') \<Longrightarrow> \<not> std_exception e"
  by (auto simp: before_wait_def Let_def split: prod.splits option.splits if_splits)

text \<open>
  How \<open>run\<close> ends. Whatever the coroutines and callbacks do, \<open>run\<close> returns only when the
  loop has been stopped, and the only exceptions that leave it are a failing \<open>epoll_wait\<close>
  other than an interrupted one, and exceptions that are not standard ones, raised before
  the wait.
\<close>

theorem run_ends:
  assumes "run H ws L = (out, L')"
  shows "(out = Returned () \<longrightarrow> stopped L')
    \<and> (\<forall>e. out = Threw e \<and> std_exception e \<longrightarrow>
         (\<exists>n. n \<noteq> EINTR \<and> Inl n \<in> set ws \<and> e = System_error n ''epoll_wait''))"
  using assms
proof (induction ws arbitrary: L)
  case Nil
  then show ?case
    by (subst (asm) run.simps) (auto split: if_splits prod.splits option.splits dest: before_wait_throws)
next
  case (Cons w ws)
  obtain x L1 where b: "before_wait H L = (x, L1)" by (meson surj_pair)
  with Cons.IH [of L1] Cons.IH [of "dispatch_all H (projr w) L1"] Cons.prems show ?case
    by (subst (asm) run.simps)
      (cases x; cases w; auto split: if_splits dest: before_wait_throws)
qed

theorem run_ends_witness:
  "\<exists>n. n \<noteq> EINTR \<and> Inl n \<in> {Inl EINTR, Inl EBADF :: int + epoll_event list}
     \<and> System_error EBADF ''epoll_wait'' = System_error n ''epoll_wait''"
proof -
  have b: "before_wait example_host example_loop = (None, example_loop)"
    by (simp add: before_wait_def drain_pending_tasks_def compact_finished_tasks_def erase_finished_def
        example_loop_def)
  have r: "run example_host [Inl EINTR, Inl EBADF] example_loop =
      (Threw (System_error EBADF ''epoll_wait''), example_loop)"
    by (simp add: run.simps b) (simp add: example_loop_def)
  from run_ends [OF r] show ?thesis by simp
qed

text \<open>
  Construction and destruction of a loop are balanced. A constructor that throws has
  closed every descriptor it had got; one that succeeds gives a loop with an empty table that
  is in step with the kernel, whose eventfd is registered for input, and whose destructor
  closes exactly the two descriptors.
\<close>

theorem loop_construction_balanced:
  assumes "epoll_laws H interest" and "event_loop_new H (Inr ep) evr k = (out, cl)"
    and "0 \<le> ep" and "\<forall>ev. evr = Inr ev \<longrightarrow> 0 \<le> ev"
  shows "(\<forall>e. out = Inl e \<longrightarrow> mset cl = {#ep#} + (case evr of Inl _ \<Rightarrow> {#} | Inr ev \<Rightarrow> {#ev#}))
    \<and> (\<forall>L. out = Inr L \<longrightarrow> cl = [] \<and> loop_ok interest L \<and> states L = Map.empty \<and> \<not> stopped L
         \<and> evr = Inr (wakeup_fd L) \<and> interest (kern L) (wakeup_fd L) = Some EPOLLIN
         \<and> event_loop_delete L = [wakeup_fd L, ep])"
  using assms
  by (auto simp: event_loop_new_def add_wakeup_fd_def event_loop_delete_def loop_ok_def
      dest!: epoll_lawsD(1) split: sum.splits prod.splits option.splits)

theorem loop_construction_balanced_witness:
  "\<exists>L. event_loop_new example_host (Inr 3) (Inr 4) Map.empty = (Inr L, []) \<and> event_loop_delete L = [4, 3]"
proof -
  obtain L where r: "event_loop_new example_host (Inr 3) (Inr 4) Map.empty = (Inr L, [])"
      and w: "wakeup_fd L = 4"
    by (simp add: event_loop_new_def add_wakeup_fd_def)
  have p: "0 \<le> (3 :: fd)" "\<forall>ev. (Inr 4 :: int + fd) = Inr ev \<longrightarrow> 0 \<le> ev" by simp_all
  from loop_construction_balanced [OF example_laws r p] w have "event_loop_delete L = [4, 3]" by simp
  with r show ?thesis by blast
qed

end
