(* ===== verification/Loop_Runtime.thy ===== *)
theory Loop_Runtime
  imports Loop_Spec
begin

text \<open>
  The event loop with coroutines on it: the machine of \<open>Coro_Task\<close> becomes the runtime that
  \<open>Event_Loop\<close> calls, and what a coroutine does at a suspension outside \<open>task.hpp\<close> becomes a
  call of a loop operation. So the contract \<open>loop_client\<close> is met by the code itself, for
  every program of coroutines.
\<close>

section \<open>Coroutines that use the loop\<close>

text \<open>
  The callbacks that the program posts: \<open>ThreadPool\<close> posts the resumption of a handle, and
  the \<open>main\<close> functions post the spawning of a task.
\<close>

datatype 'b callback = Cb_resume handle | Cb_spawn 'b

text \<open>
  What the awaiter or the loop operation at a resume point does: await readiness, drop a
  descriptor (the first half of \<open>close\<close>), post, spawn, stop the loop, or keep the handle
  elsewhere (the awaiter of the thread pool).
\<close>

datatype 'b outer =
    Wait direction fd bool
  | Forget fd
  | Post_callback "'b callback"
  | Spawn_task 'b
  | Stop_loop
  | Keep_handle

text \<open>The awaiter of a wait: edge-triggered or not, for one of the two directions.\<close>

fun awaiter_for :: "direction \<Rightarrow> fd \<Rightarrow> bool \<Rightarrow> readiness_awaiter" where
  "awaiter_for Readable fd et = (if et then readable_et fd else readable fd)"
| "awaiter_for Writable fd et = (if et then writable_et fd else writable fd)"

text \<open>
  \<open>owned\<close> gives the descriptors of the sockets that a frame at this resume point owns: its
  parameters die with the frame, not at the end of the body, and close them then.
\<close>

record ('b, 'v) program =
  code :: "('b, 'v) code"
  outer :: "'b \<Rightarrow> 'b outer"
  owned :: "'b \<Rightarrow> fd list"
  void_value :: 'v

record 'k kernel =
  k_ctl :: "ctl_op \<Rightarrow> fd \<Rightarrow> 32 word \<Rightarrow> 'k \<Rightarrow> int option \<times> 'k"
  k_signal :: "'k \<Rightarrow> 'k"
  k_unsignal :: "'k \<Rightarrow> 'k"

record ('k, 'b, 'v) runtime = "('b callback, 'k) event_loop" +
  mach :: "('b, 'v) machine"
  unstarted :: "handle list"   \<comment> \<open>frames at their initial suspend point\<close>

type_synonym ('k, 'b, 'v) runtime_host = "(('k, 'b, 'v) runtime, 'b callback, 'k) host"

definition alloc :: "'b \<Rightarrow> ('k, 'b, 'v) runtime \<Rightarrow> handle \<times> ('k, 'b, 'v) runtime" where
  "alloc b L =
     (let a = next_addr (mach L)
      in (a, L\<lparr>mach := (mach L)\<lparr>heap := (heap (mach L))(a \<mapsto> new_frame b), next_addr := Suc a\<rparr>,
               unstarted := a # unstarted L\<rparr>))"

definition answer :: "handle \<Rightarrow> 'v input \<Rightarrow> ('k, 'b, 'v) runtime \<Rightarrow> ('k, 'b, 'v) runtime" where
  "answer h inp L =
     L\<lparr>mach := (mach L)\<lparr>control := Some (h, inp), depth := Suc (depth (mach L)), parked := None\<rparr>\<rparr>"

text \<open>\<open>coroutine_handle::resume\<close>: from the initial suspend point, or from an awaiter.\<close>

definition enter :: "('b, 'v) program \<Rightarrow> handle \<Rightarrow> ('k, 'b, 'v) runtime \<Rightarrow> ('k, 'b, 'v) runtime" where
  "enter P h L =
     (if h \<in> set (unstarted L)
      then answer h Start (L\<lparr>unstarted := removeAll h (unstarted L)\<rparr>)
      else answer h (Resumed (Inr (void_value P))) L)"

definition destroy_frame ::
    "'k kernel \<Rightarrow> ('b, 'v) program \<Rightarrow> ('k, 'b, 'v) runtime_host \<Rightarrow> handle
       \<Rightarrow> ('k, 'b, 'v) runtime \<Rightarrow> ('k, 'b, 'v) runtime" where
  "destroy_frame K P H h L =
     (let fds = (case heap (mach L) h of None \<Rightarrow> [] | Some f \<Rightarrow> owned P (body f));
          L1 = fold (remove H) fds L
      in L1\<lparr>mach := (mach L1)\<lparr>heap := fst (task_destroy (heap (mach L1)) (Some h))\<rparr>\<rparr>)"

text \<open>
  The host of the loop, over the function \<open>go\<close> that runs the coroutine in control until
  control comes back to the loop.
\<close>

definition base_host ::
    "'k kernel \<Rightarrow> ('b, 'v) program \<Rightarrow> (('k, 'b, 'v) runtime \<Rightarrow> ('k, 'b, 'v) runtime)
       \<Rightarrow> ('k, 'b, 'v) runtime_host" where
  "base_host K P go = \<lparr>ctl = k_ctl K, signal = k_signal K, unsignal = k_unsignal K,
     resume_handle = (\<lambda>h L. go (enter P h L)),
     done_handle = (\<lambda>L h. handle_done (heap (mach L)) h),
     failure_of = (\<lambda>L h. task_exception (heap (mach L)) (Some h)),
     destroy_handle = (\<lambda>h L. L), invoke = (\<lambda>c L. (None, L))\<rparr>"

definition spawn_new ::
    "('k, 'b, 'v) runtime_host \<Rightarrow> 'b \<Rightarrow> ('k, 'b, 'v) runtime \<Rightarrow> ('k, 'b, 'v) runtime" where
  "spawn_new H b L = (case alloc b L of (a, L1) \<Rightarrow> spawn H (Some a) L1)"

definition host_with ::
    "'k kernel \<Rightarrow> ('b, 'v) program \<Rightarrow> (('k, 'b, 'v) runtime \<Rightarrow> ('k, 'b, 'v) runtime)
       \<Rightarrow> ('k, 'b, 'v) runtime_host" where
  "host_with K P go = (let H = base_host K P go in
     H\<lparr>destroy_handle := destroy_frame K P H,
       invoke := (\<lambda>c L. (None, case c of
           Cb_resume h \<Rightarrow> resume_handle H h L
         | Cb_spawn b \<Rightarrow> spawn_new H b L))\<rparr>)"

definition outer_action ::
    "('k, 'b, 'v) runtime_host \<Rightarrow> (('k, 'b, 'v) runtime \<Rightarrow> ('k, 'b, 'v) runtime)
       \<Rightarrow> ('b, 'v) program \<Rightarrow> handle \<Rightarrow> 'b \<Rightarrow> ('k, 'b, 'v) runtime \<Rightarrow> ('k, 'b, 'v) runtime" where
  "outer_action H go P h b L =
     (let return = (\<lambda>M. go (answer h (Resumed (Inr (void_value P))) M))
      in case outer P b of
           Wait d fd et \<Rightarrow> (case await_suspend_ready H (awaiter_for d fd et) h L of
               (None, L1) \<Rightarrow> L1
             | (Some e, L1) \<Rightarrow> go (answer h (Resumed (Inl e)) L1))
         | Forget fd \<Rightarrow> return (remove H fd L)
         | Post_callback c \<Rightarrow> return (post H c L)
         | Spawn_task c \<Rightarrow> return (spawn_new H c L)
         | Stop_loop \<Rightarrow> return (stop H L)
         | Keep_handle \<Rightarrow> L)"

text \<open>
  Running until control comes back: the coroutine in control takes its steps; when it is
  suspended outside \<open>task.hpp\<close>, the action of its awaiter is performed. A coroutine need not
  ever suspend, so the number of steps is bounded by fuel; with every amount of fuel the state
  reached is one that the code passes through.
\<close>

primrec drive ::
    "'k kernel \<Rightarrow> ('b, 'v) program \<Rightarrow> nat \<Rightarrow> ('k, 'b, 'v) runtime \<Rightarrow> ('k, 'b, 'v) runtime" where
  "drive K P 0 = (\<lambda>L. L)"
| "drive K P (Suc n) = (\<lambda>L. case control (mach L) of
      Some _ \<Rightarrow> (case step (code P) (mach L) of
          None \<Rightarrow> L
        | Some m \<Rightarrow> drive K P n (L\<lparr>mach := m\<rparr>))
    | None \<Rightarrow> (case parked (mach L) of
          None \<Rightarrow> L
        | Some h \<Rightarrow> (case heap (mach L) h of
              None \<Rightarrow> L
            | Some f \<Rightarrow> outer_action (host_with K P (drive K P n)) (drive K P n) P h (body f)
                          (L\<lparr>mach := (mach L)\<lparr>parked := None\<rparr>\<rparr>))))"

definition runtime_host ::
    "'k kernel \<Rightarrow> ('b, 'v) program \<Rightarrow> nat \<Rightarrow> ('k, 'b, 'v) runtime_host" where
  "runtime_host K P n = host_with K P (drive K P n)"

section \<open>The contract of the loop is met\<close>

lemma host_kernel [simp]:
  "ctl (base_host K P go) = k_ctl K" "ctl (host_with K P go) = k_ctl K"
  "signal (base_host K P go) = k_signal K" "signal (host_with K P go) = k_signal K"
  "unsignal (base_host K P go) = k_unsignal K" "unsignal (host_with K P go) = k_unsignal K"
  by (simp_all add: base_host_def host_with_def Let_def)

text \<open>The laws of epoll concern the three calls of the kernel only.\<close>

lemma epoll_laws_host:
  "epoll_laws (base_host K P go) interest \<longleftrightarrow> epoll_laws (runtime_host K Q n) interest"
  "epoll_laws (host_with K P go) interest \<longleftrightarrow> epoll_laws (runtime_host K Q n) interest"
  by (simp_all add: epoll_laws_def runtime_host_def)

lemma loop_ok_runtime [simp]:
  "loop_ok interest (L\<lparr>mach := m\<rparr>) = loop_ok interest L"
  "loop_ok interest (L\<lparr>unstarted := u\<rparr>) = loop_ok interest L"
  "loop_ok interest (answer h inp L) = loop_ok interest L"
  "loop_ok interest (enter P h L) = loop_ok interest L"
  "loop_ok interest (snd (alloc b L)) = loop_ok interest L"
  by (simp_all add: loop_ok_def answer_def enter_def alloc_def Let_def)

lemma awaiter_for_ok:
  assumes "epoll_laws H interest" and "loop_ok interest L"
  shows "loop_ok interest (snd (await_suspend_ready H (awaiter_for d fd et) h L))"
  using add_interest_ok [OF assms, of fd d h et]
  by (cases d; cases et) (simp_all add: await_suspend_ready_def add_interest_def add_interest_et_def
      readable_def writable_def readable_et_def writable_et_def)

text \<open>What running a coroutine must keep, for the operations built on it to keep it.\<close>

definition go_keeps ::
    "('k \<Rightarrow> fd \<Rightarrow> 32 word option) \<Rightarrow> (('k, 'b, 'v) runtime \<Rightarrow> ('k, 'b, 'v) runtime) \<Rightarrow> bool" where
  "go_keeps interest go \<longleftrightarrow> (\<forall>L. loop_ok interest L \<longrightarrow> loop_ok interest (go L))"

lemma go_keepsD: "go_keeps interest go \<Longrightarrow> loop_ok interest L \<Longrightarrow> loop_ok interest (go L)"
  by (simp add: go_keeps_def)

lemma spawn_new_ok:
  assumes "go_keeps interest go" and "resume_handle H = (\<lambda>h L. go (enter P h L))" and "loop_ok interest L"
  shows "loop_ok interest (spawn_new H b L)"
proof -
  obtain a L1 where a: "alloc b L = (a, L1)" by (meson surj_pair)
  have "loop_ok interest L1" using loop_ok_runtime(5) [of interest b L] assms(3) a by simp
  then show ?thesis using assms a by (simp add: spawn_new_def spawn_def task_resume_def go_keepsD)
qed

lemma host_resume [simp]:
  "resume_handle (base_host K P go) = (\<lambda>h L. go (enter P h L))"
  "resume_handle (host_with K P go) = (\<lambda>h L. go (enter P h L))"
  by (simp_all add: base_host_def host_with_def Let_def)

lemma outer_action_ok:
  assumes laws: "epoll_laws (host_with K P go) interest" and go: "go_keeps interest go"
    and ok: "loop_ok interest L"
  shows "loop_ok interest (outer_action (host_with K P go) go P h b L)"
proof (cases "outer P b")
  case (Wait d fd et)
  obtain x L1 where w: "await_suspend_ready (host_with K P go) (awaiter_for d fd et) h L = (x, L1)"
    by (meson surj_pair)
  with awaiter_for_ok [OF laws ok, of d fd et h] have "loop_ok interest L1" by simp
  with Wait w show ?thesis by (cases x) (simp_all add: outer_action_def go_keepsD [OF go])
qed (simp_all add: outer_action_def go_keepsD [OF go] ok remove_ok [OF laws] post_ok [OF laws]
    stop_ok [OF laws] spawn_new_ok [OF go host_resume(2)])

lemma drive_ok:
  assumes "epoll_laws (runtime_host K Q m) interest"
  shows "go_keeps interest (drive K P n)"
proof (induction n)
  case 0
  then show ?case by (simp add: go_keeps_def)
next
  case (Suc n)
  have "epoll_laws (host_with K P (drive K P n)) interest" using assms epoll_laws_host(2) by blast
  note act = outer_action_ok [OF this Suc]
  show ?case
    by (auto simp: go_keeps_def go_keepsD [OF Suc] act split: option.split)
qed

lemma destroy_frame_ok:
  assumes "epoll_laws H interest" and "loop_ok interest L"
  shows "loop_ok interest (destroy_frame K P H h L)"
proof -
  have "loop_ok interest M \<Longrightarrow> loop_ok interest (fold (remove H) fds M)" for fds M
    by (induction fds arbitrary: M) (simp_all add: remove_ok [OF assms(1)])
  with assms(2) show ?thesis by (simp add: destroy_frame_def Let_def)
qed

lemma runtime_destroy:
  "destroy_handle (runtime_host K P n) = destroy_frame K P (base_host K P (drive K P n))"
  by (simp add: runtime_host_def host_with_def Let_def)

lemma runtime_invoke:
  "snd (invoke (runtime_host K P n) c L) = (case c of
      Cb_resume h \<Rightarrow> drive K P n (enter P h L)
    | Cb_spawn b \<Rightarrow> spawn_new (base_host K P (drive K P n)) b L)"
  by (simp add: runtime_host_def host_with_def Let_def split: callback.split)

lemma runtime_keeps:
  assumes laws: "epoll_laws (runtime_host K P n) interest" and ok: "loop_ok interest L"
  shows "loop_ok interest (resume_handle (runtime_host K P n) h L)"
    and "loop_ok interest (snd (invoke (runtime_host K P n) c L))"
    and "loop_ok interest (destroy_handle (runtime_host K P n) h L)"
proof -
  have go: "go_keeps interest (drive K P n)" by (rule drive_ok [OF laws])
  have base: "epoll_laws (base_host K P (drive K P n)) interest" using laws epoll_laws_host(1) by blast
  show "loop_ok interest (resume_handle (runtime_host K P n) h L)"
    by (simp add: runtime_host_def go_keepsD [OF go] ok)
  show "loop_ok interest (snd (invoke (runtime_host K P n) c L))"
    by (simp add: runtime_invoke go_keepsD [OF go] ok spawn_new_ok [OF go host_resume(1)] split: callback.split)
  show "loop_ok interest (destroy_handle (runtime_host K P n) h L)"
    unfolding runtime_destroy by (rule destroy_frame_ok [OF base ok])
qed

interpretation coroutine_loop: loop_client "runtime_host K P n" for K P n
  by unfold_locales (simp_all add: runtime_keeps)

text \<open>
  C5. The table of the loop and the kernel stay in step. For every program of coroutines,
  every kernel that keeps the documented laws of \<open>epoll_ctl\<close>, failing calls included, and all
  answers of \<open>epoll_wait\<close>: whatever the coroutines await, close, post and spawn and whatever
  they throw, when \<open>run\<close> waits, returns or throws, every descriptor in the table is registered
  in the kernel for everything its coroutines wait for, and has a coroutine that waits. No
  coroutine in the table waits for an event that the kernel would not report.
\<close>

theorem registrations_stay_armed:
  assumes "epoll_laws (runtime_host K P n) interest" and "loop_ok interest L"
  shows "loop_ok interest (snd (run (runtime_host K P n) ws L))"
  by (rule coroutine_loop.run_keeps [OF assms])

definition example_kernel :: "interest_list kernel" where
  "example_kernel = \<lparr>k_ctl = list_ctl, k_signal = id, k_unsignal = id\<rparr>"

text \<open>
  A coroutine that waits for input on its socket 7, closes it and returns, at the moment it
  waits.
\<close>

definition example_program :: "(nat, unit) program" where
  "example_program = \<lparr>code = (\<lambda>b _. if b < 2 then Co_suspend (Suc b) else Co_return ()),
     outer = (\<lambda>b. if b = 1 then Wait Readable 7 False else Forget 7), owned = (\<lambda>b. []), void_value = ()\<rparr>"

definition example_runtime :: "(interest_list, nat, unit) runtime" where
  "example_runtime = \<lparr>epoll_fd = 3, wakeup_fd = 4, stopped = False,
     states = [7 \<mapsto> \<lparr>read_handle = Some 0, write_handle = None, edge_trigger = False\<rparr>], tasks = [Some 0],
     pending = [], kern = [4 \<mapsto> EPOLLIN, 7 \<mapsto> EPOLLIN OR EPOLLOUT], cerr = [],
     mach = \<lparr>heap = [0 \<mapsto> (new_frame 1)], next_addr = 1, control = None, depth = 0, parked = None\<rparr>,
     unstarted = []\<rparr>"

theorem registrations_stay_armed_witness:
  "loop_ok (\<lambda>k. k) (snd (run (runtime_host example_kernel example_program 9)
     [Inr [\<lparr>ev_events = EPOLLIN, ev_fd = 7\<rparr>], Inr []] example_runtime))"
proof -
  have c: "ctl (runtime_host example_kernel example_program 9) = list_ctl"
    "signal (runtime_host example_kernel example_program 9) = id"
    "unsignal (runtime_host example_kernel example_program 9) = id"
    by (simp_all add: runtime_host_def example_kernel_def)
  have laws: "epoll_laws (runtime_host example_kernel example_program 9) (\<lambda>k. k)"
    unfolding epoll_laws_def c by (auto simp: fun_eq_iff split: option.splits)
  have ok: "loop_ok (\<lambda>k. k) example_runtime"
    by (simp add: loop_ok_def example_runtime_def registered_def armed_def active_events_def)
  show ?thesis by (rule registrations_stay_armed [OF laws ok])
qed

end
