(* ===== verification/Fifo_Executor.thy ===== *)
theory Fifo_Executor
  imports Coro_Prelude
begin

text \<open>
  The contract of a queue of work between threads. The event loop (\<open>post\<close> and the drains)
  and the thread pool (\<open>enqueue\<close> and the workers) both promise it: work is accepted at the
  back, taken from the front, and never comes back. The locale derives what a caller relies
  on in every interleaving.
\<close>

locale fifo_executor =
  fixes stp :: "'s \<Rightarrow> 's \<Rightarrow> bool"
    and reach :: "'s \<Rightarrow> bool"
    and accepted taken waiting :: "'s \<Rightarrow> 'j list"
  assumes reach_step: "reach s \<Longrightarrow> stp s t \<Longrightarrow> reach t"
    and conserve: "reach s \<Longrightarrow> accepted s = taken s @ waiting s"
    and accepted_grows: "reach s \<Longrightarrow> stp s t \<Longrightarrow> prefix (accepted s) (accepted t)"
    and taken_grows: "reach s \<Longrightarrow> stp s t \<Longrightarrow> prefix (taken s) (taken t)"
begin

lemma steps_grow:
  "stp\<^sup>*\<^sup>* s t \<Longrightarrow> reach s \<Longrightarrow>
     reach t \<and> prefix (accepted s) (accepted t) \<and> prefix (taken s) (taken t)"
proof (induction rule: rtranclp_induct)
  case base
  then show ?case by simp
next
  case (step t u)
  then have t: "reach t" "prefix (accepted s) (accepted t)" "prefix (taken s) (taken t)" by auto
  with step(2) reach_step accepted_grows taken_grows show ?case
    by (meson prefix_order.trans)
qed

lemma taken_in_order: "reach s \<Longrightarrow> prefix (taken s) (accepted s)"
  by (simp add: conserve prefix_def)

lemma taken_once: "reach s \<Longrightarrow> distinct (accepted s) \<Longrightarrow> distinct (taken s)"
  using conserve by fastforce

lemma later_order:
  assumes "stp\<^sup>*\<^sup>* s t" and "reach s" and "i < length (accepted s)" and "i < length (taken t)"
  shows "taken t ! i = accepted s ! i"
proof -
  from steps_grow [OF assms(1,2)] have g: "reach t" "prefix (accepted s) (accepted t)" by auto
  then obtain ys where "accepted t = accepted s @ ys" by (auto simp: prefix_def)
  moreover have "accepted t = taken t @ waiting t" by (rule conserve [OF g(1)])
  ultimately have "(taken t @ waiting t) ! i = (accepted s @ ys) ! i" by simp
  with assms(3,4) show ?thesis by (simp add: nth_append)
qed

lemma drained_all:
  assumes "stp\<^sup>*\<^sup>* s t" and "reach s" and "waiting t = []"
  shows "prefix (accepted s) (taken t)"
  using steps_grow [OF assms(1,2)] conserve [of t] assms(3) by simp

end

end
