(* ===== verification/Loop_Wakeup.thy ===== *)
theory Loop_Wakeup
  imports Event_Loop Fifo_Executor
begin

text \<open>
  \<open>include/coro_epoll/event_loop.hpp\<close> across threads: \<open>post\<close> and \<open>stop\<close> are called from any
  thread while the loop thread is in \<open>run\<close>. The steps below are the atomic actions of
  \<open>post\<close>, \<open>stop\<close>, \<open>wakeup\<close>, \<open>run\<close>, \<open>drain_pending_tasks\<close> and \<open>drain_wakeup_fd\<close> on what they
  share: the queue under its mutex, the atomic flag, and the counter of the eventfd. They
  interleave in any order. File descriptors other than the eventfd appear only as a return
  of \<open>epoll_wait\<close> for another reason.
\<close>

section \<open>State and steps\<close>

text \<open>
  The loop thread stands before the test of \<open>stopped_\<close>, before the swap of a drain, in the
  loop over the swapped queue, in \<open>epoll_wait\<close>, or in the loop of \<open>drain_wakeup_fd\<close>; the flag
  of \<open>At_swap\<close> and \<open>Running\<close> says whether the drain is the one in \<open>dispatch\<close>.
\<close>

datatype loop_pc = At_check | At_swap bool | Running bool | Waiting | At_read | Exited

text \<open>
  \<open>post_lock\<close>: the mutex is held by a \<open>post\<close> that has pushed and not yet signalled.
  \<open>stopping\<close>: the calls of \<open>stop\<close> that have set the flag and not yet signalled.
  \<open>posted\<close> and \<open>handled\<close> are history: what was pushed, and what was taken from a swapped
  queue, with \<open>True\<close> if it was run and \<open>False\<close> if it was destroyed with the queue.
\<close>

record 'c wstate =
  pc :: loop_pc
  queue :: "'c list"
  batch :: "'c list"
  stop_flag :: bool
  efd :: nat
  post_lock :: bool
  stopping :: nat
  posted :: "'c list"
  handled :: "('c \<times> bool) list"

definition wstart :: "'c wstate" where
  "wstart = \<lparr>pc = At_check, queue = [], batch = [], stop_flag = False, efd = 0,
             post_lock = False, stopping = 0, posted = [], handled = []\<rparr>"

text \<open>
  \<open>write\<close> of 1 to the eventfd: a counter at its maximum makes the call fail with EAGAIN, and
  \<open>wakeup\<close> gives up; the counter stays readable.
\<close>

definition efd_max :: nat where
  "efd_max = 2 ^ 64 - 2"

definition bump :: "nat \<Rightarrow> nat" where
  "bump n = (if n = efd_max then n else Suc n)"

inductive wstep :: "'c wstate \<Rightarrow> 'c wstate \<Rightarrow> bool" where
  post_push: "\<not> post_lock s \<Longrightarrow>
     wstep s (s\<lparr>queue := queue s @ [c], post_lock := True, posted := posted s @ [c]\<rparr>)"
| post_signal: "post_lock s \<Longrightarrow> wstep s (s\<lparr>efd := bump (efd s), post_lock := False\<rparr>)"
| stop_set: "wstep s (s\<lparr>stop_flag := True, stopping := Suc (stopping s)\<rparr>)"
| stop_signal: "stopping s > 0 \<Longrightarrow> wstep s (s\<lparr>efd := bump (efd s), stopping := stopping s - 1\<rparr>)"
| check_go: "pc s = At_check \<Longrightarrow> \<not> stop_flag s \<Longrightarrow> wstep s (s\<lparr>pc := At_swap False\<rparr>)"
| check_exit: "pc s = At_check \<Longrightarrow> stop_flag s \<Longrightarrow> wstep s (s\<lparr>pc := Exited\<rparr>)"
| swap: "pc s = At_swap d \<Longrightarrow> \<not> post_lock s \<Longrightarrow>
     wstep s (s\<lparr>pc := Running d, queue := [], batch := queue s\<rparr>)"
| call: "pc s = Running d \<Longrightarrow> batch s = c # cs \<Longrightarrow>
     wstep s (s\<lparr>batch := cs, handled := handled s @ [(c, True)]\<rparr>)"
| call_throws: "pc s = Running d \<Longrightarrow> batch s = c # cs \<Longrightarrow>
     wstep s (s\<lparr>batch := [], handled := handled s @ (c, True) # map (\<lambda>c. (c, False)) cs\<rparr>)"
| batch_done: "pc s = Running d \<Longrightarrow> batch s = [] \<Longrightarrow>
     wstep s (s\<lparr>pc := (if d then At_check else Waiting)\<rparr>)"
| wait_wakeup: "pc s = Waiting \<Longrightarrow> efd s > 0 \<Longrightarrow> wstep s (s\<lparr>pc := At_read\<rparr>)"
| wait_other: "pc s = Waiting \<Longrightarrow> wstep s (s\<lparr>pc := At_check\<rparr>)"
| read_some: "pc s = At_read \<Longrightarrow> efd s > 0 \<Longrightarrow> wstep s (s\<lparr>efd := 0\<rparr>)"
| read_none: "pc s = At_read \<Longrightarrow> efd s = 0 \<Longrightarrow> wstep s (s\<lparr>pc := At_swap True\<rparr>)"

inductive_cases wstepE: "wstep s t"

inductive wreach :: "'c wstate \<Rightarrow> bool" where
  wreach_start: "wreach wstart"
| wreach_step: "wreach s \<Longrightarrow> wstep s t \<Longrightarrow> wreach t"

text \<open>\<open>epoll_wait\<close> sleeps: no signal, and nobody who is about to send one.\<close>

definition asleep :: "'c wstate \<Rightarrow> bool" where
  "asleep s \<longleftrightarrow> pc s = Waiting \<and> efd s = 0 \<and> \<not> post_lock s \<and> stopping s = 0"

section \<open>The invariant\<close>

text \<open>
  Between a swap and the wait, whatever is pushed is followed by a signal that nobody takes
  back: the counter is only reset on the way to another swap. The same holds for the flag
  between its test and the wait.
\<close>

definition wake_inv :: "'c wstate \<Rightarrow> bool" where
  "wake_inv s \<longleftrightarrow>
     (queue s \<noteq> [] \<and> pc s \<in> {Running False, Waiting} \<longrightarrow> efd s > 0 \<or> post_lock s)
   \<and> (stop_flag s \<and> pc s \<in> {At_swap False, Running False, Waiting} \<longrightarrow> efd s > 0 \<or> stopping s > 0)
   \<and> (batch s \<noteq> [] \<longrightarrow> (\<exists>d. pc s = Running d))
   \<and> posted s = map fst (handled s) @ batch s @ queue s
   \<and> (pc s = Exited \<longrightarrow> stop_flag s)
   \<and> efd s \<le> efd_max"

lemma bump_pos [simp]: "bump n > 0"
  by (simp add: bump_def efd_max_def)

lemma bump_le: "n \<le> efd_max \<Longrightarrow> bump n \<le> efd_max"
  by (simp add: bump_def)

lemma wake_inv_step: "wstep s t \<Longrightarrow> wake_inv s \<Longrightarrow> wake_inv t"
  by (induction rule: wstep.induct) (auto simp: wake_inv_def bump_le comp_def)

lemma wake_inv_reach: "wreach s \<Longrightarrow> wake_inv s"
  by (induction rule: wreach.induct) (auto simp: wake_inv_step, simp add: wake_inv_def wstart_def)

lemma wstep_grows: "wstep s t \<Longrightarrow> prefix (posted s) (posted t) \<and> prefix (handled s) (handled t)"
  by (induction rule: wstep.induct) auto

interpretation loop_queue: fifo_executor wstep wreach posted "\<lambda>s. map fst (handled s)" "\<lambda>s. batch s @ queue s"
proof
  show "wreach s \<Longrightarrow> wstep s t \<Longrightarrow> wreach t" for s t :: "'a wstate"
    by (rule wreach_step)
  show "wreach s \<Longrightarrow> posted s = map fst (handled s) @ batch s @ queue s" for s :: "'a wstate"
    using wake_inv_reach [of s] by (simp add: wake_inv_def)
qed (simp_all add: wstep_grows map_mono_prefix)

section \<open>The loop thread comes to rest\<close>

text \<open>
  The next step of the loop thread when nothing else wakes it and no callback throws; none
  when it sleeps, has returned, or waits for the mutex.
\<close>

definition loop_step :: "'c wstate \<Rightarrow> 'c wstate option" where
  "loop_step s = (case pc s of
      At_check \<Rightarrow> Some (if stop_flag s then s\<lparr>pc := Exited\<rparr> else s\<lparr>pc := At_swap False\<rparr>)
    | At_swap d \<Rightarrow> (if post_lock s then None else Some (s\<lparr>pc := Running d, queue := [], batch := queue s\<rparr>))
    | Running d \<Rightarrow> (case batch s of
          [] \<Rightarrow> Some (s\<lparr>pc := (if d then At_check else Waiting)\<rparr>)
        | c # cs \<Rightarrow> Some (s\<lparr>batch := cs, handled := handled s @ [(c, True)]\<rparr>))
    | Waiting \<Rightarrow> (if efd s > 0 then Some (s\<lparr>pc := At_read\<rparr>) else None)
    | At_read \<Rightarrow> Some (if efd s > 0 then s\<lparr>efd := 0\<rparr> else s\<lparr>pc := At_swap True\<rparr>)
    | Exited \<Rightarrow> None)"

fun loop_steps :: "nat \<Rightarrow> 'c wstate \<Rightarrow> 'c wstate" where
  "loop_steps 0 s = s"
| "loop_steps (Suc n) s = (case loop_step s of None \<Rightarrow> s | Some t \<Rightarrow> loop_steps n t)"

lemma loop_step_wstep: "loop_step s = Some t \<Longrightarrow> wstep s t"
  using batch_done [of s True] batch_done [of s False]
  by (auto simp: loop_step_def split: loop_pc.splits list.splits if_splits intro: wstep.intros)

definition todo :: "'c wstate \<Rightarrow> nat" where
  "todo s = (let q = length (queue s); b = length (batch s); late = (if efd s > 0 then 8 else 0) in
     (case pc s of
        Exited \<Rightarrow> 0
      | Waiting \<Rightarrow> (if efd s > 0 then 8 + q else 0)
      | Running d \<Rightarrow> (if d then 4 + q + b + late else 1 + b + (if efd s > 0 then 8 + q else 0))
      | At_swap d \<Rightarrow> (if d then 5 else 2) + q + late
      | At_check \<Rightarrow> 3 + q + late
      | At_read \<Rightarrow> (if efd s > 0 then 7 + q else 6 + q)))"

lemma loop_step_todo: "loop_step s = Some t \<Longrightarrow> wake_inv s \<Longrightarrow> todo t < todo s"
  by (cases "pc s"; cases "batch s")
    (auto simp: loop_step_def todo_def wake_inv_def Let_def split: if_splits)

lemma todo_bound: "todo s \<le> 13 + length (queue s) + length (batch s)"
  by (auto simp: todo_def Let_def split: loop_pc.split)

lemma loop_step_alone:
  "loop_step s = Some t \<Longrightarrow> post_lock t = post_lock s \<and> stopping t = stopping s \<and> stop_flag t = stop_flag s
     \<and> posted t = posted s \<and> prefix (handled s) (handled t)"
  by (auto simp: loop_step_def split: loop_pc.splits list.splits if_splits)

lemma loop_steps_rest:
  assumes "wreach s" and "\<not> post_lock s" and "stopping s = 0"
  shows "\<exists>n \<le> todo s. let t = loop_steps n s in wreach t \<and> (asleep t \<or> pc t = Exited)
    \<and> stop_flag t = stop_flag s \<and> posted t = posted s \<and> prefix (handled s) (handled t)"
  using assms
proof (induction "todo s" arbitrary: s rule: less_induct)
  case less
  show ?case
  proof (cases "loop_step s")
    case None
    then have "asleep s \<or> pc s = Exited"
      using less by (auto simp: loop_step_def asleep_def split: loop_pc.splits list.splits if_splits)
    with less show ?thesis by (intro exI [of _ 0]) simp
  next
    case (Some t)
    have lt: "todo t < todo s" by (rule loop_step_todo [OF Some wake_inv_reach [OF less(2)]])
    have t: "wreach t" using less(2) loop_step_wstep [OF Some] by (rule wreach_step)
    note alone = loop_step_alone [OF Some]
    from less(1) [OF lt t] alone less obtain n where n: "n \<le> todo t" and
      r: "let u = loop_steps n t in wreach u \<and> (asleep u \<or> pc u = Exited)
        \<and> stop_flag u = stop_flag t \<and> posted u = posted t \<and> prefix (handled t) (handled u)" by auto
    have "loop_steps (Suc n) s = loop_steps n t" by (simp add: Some)
    with n r alone lt show ?thesis
      by (intro exI [of _ "Suc n"]) (auto simp: Let_def intro: prefix_order.trans)
  qed
qed

lemma wreach_loop_steps: "wreach s \<Longrightarrow> wreach (loop_steps n s)"
  by (induction n arbitrary: s) (auto split: option.split dest: loop_step_wstep intro: wreach_step)

lemma wsteps_loop: "wstep\<^sup>*\<^sup>* s (loop_steps n s)"
proof (induction n arbitrary: s)
  case (Suc n)
  show ?case
  proof (cases "loop_step s")
    case (Some t)
    with Suc [of t] loop_step_wstep [OF Some] show ?thesis
      by (simp add: converse_rtranclp_into_rtranclp)
  qed simp
qed simp

section \<open>Properties\<close>

text \<open>A loop to which \<open>c\<close> and \<open>d\<close> have been posted before the thread of \<open>run\<close> begins.\<close>

definition example_posts :: "nat wstate" where
  "example_posts = wstart\<lparr>queue := [5, 6], posted := [5, 6], efd := 2\<rparr>"

lemma example_posts_reach: "wreach example_posts"
proof -
  have post: "wreach (s\<lparr>queue := queue s @ [c], posted := posted s @ [c], efd := bump (efd s),
      post_lock := False\<rparr>)" if "wreach s" and "\<not> post_lock s" for s :: "nat wstate" and c
  proof -
    have "wreach (s\<lparr>queue := queue s @ [c], post_lock := True, posted := posted s @ [c]\<rparr>)"
      by (rule wreach_step [OF that(1) post_push [OF that(2)]])
    then have "wreach ((s\<lparr>queue := queue s @ [c], post_lock := True, posted := posted s @ [c]\<rparr>)
        \<lparr>efd := bump (efd s), post_lock := False\<rparr>)"
      by (rule wreach_step) (use post_signal [of "s\<lparr>queue := queue s @ [c], post_lock := True,
          posted := posted s @ [c]\<rparr>"] in simp)
    then show ?thesis by simp
  qed
  have bumps: "bump 0 = 1" "bump 1 = 2" by (simp_all add: bump_def efd_max_def)
  have one: "wreach (wstart\<lparr>queue := [5 :: nat], posted := [5], efd := 1\<rparr>)"
    using post [OF wreach_start, of 5] bumps by (simp add: wstart_def)
  show ?thesis
    using post [OF one, of 6] bumps by (simp add: wstart_def example_posts_def)
qed

lemmas example_steps = numeral_eq_Suc loop_step_def example_posts_def wstart_def

text \<open>
  C4. No wakeup is lost. In every interleaving of posts, stops and the loop thread: when the
  loop sleeps in \<open>epoll_wait\<close>, with no \<open>post\<close> or \<open>stop\<close> between its change and its signal,
  then the queue is empty, every callback that was ever posted has been taken out of it, and
  nobody has asked the loop to stop.
\<close>

theorem no_lost_wakeup:
  assumes "wreach s" and "asleep s"
  shows "queue s = [] \<and> posted s = map fst (handled s) \<and> \<not> stop_flag s"
  using wake_inv_reach [OF assms(1)] assms(2) by (auto simp: wake_inv_def asleep_def)

text \<open>
  Callbacks are handled in order and at most once. In every interleaving the callbacks
  taken so far, those of the current batch and those in the queue are, in this order, exactly
  the callbacks posted so far, and the order is final: the callback posted as number \<open>i\<close> is
  the one taken as number \<open>i\<close>, however the threads go on.
\<close>

theorem posted_in_order:
  assumes "wreach s" and "wstep\<^sup>*\<^sup>* s t"
  shows "posted s = map fst (handled s) @ batch s @ queue s
    \<and> (\<forall>i. i < length (posted s) \<and> i < length (handled t) \<longrightarrow> fst (handled t ! i) = posted s ! i)"
  using wake_inv_reach [OF assms(1)] loop_queue.later_order [OF assms(2,1)] by (auto simp: wake_inv_def)

text \<open>
  C8. A post or a stop takes effect. From every state that the threads can reach with no
  \<open>post\<close> or \<open>stop\<close> in progress, the loop thread on its own comes to rest after a bounded
  number of steps: if somebody has called \<open>stop\<close>, \<open>run\<close> has returned; otherwise it sleeps
  and every posted callback has been taken, in order.
\<close>

theorem loop_takes_effect:
  assumes "wreach s" and "\<not> post_lock s" and "stopping s = 0"
  shows "\<exists>n \<le> 13 + length (queue s) + length (batch s). let t = loop_steps n s in
    (if stop_flag s then pc t = Exited
     else asleep t \<and> map fst (handled t) = posted s \<and> prefix (handled s) (handled t))"
proof -
  from loop_steps_rest [OF assms] obtain n where n: "n \<le> todo s" and
    r: "wreach (loop_steps n s)" "asleep (loop_steps n s) \<or> pc (loop_steps n s) = Exited"
      "stop_flag (loop_steps n s) = stop_flag s" "posted (loop_steps n s) = posted s"
      "prefix (handled s) (handled (loop_steps n s))" by (auto simp: Let_def)
  have "asleep (loop_steps n s) \<longrightarrow> \<not> stop_flag s \<and> posted s = map fst (handled (loop_steps n s))"
    using wake_inv_reach [OF r(1)] r(3,4) by (auto simp: wake_inv_def asleep_def)
  moreover have "pc (loop_steps n s) = Exited \<longrightarrow> stop_flag s"
    using wake_inv_reach [OF r(1)] r(3) by (simp add: wake_inv_def)
  ultimately show ?thesis
    using n r todo_bound [of s] by (intro exI [of _ n]) (auto simp: Let_def)
qed

theorem no_lost_wakeup_witness:
  "posted (loop_steps 13 example_posts) = [5, 6] \<and> handled (loop_steps 13 example_posts) = [(5, True), (6, True)]
   \<and> \<not> stop_flag (loop_steps 13 example_posts)"
proof -
  have "asleep (loop_steps 13 example_posts)" by (simp add: asleep_def example_steps)
  note r = no_lost_wakeup [OF wreach_loop_steps [OF example_posts_reach] this]
  have "handled (loop_steps 13 example_posts) = [(5, True), (6, True)]" by (simp add: example_steps)
  with r show ?thesis by simp
qed

theorem posted_in_order_witness:
  "[5, 6] = map fst [(5 :: nat, True)] @ batch (loop_steps 3 example_posts) @ queue (loop_steps 3 example_posts)
   \<and> fst (handled (loop_steps 13 example_posts) ! 1) = 6"
proof -
  have h: "posted (loop_steps 3 example_posts) = [5, 6]" "handled (loop_steps 3 example_posts) = [(5, True)]"
    "length (handled (loop_steps 13 example_posts)) = 2"
    by (simp_all add: example_steps)
  have "wstep\<^sup>*\<^sup>* (loop_steps 3 example_posts) (loop_steps 10 (loop_steps 3 example_posts))"
    by (rule wsteps_loop)
  also have "loop_steps 10 (loop_steps 3 example_posts) = loop_steps 13 example_posts"
    by (simp add: example_steps)
  finally have "wstep\<^sup>*\<^sup>* (loop_steps 3 example_posts) (loop_steps 13 example_posts)" .
  note r = posted_in_order [OF wreach_loop_steps [OF example_posts_reach] this]
  have "fst (handled (loop_steps 13 example_posts) ! 1) = posted (loop_steps 3 example_posts) ! 1"
    using conjunct2 [OF r] h by simp
  then have "fst (handled (loop_steps 13 example_posts) ! 1) = 6" unfolding h(1) by simp
  moreover have "[5, 6] = map fst [(5 :: nat, True)] @ batch (loop_steps 3 example_posts) @ queue (loop_steps 3 example_posts)"
    using conjunct1 [OF r] unfolding h .
  ultimately show ?thesis by blast
qed

theorem loop_takes_effect_witness:
  "\<exists>n \<le> 15. asleep (loop_steps n example_posts) \<and> map fst (handled (loop_steps n example_posts)) = [5, 6]"
proof -
  have e: "\<not> post_lock example_posts" "stopping example_posts = 0" "\<not> stop_flag example_posts"
    "posted example_posts = [5, 6]" "queue example_posts = [5, 6]" "batch example_posts = []"
    by (simp_all add: example_posts_def wstart_def)
  from loop_takes_effect [OF example_posts_reach e(1,2)] show ?thesis by (auto simp: e Let_def)
qed

section \<open>The operations of one thread are such steps\<close>

text \<open>
  The view of a loop of \<open>Event_Loop\<close> as a state of this theory: \<open>cnt k\<close> is the counter of its
  eventfd in kernel state \<open>k\<close>, and the history is that of what is in the queue.
\<close>

definition wview :: "('k \<Rightarrow> nat) \<Rightarrow> loop_pc \<Rightarrow> ('c, 'k, 'z) event_loop_scheme \<Rightarrow> 'c wstate" where
  "wview cnt p L = \<lparr>pc = p, queue = pending L, batch = [], stop_flag = stopped L, efd = cnt (kern L),
     post_lock = False, stopping = 0, posted = pending L, handled = []\<rparr>"

definition eventfd_laws :: "('s, 'c, 'k) host \<Rightarrow> ('k \<Rightarrow> nat) \<Rightarrow> bool" where
  "eventfd_laws H cnt \<longleftrightarrow> (\<forall>k. cnt (signal H k) = bump (cnt k) \<and> cnt (unsignal H k) = 0)"

text \<open>
  The sequential \<open>post\<close>, \<open>stop\<close> and \<open>drain_wakeup_fd\<close> refine into the atomic steps: seen as
  states of the interleaving, what each does to the loop is what its steps do one after the
  other.
\<close>

theorem loop_operations_are_steps:
  assumes "eventfd_laws H cnt" and "0 \<le> wakeup_fd L"
  shows "wstep\<^sup>*\<^sup>* (wview cnt p L) (wview cnt p (post H c L))
    \<and> wstep\<^sup>*\<^sup>* (wview cnt p L) (wview cnt p (stop H L))
    \<and> wstep\<^sup>*\<^sup>* (wview cnt At_read L) (wview cnt (At_swap True) (drain_wakeup_fd H L))"
proof (intro conjI)
  let ?s = "wview cnt p L"
  let ?m = "?s\<lparr>queue := queue ?s @ [c], post_lock := True, posted := posted ?s @ [c]\<rparr>"
  have "wstep ?s ?m" by (rule post_push) (simp add: wview_def)
  moreover have "wstep ?m (?m\<lparr>efd := bump (efd ?m), post_lock := False\<rparr>)" by (rule post_signal) simp
  moreover have "?m\<lparr>efd := bump (efd ?m), post_lock := False\<rparr> = wview cnt p (post H c L)"
    using assms by (simp add: wview_def post_def wakeup_def eventfd_laws_def)
  ultimately show "wstep\<^sup>*\<^sup>* ?s (wview cnt p (post H c L))" by (metis rtranclp.simps)
next
  let ?s = "wview cnt p L"
  let ?m = "?s\<lparr>stop_flag := True, stopping := Suc (stopping ?s)\<rparr>"
  have "wstep ?s ?m" by (rule stop_set)
  moreover have "wstep ?m (?m\<lparr>efd := bump (efd ?m), stopping := stopping ?m - 1\<rparr>)" by (rule stop_signal) simp
  moreover have "?m\<lparr>efd := bump (efd ?m), stopping := stopping ?m - 1\<rparr> = wview cnt p (stop H L)"
    using assms by (simp add: wview_def stop_def wakeup_def eventfd_laws_def)
  ultimately show "wstep\<^sup>*\<^sup>* ?s (wview cnt p (stop H L))" by (metis rtranclp.simps)
next
  let ?s = "wview cnt At_read L"
  let ?m = "?s\<lparr>efd := 0\<rparr>"
  have "wstep\<^sup>*\<^sup>* ?s ?m"
  proof (cases "efd ?s > 0")
    case True
    then have "wstep ?s ?m" by (intro read_some) (simp_all add: wview_def)
    then show ?thesis by blast
  next
    case False
    then have "?m = ?s" by (simp add: wview_def)
    then show ?thesis by simp
  qed
  moreover have "wstep ?m (?m\<lparr>pc := At_swap True\<rparr>)" by (rule read_none) (simp_all add: wview_def)
  moreover have "?m\<lparr>pc := At_swap True\<rparr> = wview cnt (At_swap True) (drain_wakeup_fd H L)"
    using assms by (simp add: wview_def drain_wakeup_fd_def eventfd_laws_def)
  ultimately show "wstep\<^sup>*\<^sup>* ?s (wview cnt (At_swap True) (drain_wakeup_fd H L))"
    by (metis rtranclp.rtrancl_into_rtrancl)
qed

definition counter_host :: "(nat, nat, unit) loop_host" where
  "counter_host = \<lparr>ctl = (\<lambda>op fd ev k. (None, k)), signal = bump, unsignal = (\<lambda>k. 0),
     resume_handle = (\<lambda>h L. L), done_handle = (\<lambda>L h. False), failure_of = (\<lambda>L h. None),
     destroy_handle = (\<lambda>h L. L), invoke = (\<lambda>c L. (None, L))\<rparr>"

definition counter_loop :: "(nat, nat) event_loop" where
  "counter_loop = \<lparr>epoll_fd = 3, wakeup_fd = 4, stopped = False, states = Map.empty, tasks = [],
     pending = [5], kern = 1, cerr = []\<rparr>"

theorem loop_operations_are_steps_witness:
  "wstep\<^sup>*\<^sup>* (wview (\<lambda>k. k) Waiting counter_loop) (wview (\<lambda>k. k) Waiting (post counter_host 6 counter_loop))"
proof -
  have l: "eventfd_laws counter_host (\<lambda>k. k)" by (simp add: eventfd_laws_def counter_host_def)
  have w: "0 \<le> wakeup_fd counter_loop" by (simp add: counter_loop_def)
  from loop_operations_are_steps [OF l w] show ?thesis by blast
qed

end
