(* ===== verification/Pipe_Wakeup.thy ===== *)
theory Pipe_Wakeup
  imports Loop_Wakeup
begin

text \<open>
  The wakeup of the macOS branch: \<open>wakeup\<close> writes one byte into a pipe, \<open>drain_wakeup_fd\<close> reads
  up to 64 bytes at a time until the pipe is empty. The steps of \<open>Loop_Wakeup\<close> are stated
  again over what a write and a read do to the number of bytes that can be read; a locale
  says what the protocol needs of the two, and both the pipe and the eventfd provide it.
\<close>

section \<open>Steps over a channel\<close>

text \<open>
  \<open>put n\<close> is what can be read after a write to a channel that holds \<open>n\<close>, \<open>get n\<close> what is left
  by a read of one that is not empty.
\<close>

inductive chan_step :: "(nat \<Rightarrow> nat) \<Rightarrow> (nat \<Rightarrow> nat) \<Rightarrow> 'c wstate \<Rightarrow> 'c wstate \<Rightarrow> bool" for put get where
  chan_push: "\<not> post_lock s \<Longrightarrow>
     chan_step put get s (s\<lparr>queue := queue s @ [c], post_lock := True, posted := posted s @ [c]\<rparr>)"
| chan_signal: "post_lock s \<Longrightarrow> chan_step put get s (s\<lparr>efd := put (efd s), post_lock := False\<rparr>)"
| chan_stop_set: "chan_step put get s (s\<lparr>stop_flag := True, stopping := Suc (stopping s)\<rparr>)"
| chan_stop_signal: "stopping s > 0 \<Longrightarrow>
     chan_step put get s (s\<lparr>efd := put (efd s), stopping := stopping s - 1\<rparr>)"
| chan_go: "pc s = At_check \<Longrightarrow> \<not> stop_flag s \<Longrightarrow> chan_step put get s (s\<lparr>pc := At_swap False\<rparr>)"
| chan_exit: "pc s = At_check \<Longrightarrow> stop_flag s \<Longrightarrow> chan_step put get s (s\<lparr>pc := Exited\<rparr>)"
| chan_swap: "pc s = At_swap d \<Longrightarrow> \<not> post_lock s \<Longrightarrow>
     chan_step put get s (s\<lparr>pc := Running d, queue := [], batch := queue s\<rparr>)"
| chan_call: "pc s = Running d \<Longrightarrow> batch s = c # cs \<Longrightarrow>
     chan_step put get s (s\<lparr>batch := cs, handled := handled s @ [(c, True)]\<rparr>)"
| chan_call_throws: "pc s = Running d \<Longrightarrow> batch s = c # cs \<Longrightarrow>
     chan_step put get s (s\<lparr>batch := [], handled := handled s @ (c, True) # map (\<lambda>c. (c, False)) cs\<rparr>)"
| chan_batch_done: "pc s = Running d \<Longrightarrow> batch s = [] \<Longrightarrow>
     chan_step put get s (s\<lparr>pc := (if d then At_check else Waiting)\<rparr>)"
| chan_wait_wakeup: "pc s = Waiting \<Longrightarrow> efd s > 0 \<Longrightarrow> chan_step put get s (s\<lparr>pc := At_read\<rparr>)"
| chan_wait_other: "pc s = Waiting \<Longrightarrow> chan_step put get s (s\<lparr>pc := At_check\<rparr>)"
| chan_read_some: "pc s = At_read \<Longrightarrow> efd s > 0 \<Longrightarrow> chan_step put get s (s\<lparr>efd := get (efd s)\<rparr>)"
| chan_read_none: "pc s = At_read \<Longrightarrow> efd s = 0 \<Longrightarrow> chan_step put get s (s\<lparr>pc := At_swap True\<rparr>)"

inductive chan_reach :: "(nat \<Rightarrow> nat) \<Rightarrow> (nat \<Rightarrow> nat) \<Rightarrow> 'c wstate \<Rightarrow> bool" for put get where
  chan_start: "chan_reach put get wstart"
| chan_more: "chan_reach put get s \<Longrightarrow> chan_step put get s t \<Longrightarrow> chan_reach put get t"

text \<open>The next step of the loop thread alone, as in \<open>Loop_Wakeup\<close>.\<close>

definition chan_loop_step :: "(nat \<Rightarrow> nat) \<Rightarrow> 'c wstate \<Rightarrow> 'c wstate option" where
  "chan_loop_step get s =
     (if pc s = At_read \<and> efd s > 0 then Some (s\<lparr>efd := get (efd s)\<rparr>) else loop_step s)"

fun chan_loop_steps :: "(nat \<Rightarrow> nat) \<Rightarrow> nat \<Rightarrow> 'c wstate \<Rightarrow> 'c wstate" where
  "chan_loop_steps get 0 s = s"
| "chan_loop_steps get (Suc n) s =
     (case chan_loop_step get s of None \<Rightarrow> s | Some t \<Rightarrow> chan_loop_steps get n t)"

text \<open>
  The pipe of macOS holds at most \<open>cap\<close> bytes; a write to a full pipe fails with EAGAIN, and
  \<open>wakeup\<close> gives up. The eventfd of Linux is another channel.
\<close>

definition pipe_put :: "nat \<Rightarrow> nat \<Rightarrow> nat" where
  "pipe_put cap n = (if n < cap then Suc n else n)"

definition pipe_get :: "nat \<Rightarrow> nat" where
  "pipe_get n = n - 64"

lemma eventfd_is_channel: "wstep s t \<longleftrightarrow> chan_step bump (\<lambda>_. 0) s t"
  using chan_stop_signal [of s bump "\<lambda>_. 0"] stop_signal [of s]
  by (auto elim!: wstepE chan_step.cases intro: wstep.intros chan_step.intros)

section \<open>What the protocol needs\<close>

locale wakeup_channel =
  fixes put get :: "nat \<Rightarrow> nat" and holds :: "nat \<Rightarrow> bool"
  assumes put_readable: "holds n \<Longrightarrow> put n > 0 \<and> holds (put n)"
    and get_shrinks: "holds n \<Longrightarrow> n > 0 \<Longrightarrow> get n < n \<and> holds (get n)"
    and empty_holds: "holds 0"
begin

definition chan_inv :: "'c wstate \<Rightarrow> bool" where
  "chan_inv s \<longleftrightarrow>
     (queue s \<noteq> [] \<and> pc s \<in> {Running False, Waiting} \<longrightarrow> efd s > 0 \<or> post_lock s)
   \<and> (stop_flag s \<and> pc s \<in> {At_swap False, Running False, Waiting} \<longrightarrow> efd s > 0 \<or> stopping s > 0)
   \<and> (batch s \<noteq> [] \<longrightarrow> (\<exists>d. pc s = Running d))
   \<and> posted s = map fst (handled s) @ batch s @ queue s
   \<and> (pc s = Exited \<longrightarrow> stop_flag s)
   \<and> holds (efd s)"

lemma chan_inv_step: "chan_step put get s t \<Longrightarrow> chan_inv s \<Longrightarrow> chan_inv t"
  by (induction rule: chan_step.induct)
     (auto simp: chan_inv_def comp_def dest: put_readable get_shrinks)

lemma chan_inv_reach: "chan_reach put get s \<Longrightarrow> chan_inv s"
  by (induction rule: chan_reach.induct)
     (auto intro: chan_inv_step, simp add: chan_inv_def wstart_def empty_holds)

lemma chan_asleep:
  "chan_reach put get s \<Longrightarrow> asleep s \<Longrightarrow> queue s = [] \<and> posted s = map fst (handled s) \<and> \<not> stop_flag s"
  using chan_inv_reach [of s] by (auto simp: chan_inv_def asleep_def)

lemma chan_loop_step_step: "chan_loop_step get s = Some t \<Longrightarrow> chan_step put get s t"
  using chan_batch_done [of s True put get] chan_batch_done [of s False put get]
  by (auto simp: chan_loop_step_def loop_step_def split: loop_pc.splits list.splits if_splits
      intro: chan_step.intros)

lemma chan_loop_step_todo:
  "chan_loop_step get s = Some t \<Longrightarrow> chan_inv s \<Longrightarrow> todo t + efd t < todo s + efd s"
  using get_shrinks [of "efd s"]
  by (cases "pc s"; cases "batch s")
    (auto simp: chan_loop_step_def loop_step_def todo_def chan_inv_def Let_def split: if_splits)

lemma chan_loop_step_alone:
  "chan_loop_step get s = Some t \<Longrightarrow> post_lock t = post_lock s \<and> stopping t = stopping s \<and> stop_flag t = stop_flag s
     \<and> posted t = posted s \<and> prefix (handled s) (handled t)"
  using loop_step_alone [of s t] by (auto simp: chan_loop_step_def split: if_splits)

lemma chan_rest:
  assumes "chan_reach put get s" and "\<not> post_lock s" and "stopping s = 0"
  shows "\<exists>n \<le> todo s + efd s. let t = chan_loop_steps get n s in chan_reach put get t \<and> (asleep t \<or> pc t = Exited)
    \<and> stop_flag t = stop_flag s \<and> posted t = posted s \<and> prefix (handled s) (handled t)"
  using assms
proof (induction "todo s + efd s" arbitrary: s rule: less_induct)
  case less
  show ?case
  proof (cases "chan_loop_step get s")
    case None
    then have "asleep s \<or> pc s = Exited"
      using less by (auto simp: chan_loop_step_def loop_step_def asleep_def
          split: loop_pc.splits list.splits if_splits)
    with less show ?thesis by (intro exI [of _ 0]) simp
  next
    case (Some t)
    have lt: "todo t + efd t < todo s + efd s" by (rule chan_loop_step_todo [OF Some chan_inv_reach [OF less(2)]])
    have t: "chan_reach put get t" using less(2) chan_loop_step_step [OF Some] by (rule chan_more)
    note alone = chan_loop_step_alone [OF Some]
    from less(1) [OF lt t] alone less obtain n where n: "n \<le> todo t + efd t" and
      r: "let u = chan_loop_steps get n t in chan_reach put get u \<and> (asleep u \<or> pc u = Exited)
        \<and> stop_flag u = stop_flag t \<and> posted u = posted t \<and> prefix (handled t) (handled u)" by auto
    have "chan_loop_steps get (Suc n) s = chan_loop_steps get n t" by (simp add: Some)
    with n r alone lt show ?thesis
      by (intro exI [of _ "Suc n"]) (auto simp: Let_def intro: prefix_order.trans)
  qed
qed

lemma chan_takes_effect:
  assumes "chan_reach put get s" and "\<not> post_lock s" and "stopping s = 0"
  shows "\<exists>n \<le> 13 + length (queue s) + length (batch s) + efd s. let t = chan_loop_steps get n s in
    (if stop_flag s then pc t = Exited
     else asleep t \<and> map fst (handled t) = posted s \<and> prefix (handled s) (handled t))"
proof -
  from chan_rest [OF assms] obtain n where n: "n \<le> todo s + efd s" and
    r: "chan_reach put get (chan_loop_steps get n s)"
      "asleep (chan_loop_steps get n s) \<or> pc (chan_loop_steps get n s) = Exited"
      "stop_flag (chan_loop_steps get n s) = stop_flag s" "posted (chan_loop_steps get n s) = posted s"
      "prefix (handled s) (handled (chan_loop_steps get n s))" by (auto simp: Let_def)
  have "pc (chan_loop_steps get n s) = Exited \<longrightarrow> stop_flag s"
    using chan_inv_reach [OF r(1)] r(3) by (simp add: chan_inv_def)
  with n r chan_asleep [OF r(1)] todo_bound [of s] show ?thesis
    by (intro exI [of _ n]) (auto simp: Let_def)
qed

end

section \<open>The two channels\<close>

interpretation pipe: wakeup_channel "pipe_put (Suc cap)" pipe_get "\<lambda>n. n \<le> Suc cap" for cap
  by unfold_locales (auto simp: pipe_put_def pipe_get_def)

interpretation eventfd: wakeup_channel bump "\<lambda>_. 0" "\<lambda>n. n \<le> efd_max"
  by unfold_locales (simp_all add: bump_le)

text \<open>
  C9. The wakeup over a pipe works as well. In every interleaving on macOS, too, a loop that
  sleeps has taken every callback that was ever posted and has not been asked to stop; and
  from every state with no \<open>post\<close> or \<open>stop\<close> in progress the loop thread on its own, after a
  number of steps bounded by the callbacks and the bytes in the pipe, has returned from
  \<open>run\<close> if somebody called \<open>stop\<close>, and otherwise sleeps with every callback taken, in order.
  A full pipe, to which \<open>wakeup\<close> gives up to write, makes no difference.
\<close>

theorem pipe_wakeup_takes_effect:
  assumes "chan_reach (pipe_put (Suc cap)) pipe_get s"
  shows "(asleep s \<longrightarrow> queue s = [] \<and> posted s = map fst (handled s) \<and> \<not> stop_flag s)
    \<and> (\<not> post_lock s \<and> stopping s = 0 \<longrightarrow>
        (\<exists>n \<le> 13 + length (queue s) + length (batch s) + efd s. let t = chan_loop_steps pipe_get n s in
          (if stop_flag s then pc t = Exited
           else asleep t \<and> map fst (handled t) = posted s \<and> prefix (handled s) (handled t))))"
  using pipe.chan_asleep [OF assms] pipe.chan_takes_effect [OF assms] by blast

text \<open>Two posts into a pipe for a single byte: the second write fails, and both are handled.\<close>

theorem pipe_wakeup_takes_effect_witness:
  "\<exists>n t. t = chan_loop_steps pipe_get n
      (wstart\<lparr>queue := [5 :: nat, 6], posted := [5, 6], efd := 1\<rparr>) \<and> asleep t \<and> map fst (handled t) = [5, 6]"
proof -
  let ?put = "pipe_put (Suc 0)"
  let ?one = "wstart\<lparr>queue := [5 :: nat], posted := [5], efd := 1\<rparr>"
  let ?two = "wstart\<lparr>queue := [5 :: nat, 6], posted := [5, 6], efd := 1\<rparr>"
  have post: "chan_reach ?put pipe_get (s\<lparr>queue := queue s @ [c], posted := posted s @ [c], efd := ?put (efd s),
      post_lock := False\<rparr>)" if "chan_reach ?put pipe_get s" and "\<not> post_lock s" for s :: "nat wstate" and c
  proof -
    let ?m = "s\<lparr>queue := queue s @ [c], post_lock := True, posted := posted s @ [c]\<rparr>"
    have "chan_reach ?put pipe_get ?m" by (rule chan_more [OF that(1) chan_push [OF that(2)]])
    then have "chan_reach ?put pipe_get (?m\<lparr>efd := ?put (efd ?m), post_lock := False\<rparr>)"
      by (rule chan_more) (rule chan_signal, simp)
    then show ?thesis by simp
  qed
  have "chan_reach ?put pipe_get ?one"
    using post [OF chan_start, of 5] by (simp add: wstart_def pipe_put_def)
  from post [OF this, of 6] have reach: "chan_reach ?put pipe_get ?two"
    by (simp add: wstart_def pipe_put_def)
  from pipe_wakeup_takes_effect [OF reach] show ?thesis
    by (auto simp: wstart_def Let_def)
qed

end
