(* ===== verification/Thread_Pool.thy ===== *)
theory Thread_Pool
  imports Fifo_Executor
begin

text \<open>
  \<open>include/coro_epoll/thread_pool.hpp\<close>: the worker threads of \<open>ThreadPool\<close>, and its awaiter,
  by which a coroutine has a function run on a worker and continues on its event loop.

  The steps are the critical sections of \<open>stop\<close>, \<open>enqueue\<close> and \<open>worker_loop\<close> under the mutex,
  the notifications behind them, and the execution of one task; they interleave in any
  order, and a waiting worker may wake without reason.
\<close>

section \<open>State and steps\<close>

text \<open>
  A worker is about to test the predicate of \<open>condition_.wait\<close> under the lock, sleeps in it,
  runs a task, or has returned.
\<close>

datatype 'j worker = Ready | Sleeping | Busy 'j | Returned_worker

text \<open>
  \<open>notifying\<close>: calls of \<open>enqueue\<close> that have pushed and not yet notified; \<open>stopping_pool\<close>: calls
  of \<open>stop\<close> that have set the flag and not yet notified. \<open>submitted\<close>, \<open>started\<close> and \<open>finished\<close>
  are history.
\<close>

record 'j pool =
  workers :: "'j worker list"
  jobs :: "'j list"
  pool_stopped :: bool
  notifying :: nat
  stopping_pool :: nat
  submitted :: "'j list"
  started :: "'j list"
  finished :: "'j list"

definition pool_new :: "nat \<Rightarrow> exn + 'j pool" where
  "pool_new thread_count =
     (if thread_count = 0 then Inl (Invalid_argument ''thread_count must be greater than zero'')
      else Inr \<lparr>workers = replicate thread_count Ready, jobs = [], pool_stopped = False, notifying = 0,
                stopping_pool = 0, submitted = [], started = [], finished = []\<rparr>)"

definition enqueue :: "'j \<Rightarrow> 'j pool \<Rightarrow> exn option \<times> 'j pool" where
  "enqueue j p =
     (if pool_stopped p then (Some (Runtime_error ''cannot enqueue task on a stopped ThreadPool''), p)
      else (None, p\<lparr>jobs := jobs p @ [j], notifying := Suc (notifying p), submitted := submitted p @ [j]\<rparr>))"

text \<open>What a worker does that holds the lock and evaluates the predicate.\<close>

definition worker_check :: "nat \<Rightarrow> 'j pool \<Rightarrow> 'j pool" where
  "worker_check i p =
     (case jobs p of
        [] \<Rightarrow> p\<lparr>workers := (workers p)[i := (if pool_stopped p then Returned_worker else Sleeping)]\<rparr>
      | j # js \<Rightarrow> p\<lparr>workers := (workers p)[i := Busy j], jobs := js, started := started p @ [j]\<rparr>)"

definition wake_all :: "'j worker list \<Rightarrow> 'j worker list" where
  "wake_all ws = map (\<lambda>w. if w = Sleeping then Ready else w) ws"

text \<open>The steps by which the pool works off what it has, and all steps.\<close>

inductive pool_work :: "'j pool \<Rightarrow> 'j pool \<Rightarrow> bool" where
  notify_one: "notifying p > 0 \<Longrightarrow> i < length (workers p) \<Longrightarrow> workers p ! i = Sleeping \<Longrightarrow>
     pool_work p (p\<lparr>workers := (workers p)[i := Ready], notifying := notifying p - 1\<rparr>)"
| notify_nobody: "notifying p > 0 \<Longrightarrow> Sleeping \<notin> set (workers p) \<Longrightarrow>
     pool_work p (p\<lparr>notifying := notifying p - 1\<rparr>)"
| notify_all: "stopping_pool p > 0 \<Longrightarrow>
     pool_work p (p\<lparr>workers := wake_all (workers p), stopping_pool := stopping_pool p - 1\<rparr>)"
| check: "i < length (workers p) \<Longrightarrow> workers p ! i = Ready \<Longrightarrow> pool_work p (worker_check i p)"
| execute: "i < length (workers p) \<Longrightarrow> workers p ! i = Busy j \<Longrightarrow>
     pool_work p (p\<lparr>workers := (workers p)[i := Ready], finished := finished p @ [j]\<rparr>)"

inductive pool_step :: "'j pool \<Rightarrow> 'j pool \<Rightarrow> bool" where
  work: "pool_work p q \<Longrightarrow> pool_step p q"
| enqueue_push: "enqueue j p = (None, q) \<Longrightarrow> pool_step p q"
| pool_stop_set: "pool_step p (p\<lparr>pool_stopped := True, stopping_pool := Suc (stopping_pool p)\<rparr>)"
| spurious: "i < length (workers p) \<Longrightarrow> workers p ! i = Sleeping \<Longrightarrow>
     pool_step p (p\<lparr>workers := (workers p)[i := Ready]\<rparr>)"

inductive_cases pool_stepE: "pool_step p q"

inductive pool_reach :: "nat \<Rightarrow> 'j pool \<Rightarrow> bool" for n where
  pool_start: "pool_new n = Inr p \<Longrightarrow> pool_reach n p"
| pool_more: "pool_reach n p \<Longrightarrow> pool_step p q \<Longrightarrow> pool_reach n q"

section \<open>The invariant\<close>

fun running :: "'j worker list \<Rightarrow> 'j list" where
  "running [] = []"
| "running (Busy j # ws) = j # running ws"
| "running (_ # ws) = running ws"

lemma running_update:
  "i < length ws \<Longrightarrow> mset (running (ws[i := w])) + mset (running [ws ! i]) = mset (running ws) + mset (running [w])"
proof (induction ws arbitrary: i)
  case Nil
  then show ?case by simp
next
  case (Cons v ws)
  then show ?case by (cases i; cases v; cases w) auto
qed

lemma count_update:
  "i < length ws \<Longrightarrow>
     count_list (ws[i := w]) x + (if ws ! i = x then 1 else 0) = count_list ws x + (if w = x then 1 else 0)"
proof (induction ws arbitrary: i)
  case Nil
  then show ?case by simp
next
  case (Cons v ws)
  show ?case
  proof (cases i)
    case (Suc k)
    with Cons.IH [of k] Cons.prems show ?thesis by (simp split: if_splits)
  qed simp
qed

lemma set_updateD: "x \<in> set (ws[i := w]) \<Longrightarrow> x = w \<or> x \<in> set ws"
  by (meson set_update_subset_insert insertE subsetD)

lemma count_ready_update:
  assumes "i < length ws"
  shows "ws ! i \<noteq> Ready \<Longrightarrow> count_list (ws[i := Ready]) Ready = Suc (count_list ws Ready)"
    and "ws ! i = Ready \<Longrightarrow> w \<noteq> Ready \<Longrightarrow> Suc (count_list (ws[i := w]) Ready) = count_list ws Ready"
  using count_update [OF assms, of Ready Ready] count_update [OF assms, of w Ready] by auto

lemma wake_all_simps [simp]:
  "length (wake_all ws) = length ws" "Sleeping \<notin> set (wake_all ws)"
  "Returned_worker \<in> set (wake_all ws) \<longleftrightarrow> Returned_worker \<in> set ws"
  by (auto simp: wake_all_def split: if_splits)

lemma running_wake_all [simp]: "running (wake_all ws) = running ws"
proof (induction ws)
  case Nil
  then show ?case by (simp add: wake_all_def)
next
  case (Cons w ws)
  then show ?case by (cases w) (simp_all add: wake_all_def)
qed

definition pool_inv :: "nat \<Rightarrow> 'j pool \<Rightarrow> bool" where
  "pool_inv n p \<longleftrightarrow>
     length (workers p) = n \<and> 0 < n
   \<and> submitted p = started p @ jobs p
   \<and> mset (started p) = mset (finished p) + mset (running (workers p))
   \<and> (Sleeping \<in> set (workers p) \<longrightarrow> length (jobs p) \<le> notifying p + count_list (workers p) Ready)
   \<and> (Returned_worker \<in> set (workers p) \<longrightarrow> pool_stopped p \<and> jobs p = [])
   \<and> (pool_stopped p \<and> Sleeping \<in> set (workers p) \<longrightarrow> stopping_pool p > 0)"

lemma pool_inv_check:
  assumes inv: "pool_inv n p" and i: "i < length (workers p)" and ready: "workers p ! i = Ready"
  shows "pool_inv n (worker_check i p)"
proof (cases "jobs p")
  case Nil
  let ?w = "if pool_stopped p then Returned_worker else Sleeping"
  have "mset (running ((workers p)[i := ?w])) = mset (running (workers p))"
    using running_update [OF i, of ?w] ready by (auto split: if_splits)
  with inv Nil show ?thesis by (auto simp: pool_inv_def worker_check_def dest: set_updateD)
next
  case (Cons j js)
  have "mset (running ((workers p)[i := Busy j])) = add_mset j (mset (running (workers p)))"
    using running_update [OF i, of "Busy j"] ready by simp
  moreover have "Suc (count_list ((workers p)[i := Busy j]) Ready) = count_list (workers p) Ready"
    using count_ready_update(2) [OF i ready] by simp
  ultimately show ?thesis
    using inv Cons by (auto simp: pool_inv_def worker_check_def dest!: set_updateD)
qed

lemma pool_inv_work: "pool_work p q \<Longrightarrow> pool_inv n p \<Longrightarrow> pool_inv n q"
proof (induction rule: pool_work.induct)
  case (notify_one p i)
  have "mset (running ((workers p)[i := Ready])) = mset (running (workers p))"
    using running_update [of i "workers p" Ready] notify_one by simp
  with notify_one count_ready_update(1) [of i "workers p"] show ?case
    by (auto simp: pool_inv_def dest!: set_updateD)
next
  case (execute i p j)
  have "add_mset j (mset (running ((workers p)[i := Ready]))) = mset (running (workers p))"
    using running_update [of i "workers p" Ready] execute by simp
  with execute count_ready_update(1) [of i "workers p"] show ?case
    by (auto simp: pool_inv_def dest!: set_updateD)
qed (simp_all add: pool_inv_check, auto simp: pool_inv_def)

lemma pool_inv_step: "pool_step p q \<Longrightarrow> pool_inv n p \<Longrightarrow> pool_inv n q"
proof (induction rule: pool_step.induct)
  case (spurious i p)
  have "mset (running ((workers p)[i := Ready])) = mset (running (workers p))"
    using running_update [of i "workers p" Ready] spurious by simp
  with spurious count_ready_update(1) [of i "workers p"] show ?case
    by (auto simp: pool_inv_def dest!: set_updateD)
qed (simp_all add: pool_inv_work, auto simp: enqueue_def pool_inv_def split: if_splits)

lemma pool_inv_reach: "pool_reach n p \<Longrightarrow> pool_inv n p"
proof (induction rule: pool_reach.induct)
  case (pool_start p)
  have "running (replicate n Ready) = []" "count_list (replicate n Ready) Ready = n"
    by (induction n) auto
  with pool_start show ?case by (auto simp: pool_new_def pool_inv_def split: if_splits)
next
  case (pool_more p q)
  then show ?case by (simp add: pool_inv_step)
qed

lemma pool_work_grows:
  "pool_work p q \<Longrightarrow> submitted q = submitted p \<and> pool_stopped q = pool_stopped p \<and> prefix (started p) (started q)"
  by (induction rule: pool_work.induct) (auto simp: worker_check_def split: list.split)

lemma pool_step_grows:
  "pool_step p q \<Longrightarrow> prefix (submitted p) (submitted q) \<and> prefix (started p) (started q)"
  by (induction rule: pool_step.induct) (auto simp: enqueue_def dest: pool_work_grows split: if_splits)

interpretation pool_queue: fifo_executor pool_step "pool_reach n" submitted started jobs for n
proof
  show "pool_reach n p \<Longrightarrow> pool_step p q \<Longrightarrow> pool_reach n q" for p q :: "'a pool"
    by (rule pool_more)
  show "pool_reach n p \<Longrightarrow> submitted p = started p @ jobs p" for p :: "'a pool"
    using pool_inv_reach [of n p] by (simp add: pool_inv_def)
qed (simp_all add: pool_step_grows)

section \<open>The pool comes to rest\<close>

fun worker_todo :: "'j worker \<Rightarrow> nat" where
  "worker_todo (Busy j) = 2"
| "worker_todo Ready = 1"
| "worker_todo _ = 0"

definition pool_todo :: "'j pool \<Rightarrow> nat" where
  "pool_todo p = 3 * length (jobs p) + sum_list (map worker_todo (workers p)) + 2 * notifying p
     + Suc (length (workers p)) * stopping_pool p"

lemma todo_update:
  "i < length ws \<Longrightarrow>
     sum_list (map worker_todo (ws[i := w])) + worker_todo (ws ! i) = sum_list (map worker_todo ws) + worker_todo w"
proof (induction ws arbitrary: i)
  case Nil
  then show ?case by simp
next
  case (Cons v ws)
  then show ?case by (cases i) (auto simp: ac_simps)
qed

lemma todo_wake_all: "sum_list (map worker_todo (wake_all ws)) \<le> sum_list (map worker_todo ws) + length ws"
proof (induction ws)
  case Nil
  then show ?case by (simp add: wake_all_def)
next
  case (Cons w ws)
  then show ?case by (cases w) (simp_all add: wake_all_def)
qed

lemma pool_work_todo: "pool_work p q \<Longrightarrow> pool_todo q < pool_todo p"
proof (induction rule: pool_work.induct)
  case (notify_one p i)
  then show ?case using todo_update [of i "workers p" Ready] by (simp add: pool_todo_def)
next
  case (notify_nobody p)
  then show ?case by (simp add: pool_todo_def)
next
  case (notify_all p)
  then obtain k where "stopping_pool p = Suc k" by (cases "stopping_pool p") auto
  with todo_wake_all [of "workers p"] show ?case by (simp add: pool_todo_def)
next
  case (check i p)
  show ?case
  proof (cases "jobs p")
    case Nil
    then show ?thesis
      using check todo_update [of i "workers p" Returned_worker] todo_update [of i "workers p" Sleeping]
      by (simp add: pool_todo_def worker_check_def)
  next
    case (Cons j js)
    then show ?thesis
      using check todo_update [of i "workers p" "Busy j"] by (simp add: pool_todo_def worker_check_def)
  qed
next
  case (execute i p j)
  then show ?case using todo_update [of i "workers p" Ready] by (simp add: pool_todo_def)
qed

text \<open>At rest: every worker sleeps or has returned and no notification is outstanding.\<close>

definition at_rest :: "'j pool \<Rightarrow> bool" where
  "at_rest p \<longleftrightarrow> list_all (\<lambda>w. w = Sleeping \<or> w = Returned_worker) (workers p)
     \<and> notifying p = 0 \<and> stopping_pool p = 0"

lemma rest_if_stuck: "\<not> (\<exists>q. pool_work p q) \<Longrightarrow> at_rest p"
proof (rule ccontr)
  assume stuck: "\<not> (\<exists>q. pool_work p q)" and "\<not> at_rest p"
  then consider i where "i < length (workers p)" "workers p ! i = Ready"
    | i j where "i < length (workers p)" "workers p ! i = Busy j"
    | "notifying p > 0" | "stopping_pool p > 0"
    unfolding at_rest_def list_all_length by (metis gr0I worker.exhaust)
  then show False
  proof cases
    case (1 i)
    from check [OF 1] stuck show False by blast
  next
    case (2 i j)
    from execute [OF 2] stuck show False by blast
  next
    case 4
    from notify_all [OF 4] stuck show False by blast
  next
    case 3
    show False
    proof (cases "Sleeping \<in> set (workers p)")
      case True
      then obtain i where "i < length (workers p)" "workers p ! i = Sleeping" by (metis in_set_conv_nth)
      from notify_one [OF 3 this] stuck show False by blast
    next
      case False
      from notify_nobody [OF 3 False] stuck show False by blast
    qed
  qed
qed

lemma running_at_rest: "at_rest p \<Longrightarrow> running (workers p) = [] \<and> count_list (workers p) Ready = 0"
proof -
  have "list_all (\<lambda>w. w = Sleeping \<or> w = Returned_worker) ws \<Longrightarrow> running ws = [] \<and> count_list ws Ready = 0" for ws :: "'a worker list"
    by (induction ws) auto
  then show "at_rest p \<Longrightarrow> ?thesis" by (simp add: at_rest_def)
qed

lemma rest_is_done:
  assumes inv: "pool_inv n p" and rest: "at_rest p"
  shows "jobs p = [] \<and> mset (finished p) = mset (submitted p)
    \<and> set (workers p) = {if pool_stopped p then Returned_worker else Sleeping}"
proof -
  have w: "set (workers p) \<subseteq> {Sleeping, Returned_worker}" "set (workers p) \<noteq> {}"
    using inv rest by (auto simp: at_rest_def list_all_iff pool_inv_def)
  have sleep: "Sleeping \<in> set (workers p) \<Longrightarrow> jobs p = [] \<and> \<not> pool_stopped p"
    using inv rest running_at_rest [OF rest] by (auto simp: pool_inv_def at_rest_def)
  have ret: "Returned_worker \<in> set (workers p) \<Longrightarrow> jobs p = [] \<and> pool_stopped p"
    using inv by (auto simp: pool_inv_def)
  obtain w0 where w0: "w0 \<in> set (workers p)" using w(2) by (meson ex_in_conv)
  then have "w0 = Sleeping \<or> w0 = Returned_worker" using w(1) by blast
  then have "set (workers p) = {if pool_stopped p then Returned_worker else Sleeping}"
    using w(1) w0 sleep ret by (cases "pool_stopped p") auto
  moreover have "jobs p = []" using w(1) w0 sleep ret by auto
  ultimately show ?thesis using inv running_at_rest [OF rest] by (auto simp: pool_inv_def)
qed

lemma pool_works_keep:
  "pool_work\<^sup>*\<^sup>* p q \<Longrightarrow> pool_inv n p \<Longrightarrow>
     pool_inv n q \<and> submitted q = submitted p \<and> pool_stopped q = pool_stopped p"
  by (induction rule: rtranclp_induct) (auto dest: pool_inv_work pool_work_grows)

lemma pool_reaches_rest: "\<exists>q. pool_work\<^sup>*\<^sup>* p q \<and> at_rest q"
proof (induction "pool_todo p" arbitrary: p rule: less_induct)
  case less
  show ?case
  proof (cases "\<exists>q. pool_work p q")
    case True
    then obtain q where q: "pool_work p q" ..
    with less [OF pool_work_todo [OF q]] show ?thesis by (meson converse_rtranclp_into_rtranclp)
  next
    case False
    then have "at_rest p" by (rule rest_if_stuck)
    then show ?thesis by blast
  qed
qed

lemma pool_work_bound: "(pool_work ^^ k) p q \<Longrightarrow> k \<le> pool_todo p"
proof -
  have "(pool_work ^^ k) p q \<Longrightarrow> k + pool_todo q \<le> pool_todo p"
  proof (induction k arbitrary: q)
    case (Suc k)
    then obtain r where r: "(pool_work ^^ k) p r" "pool_work r q" by auto
    from Suc.IH [OF r(1)] pool_work_todo [OF r(2)] show ?case by simp
  qed simp
  then show "(pool_work ^^ k) p q \<Longrightarrow> k \<le> pool_todo p" by simp
qed

section \<open>The awaiter of \<open>submit\<close>\<close>

text \<open>
  \<open>ThreadPoolState\<close> is shared by the awaiter and the job. Running the submitted function is
  its result \<open>r\<close>: an exception or a value.
\<close>

record 'v pool_state =
  state_value :: "'v option"
  state_exception :: "exn option"
  state_continuation :: "handle option"

definition pool_state_new :: "'v pool_state" where
  "pool_state_new = \<lparr>state_value = None, state_exception = None, state_continuation = None\<rparr>"

definition pool_await_suspend ::
    "handle \<Rightarrow> 'j \<Rightarrow> 'j pool \<Rightarrow> 'v pool_state \<Rightarrow> exn option \<times> 'j pool \<times> 'v pool_state" where
  "pool_await_suspend continuation job p st =
     (case enqueue job p of (out, q) \<Rightarrow> (out, q, st\<lparr>state_continuation := Some continuation\<rparr>))"

text \<open>The job: what it leaves in the state, and the handle that its callback on the loop resumes.\<close>

definition pool_job :: "exn + 'v \<Rightarrow> 'v pool_state \<Rightarrow> 'v pool_state \<times> handle option" where
  "pool_job r st =
     (let st' = (case r of
          Inr v \<Rightarrow> st\<lparr>state_value := Some v\<rparr>
        | Inl e \<Rightarrow> st\<lparr>state_exception := Some e\<rparr>)
      in (st', state_continuation st'))"

definition pool_await_resume :: "'v pool_state \<Rightarrow> (exn + 'v) option" where
  "pool_await_resume st = (case state_exception st of
      Some e \<Rightarrow> Some (Inl e)
    | None \<Rightarrow> (case state_value st of Some v \<Rightarrow> Some (Inr v) | None \<Rightarrow> None))"

lemmas pool_op_defs [pool_defs] =
  enqueue_def pool_await_suspend_def pool_job_def pool_await_resume_def pool_state_new_def

section \<open>Properties\<close>

text \<open>
  C7. Every job runs exactly once, in order. In every interleaving of submitters, workers and
  \<open>stop\<close>, the jobs started so far and those in the queue are, in this order, the jobs
  submitted so far, and every job that was started has finished or is on one worker. The
  order is final: the job accepted as number \<open>i\<close> is the one started as number \<open>i\<close>, however
  the threads go on.
\<close>

theorem pool_runs_once_in_order:
  assumes "pool_reach n p" and "pool_step\<^sup>*\<^sup>* p q"
  shows "submitted p = started p @ jobs p
    \<and> mset (started p) = mset (finished p) + mset (running (workers p))
    \<and> (\<forall>i. i < length (submitted p) \<and> i < length (started q) \<longrightarrow> started q ! i = submitted p ! i)"
  using pool_inv_reach [OF assms(1)] pool_queue.later_order [OF assms(2,1)] by (auto simp: pool_inv_def)

text \<open>
  No job waits while a worker sleeps. When no notification is outstanding and a worker
  sleeps, there are no more jobs in the queue than workers that are about to look into it.
\<close>

theorem no_job_waits_for_sleeper:
  assumes "pool_reach n p" and "notifying p = 0" and "Sleeping \<in> set (workers p)"
  shows "length (jobs p) \<le> count_list (workers p) Ready"
  using pool_inv_reach [OF assms(1)] assms(2,3) by (simp add: pool_inv_def)

text \<open>
  The destructor calls \<open>stop\<close> and then \<open>join\<close>, which returns when every worker has returned;
  in between the workers go on in any order.
\<close>

definition pool_joined :: "'j pool \<Rightarrow> bool" where
  "pool_joined p \<longleftrightarrow> list_all (\<lambda>w. case w of Returned_worker \<Rightarrow> True | _ \<Rightarrow> False) (workers p)"

inductive pool_delete :: "'j pool \<Rightarrow> 'j pool \<Rightarrow> bool" where
  pool_deleted: "pool_work\<^sup>*\<^sup>* (p\<lparr>pool_stopped := True, stopping_pool := Suc (stopping_pool p)\<rparr>) q \<Longrightarrow>
     pool_joined q \<Longrightarrow> pool_delete p q"

lemma pool_joined_iff: "pool_joined p \<longleftrightarrow> set (workers p) \<subseteq> {Returned_worker}"
proof -
  have "(case w of Returned_worker \<Rightarrow> True | _ \<Rightarrow> False) \<longleftrightarrow> w = Returned_worker" for w :: "'a worker"
    by (cases w) auto
  then show ?thesis by (auto simp: pool_joined_def list_all_iff)
qed

lemma running_returned: "set ws \<subseteq> {Returned_worker} \<Longrightarrow> running ws = []"
  by (induction ws) auto

text \<open>
  The destructor returns, whatever state it finds, and when it does the queue is empty, every
  job that was ever accepted has run, and no worker is left.
\<close>

lemma pool_delete_drains:
  assumes "pool_reach n p"
  shows "\<exists>q. pool_delete p q" and "pool_delete p q \<Longrightarrow> jobs q = [] \<and> submitted q = submitted p
    \<and> mset (finished q) = mset (submitted p) \<and> set (workers q) = {Returned_worker}"
proof -
  let ?p = "p\<lparr>pool_stopped := True, stopping_pool := Suc (stopping_pool p)\<rparr>"
  have "pool_inv n ?p" using pool_inv_step [OF pool_stop_set pool_inv_reach [OF assms]] by simp
  note keep = pool_works_keep [OF _ this]
  obtain q where q: "pool_work\<^sup>*\<^sup>* ?p q" "at_rest q" using pool_reaches_rest by blast
  from keep [OF q(1)] have i: "pool_inv n q" "pool_stopped q" by auto
  from rest_is_done [OF i(1) q(2)] i(2) have "pool_joined q" by (simp add: pool_joined_iff)
  with q(1) show "\<exists>q. pool_delete p q" by (blast intro: pool_deleted)
  show "jobs q = [] \<and> submitted q = submitted p \<and> mset (finished q) = mset (submitted p)
      \<and> set (workers q) = {Returned_worker}" if "pool_delete p q" for q
  proof -
    from that have q: "pool_work\<^sup>*\<^sup>* ?p q" "pool_joined q" by (auto elim: pool_delete.cases)
    from keep [OF q(1)] have i: "pool_inv n q" "submitted q = submitted p" by auto
    then have "workers q \<noteq> []" by (auto simp: pool_inv_def)
    with q(2) have w: "set (workers q) = {Returned_worker}" by (cases "workers q") (auto simp: pool_joined_iff)
    then have "running (workers q) = []" by (simp add: running_returned)
    with i w show ?thesis by (auto simp: pool_inv_def)
  qed
qed

text \<open>
  C6. The pool works off what it has, and stopping drains it. From every reachable state the
  workers come to rest after a bounded number of their own steps, in every order of them; a
  state in which they cannot go on has an empty queue and every submitted job finished, and
  the workers sleep, or, after \<open>stop\<close>, have all returned, so that \<open>join\<close> returns and no job is
  abandoned.
\<close>

theorem pool_works_off:
  assumes "pool_reach n p"
  shows "(\<exists>q. pool_work\<^sup>*\<^sup>* p q \<and> at_rest q)
    \<and> (\<forall>q k. (pool_work ^^ k) p q \<longrightarrow> k \<le> pool_todo p)
    \<and> (\<forall>q. pool_work\<^sup>*\<^sup>* p q \<and> \<not> (\<exists>r. pool_work q r) \<longrightarrow>
         jobs q = [] \<and> mset (finished q) = mset (submitted p)
         \<and> set (workers q) = {if pool_stopped p then Returned_worker else Sleeping})"
proof (intro conjI allI impI)
  show "\<exists>q. pool_work\<^sup>*\<^sup>* p q \<and> at_rest q" by (rule pool_reaches_rest)
  show "(pool_work ^^ k) p q \<Longrightarrow> k \<le> pool_todo p" for q k by (rule pool_work_bound)
next
  fix q
  assume q: "pool_work\<^sup>*\<^sup>* p q \<and> \<not> (\<exists>r. pool_work q r)"
  then have "pool_inv n q \<and> submitted q = submitted p \<and> pool_stopped q = pool_stopped p"
    using pool_works_keep pool_inv_reach [OF assms] by blast
  with rest_is_done [of n q] rest_if_stuck [of q] q
  show "jobs q = []" "mset (finished q) = mset (submitted p)"
    "set (workers q) = {if pool_stopped p then Returned_worker else Sleeping}" by auto
qed


text \<open>A pool of two workers, both asleep, on which the job 7 has been submitted.\<close>

definition example_pool :: "nat pool" where
  "example_pool = \<lparr>workers = [Sleeping, Sleeping], jobs = [7], pool_stopped = False, notifying = 1,
     stopping_pool = 0, submitted = [7], started = [], finished = []\<rparr>"

lemma example_pool_reach: "pool_reach 2 example_pool"
proof -
  let ?p = "\<lambda>ws. \<lparr>workers = ws, jobs = [], pool_stopped = False, notifying = 0,
     stopping_pool = 0, submitted = [], started = [], finished = []\<rparr> :: nat pool"
  have 0: "pool_reach 2 (?p [Ready, Ready])"
    by (rule pool_start) (simp add: pool_new_def numeral_2_eq_2)
  have "pool_step (?p [Ready, Ready]) (?p [Sleeping, Ready])"
    using work [OF check [of 0 "?p [Ready, Ready]"]] by (simp add: worker_check_def)
  with 0 have 1: "pool_reach 2 (?p [Sleeping, Ready])" by (rule pool_more)
  have "pool_step (?p [Sleeping, Ready]) (?p [Sleeping, Sleeping])"
    using work [OF check [of 1 "?p [Sleeping, Ready]"]] by (simp add: worker_check_def)
  with 1 have 2: "pool_reach 2 (?p [Sleeping, Sleeping])" by (rule pool_more)
  have "pool_step (?p [Sleeping, Sleeping]) example_pool"
    by (rule enqueue_push [of 7]) (simp add: enqueue_def example_pool_def)
  with 2 show ?thesis by (rule pool_more)
qed

definition example_taken :: "nat pool" where
  "example_taken = example_pool\<lparr>workers := [Busy 7, Sleeping], jobs := [], notifying := 0, started := [7]\<rparr>"

lemma example_pool_steps: "pool_step\<^sup>*\<^sup>* example_pool example_taken"
proof -
  let ?q = "example_pool\<lparr>workers := [Ready, Sleeping], notifying := 0\<rparr>"
  have "pool_step example_pool ?q"
    using work [OF notify_one [of example_pool 0]] by (simp add: example_pool_def)
  moreover have "pool_step ?q example_taken"
    using work [OF check [of 0 ?q]] by (simp add: worker_check_def example_pool_def example_taken_def)
  ultimately show ?thesis by (meson r_into_rtranclp rtranclp.rtrancl_into_rtrancl)
qed

theorem pool_runs_once_in_order_witness:
  "submitted example_pool = [] @ jobs example_pool \<and> started example_taken ! 0 = 7"
  using pool_runs_once_in_order [OF example_pool_reach example_pool_steps]
  by (simp add: example_pool_def example_taken_def)

theorem no_job_waits_for_sleeper_witness: "length (jobs example_taken) \<le> 0"
proof -
  have r: "pool_reach 2 example_taken"
    using pool_queue.steps_grow [OF example_pool_steps example_pool_reach] by blast
  have p: "notifying example_taken = 0" "Sleeping \<in> set (workers example_taken)"
    by (simp_all add: example_taken_def)
  from no_job_waits_for_sleeper [OF r p] show ?thesis by (simp add: example_taken_def)
qed

theorem pool_works_off_witness: "\<exists>q. pool_work\<^sup>*\<^sup>* example_pool q \<and> at_rest q"
  using pool_works_off [OF example_pool_reach] by blast


end
