(* ===== verification/Pool_On_Loop.thy ===== *)
theory Pool_On_Loop
  imports Thread_Pool Loop_Wakeup
begin

text \<open>
  The thread pool and the event loop of a coroutine together: a job of the pool ends by posting
  the resumption of the coroutine that submitted it to the coroutine's loop
  (\<open>ThreadPool::Awaiter::await_suspend\<close>). The threads of the pool, the thread of the loop and
  every other thread interleave; the steps are those of \<open>Thread_Pool\<close> and \<open>Loop_Wakeup\<close>.
\<close>

section \<open>Steps of the two components\<close>

text \<open>
  A job is named by the coroutine it resumes. It ends with the push of \<open>post\<close>, which needs the
  mutex of the loop; the signal of \<open>post\<close> is a step of the loop's side.
\<close>

definition finish_job :: "nat \<Rightarrow> 'j \<Rightarrow> 'j pool \<Rightarrow> 'j pool" where
  "finish_job i j p = p\<lparr>workers := (workers p)[i := Ready], finished := finished p @ [j]\<rparr>"

definition push_callback :: "'j \<Rightarrow> 'j wstate \<Rightarrow> 'j wstate" where
  "push_callback j s = s\<lparr>queue := queue s @ [j], post_lock := True, posted := posted s @ [j]\<rparr>"

inductive joint_step :: "'j pool \<times> 'j wstate \<Rightarrow> 'j pool \<times> 'j wstate \<Rightarrow> bool" where
  pool_alone: "pool_step p q \<Longrightarrow> finished q = finished p \<Longrightarrow> joint_step (p, s) (q, s)"
| job_posts: "i < length (workers p) \<Longrightarrow> workers p ! i = Busy j \<Longrightarrow> \<not> post_lock s \<Longrightarrow>
     joint_step (p, s) (finish_job i j p, push_callback j s)"
| loop_alone: "wstep s t \<Longrightarrow> posted t = posted s \<Longrightarrow> joint_step (p, s) (p, t)"

inductive joint_reach :: "nat \<Rightarrow> 'j pool \<times> 'j wstate \<Rightarrow> bool" for n where
  joint_start: "pool_new n = Inr p \<Longrightarrow> joint_reach n (p, wstart)"
| joint_more: "joint_reach n x \<Longrightarrow> joint_step x y \<Longrightarrow> joint_reach n y"

lemma finish_job_step:
  "i < length (workers p) \<Longrightarrow> workers p ! i = Busy j \<Longrightarrow> pool_work p (finish_job i j p)"
  by (simp add: finish_job_def execute)

lemma push_callback_step: "\<not> post_lock s \<Longrightarrow> wstep s (push_callback j s)"
  by (simp add: push_callback_def post_push)

text \<open>Each component sees only steps of its own, and what is posted is what has finished.\<close>

lemma joint_reach_parts:
  "joint_reach n (p, s) \<Longrightarrow> pool_reach n p \<and> wreach s \<and> posted s = finished p"
proof (induction "(p, s)" arbitrary: p s rule: joint_reach.induct)
  case (joint_start p)
  then show ?case
    by (auto simp: pool_new_def wstart_def split: if_splits intro: pool_start wreach_start [unfolded wstart_def])
next
  case (joint_more x p s)
  obtain p0 s0 where x: "x = (p0, s0)" by (metis surj_pair)
  have IH: "pool_reach n p0" "wreach s0" "posted s0 = finished p0" using joint_more(2) x by auto
  from joint_more(3)[unfolded x] show ?case
  proof (cases rule: joint_step.cases)
    case pool_alone
    with IH show ?thesis by (auto intro: pool_more)
  next
    case (job_posts i j)
    with IH finish_job_step [of i p0 j] push_callback_step [of s0 j] show ?thesis
      by (auto intro: pool_more work wreach_step simp: finish_job_def push_callback_def)
  next
    case loop_alone
    with IH show ?thesis by (auto intro: wreach_step)
  qed
qed

section \<open>Coming to rest\<close>

text \<open>A job that is about to post first waits for the mutex; then the pool goes on as alone.\<close>

lemma joint_signal: "joint_step\<^sup>*\<^sup>* (p, s) (p, if post_lock s then s\<lparr>efd := bump (efd s), post_lock := False\<rparr> else s)"
  using loop_alone [OF post_signal [of s], of p] by auto

lemma joint_pool_work:
  assumes "pool_work p q"
  shows "\<exists>t. joint_step\<^sup>*\<^sup>* (p, s) (q, t)"
  using assms
proof (cases rule: pool_work.cases)
  case (execute i j)
  let ?t = "if post_lock s then s\<lparr>efd := bump (efd s), post_lock := False\<rparr> else s"
  have "joint_step (p, ?t) (finish_job i j p, push_callback j ?t)"
    using execute by (intro job_posts) auto
  with joint_signal [of p s] execute show ?thesis
    by (metis finish_job_def rtranclp.rtrancl_into_rtrancl)
next
  case check
  then have "finished q = finished p" by (simp add: worker_check_def split: list.split)
  with pool_alone [OF work [OF assms]] show ?thesis by blast
qed (use pool_alone [OF work [OF assms]] in auto)

lemma joint_pool_works: "pool_work\<^sup>*\<^sup>* p q \<Longrightarrow> \<exists>t. joint_step\<^sup>*\<^sup>* (p, s) (q, t)"
proof (induction rule: rtranclp_induct)
  case (step q r)
  then show ?case using joint_pool_work [of q r] by (meson rtranclp_trans)
qed auto

lemma joint_loop_steps: "joint_step\<^sup>*\<^sup>* (p, s) (p, loop_steps n s)"
proof (induction n arbitrary: s)
  case (Suc n)
  show ?case
  proof (cases "loop_step s")
    case (Some t)
    then have "joint_step (p, s) (p, t)"
      using loop_step_alone [OF Some] by (intro loop_alone loop_step_wstep) auto
    with Suc [of t] Some show ?thesis by (simp add: converse_rtranclp_into_rtranclp)
  qed simp
qed simp

lemma joint_reach_steps: "joint_step\<^sup>*\<^sup>* x y \<Longrightarrow> joint_reach n x \<Longrightarrow> joint_reach n y"
  by (induction rule: rtranclp_induct) (auto intro: joint_more)

text \<open>The signals of the posts and stops that are under way.\<close>

lemma joint_settle:
  "\<exists>t. joint_step\<^sup>*\<^sup>* (p, s) (p, t) \<and> \<not> post_lock t \<and> stopping t = 0 \<and> stop_flag t = stop_flag s"
proof (induction "stopping s" arbitrary: s)
  case 0
  let ?t = "if post_lock s then s\<lparr>efd := bump (efd s), post_lock := False\<rparr> else s"
  have "\<not> post_lock ?t \<and> stopping ?t = 0 \<and> stop_flag ?t = stop_flag s" using 0 by simp
  with joint_signal [of p s] show ?case by blast
next
  case (Suc k)
  let ?s = "s\<lparr>efd := bump (efd s), stopping := stopping s - 1\<rparr>"
  have pos: "stopping s > 0" "k = stopping ?s" using Suc(2) by simp_all
  have step: "joint_step (p, s) (p, ?s)" using stop_signal [OF pos(1)] by (rule loop_alone) simp
  from Suc(1) [OF pos(2)] obtain t where t: "joint_step\<^sup>*\<^sup>* (p, ?s) (p, t)" "\<not> post_lock t" "stopping t = 0"
    "stop_flag t = stop_flag ?s" by blast
  from converse_rtranclp_into_rtranclp [of joint_step, OF step t(1)] t(2-4) show ?case by auto
qed

lemma joint_rest:
  assumes "joint_reach n (p, s)"
  shows "\<exists>q t. joint_step\<^sup>*\<^sup>* (p, s) (q, t) \<and> submitted q = submitted p \<and> at_rest q
    \<and> (asleep t \<or> pc t = Exited)"
proof -
  obtain q where q: "pool_work\<^sup>*\<^sup>* p q" "at_rest q" using pool_reaches_rest by blast
  from joint_pool_works [OF q(1)] obtain s1 where s1: "joint_step\<^sup>*\<^sup>* (p, s) (q, s1)" by blast
  obtain s2 where s2: "joint_step\<^sup>*\<^sup>* (q, s1) (q, s2)" "\<not> post_lock s2" "stopping s2 = 0"
    using joint_settle by blast
  have run: "joint_step\<^sup>*\<^sup>* (p, s) (q, s2)" using s1 s2(1) by (rule rtranclp_trans)
  have "wreach s2" using joint_reach_parts [OF joint_reach_steps [OF run assms]] by blast
  from loop_steps_rest [OF this s2(2,3)] obtain m where
    m: "asleep (loop_steps m s2) \<or> pc (loop_steps m s2) = Exited" by (auto simp: Let_def)
  have "submitted q = submitted p"
    using q(1) pool_works_keep [OF q(1) pool_inv_reach] joint_reach_parts [OF assms] by blast
  with rtranclp_trans [OF run joint_loop_steps [of q s2 m]] q(2) m show ?thesis by blast
qed

section \<open>The property\<close>

lemma handled_posted: "wreach s \<Longrightarrow> mset (map fst (handled s)) \<subseteq># mset (posted s)"
  using wake_inv_reach [of s] by (simp add: wake_inv_def)

lemma finished_submitted: "pool_reach n p \<Longrightarrow> mset (finished p) \<subseteq># mset (submitted p)"
  using pool_inv_reach [of n p] by (auto simp: pool_inv_def)

lemma joint_at_rest:
  assumes "joint_reach n (p, s)" and "at_rest p" and "asleep s"
  shows "mset (map fst (handled s)) = mset (submitted p) \<and> \<not> stop_flag s"
proof -
  from joint_reach_parts [OF assms(1)] have r: "pool_reach n p" "wreach s" "posted s = finished p" by auto
  from rest_is_done [OF pool_inv_reach [OF r(1)] assms(2)] have "mset (finished p) = mset (submitted p)" by simp
  with wake_inv_reach [OF r(2)] r(3) assms(3) show ?thesis by (auto simp: wake_inv_def asleep_def)
qed



end
