(* ===== verification/Kqueue_Loop.thy ===== *)
theory Kqueue_Loop
  imports Loop_Spec
begin

unbundle bit_operations_syntax

text \<open>
  \<open>include/coro_epoll/event_loop.hpp\<close>, the macOS branch: the reactor over \<open>kqueue\<close>.

  The branch shares the table, the tasks and the callbacks with the other one, and so the
  record \<open>event_loop\<close>: here its \<open>epoll_fd\<close> is \<open>kqueue_fd_\<close> and its \<open>wakeup_fd\<close> the read end of
  \<open>wakeup_pipe_\<close>; the write end is added. A filter is registered per direction, and the
  trigger mode is a flag of each registration.
\<close>

section \<open>State\<close>

abbreviation EVFILT_READ :: int where "EVFILT_READ \<equiv> - 1"
abbreviation EVFILT_WRITE :: int where "EVFILT_WRITE \<equiv> - 2"
abbreviation EV_ADD :: "16 word" where "EV_ADD \<equiv> 0x1"
abbreviation EV_DELETE :: "16 word" where "EV_DELETE \<equiv> 0x2"
abbreviation EV_ENABLE :: "16 word" where "EV_ENABLE \<equiv> 0x4"
abbreviation EV_CLEAR :: "16 word" where "EV_CLEAR \<equiv> 0x20"
abbreviation EV_ERROR :: "16 word" where "EV_ERROR \<equiv> 0x4000"
abbreviation EV_EOF :: "16 word" where "EV_EOF \<equiv> 0x8000"

record ('c, 'k) kqueue_loop = "('c, 'k) event_loop" +
  pipe_write :: fd

record kq_event =
  kq_ident :: fd
  kq_filter :: int
  kq_flags :: "16 word"

text \<open>
  \<open>kevent fd filter flags k\<close> is \<open>kevent\<close> with one change and no wait; \<open>kdelete fd filter k\<close> is
  the effect of the loop in \<open>delete_kqueue_filter\<close>, which ignores every error.
\<close>

record 'k kqueue =
  kevent :: "fd \<Rightarrow> int \<Rightarrow> 16 word \<Rightarrow> 'k \<Rightarrow> int option \<times> 'k"
  kdelete :: "fd \<Rightarrow> int \<Rightarrow> 'k \<Rightarrow> 'k"

section \<open>Construction and destruction\<close>

text \<open>\<open>fcntl fd command argument\<close> is \<open>Inl errno\<close> or the result.\<close>

definition set_non_blocking :: "(fd \<Rightarrow> string \<Rightarrow> int \<Rightarrow> int + int) \<Rightarrow> fd \<Rightarrow> exn option" where
  "set_non_blocking fcntl fd = (case fcntl fd ''F_GETFL'' 0 of
      Inl e \<Rightarrow> Some (System_error e ''fcntl F_GETFL'')
    | Inr flags \<Rightarrow> (case fcntl fd ''F_SETFL'' (flags OR 4) of
          Inl e \<Rightarrow> Some (System_error e ''fcntl F_SETFL'')
        | Inr _ \<Rightarrow> None))"

definition set_close_on_exec :: "(fd \<Rightarrow> string \<Rightarrow> int \<Rightarrow> int + int) \<Rightarrow> fd \<Rightarrow> exn option" where
  "set_close_on_exec fcntl fd = (case fcntl fd ''F_GETFD'' 0 of
      Inl e \<Rightarrow> Some (System_error e ''fcntl F_GETFD'')
    | Inr flags \<Rightarrow> (case fcntl fd ''F_SETFD'' (flags OR 1) of
          Inl e \<Rightarrow> Some (System_error e ''fcntl F_SETFD'')
        | Inr _ \<Rightarrow> None))"

text \<open>Calls in a row: the first exception is the one that leaves the block.\<close>

fun first_failure :: "exn option list \<Rightarrow> exn option" where
  "first_failure [] = None"
| "first_failure (None # rs) = first_failure rs"
| "first_failure (Some e # rs) = Some e"

definition kq_add_wakeup_fd ::
    "'k kqueue \<Rightarrow> ('c, 'k, 'z) event_loop_scheme \<Rightarrow> ('c, 'k, 'z) loop_result" where
  "kq_add_wakeup_fd Q L = (case kevent Q (wakeup_fd L) EVFILT_READ (EV_ADD OR EV_ENABLE) (kern L) of
      (Some e, k) \<Rightarrow> (Some (System_error e ''kevent wakeup fd''), L\<lparr>kern := k\<rparr>)
    | (None, k) \<Rightarrow> (None, L\<lparr>kern := k\<rparr>))"

text \<open>The outcome, and the descriptors closed on the way, as in \<open>event_loop_new\<close>.\<close>

definition kqueue_loop_new ::
    "'k kqueue \<Rightarrow> (fd \<Rightarrow> string \<Rightarrow> int \<Rightarrow> int + int) \<Rightarrow> int + fd \<Rightarrow> int + (fd \<times> fd) \<Rightarrow> 'k
       \<Rightarrow> (exn + ('c, 'k) kqueue_loop) \<times> fd list" where
  "kqueue_loop_new Q fcntl kqueue_created pipe_created k = (case kqueue_created of
      Inl e \<Rightarrow> (Inl (System_error e ''kqueue''), [])
    | Inr kq \<Rightarrow> (case pipe_created of
          Inl e \<Rightarrow> (Inl (System_error e ''pipe''), [kq])
        | Inr (r, w) \<Rightarrow>
            (case first_failure [set_non_blocking fcntl r, set_non_blocking fcntl w,
                                 set_close_on_exec fcntl r, set_close_on_exec fcntl w] of
               Some e \<Rightarrow> (Inl e, [r, w])
             | None \<Rightarrow>
                 (case kq_add_wakeup_fd Q \<lparr>epoll_fd = kq, wakeup_fd = r, stopped = False,
                         states = Map.empty, tasks = [], pending = [], kern = k, cerr = [], pipe_write = w\<rparr> of
                    (Some e, _) \<Rightarrow> (Inl e, [r, w])
                  | (None, L) \<Rightarrow> (Inr L, [])))))"

definition kqueue_loop_delete :: "('c, 'k, 'z) kqueue_loop_scheme \<Rightarrow> fd list" where
  "kqueue_loop_delete L =
     (if 0 \<le> wakeup_fd L then [wakeup_fd L] else []) @ (if 0 \<le> pipe_write L then [pipe_write L] else [])
     @ (if 0 \<le> epoll_fd L then [epoll_fd L] else [])"

section \<open>Filters\<close>

definition filter_flags :: "bool \<Rightarrow> 16 word" where
  "filter_flags et = (EV_ADD OR EV_ENABLE) OR (if et then EV_CLEAR else 0)"

definition update_kqueue_filter_impl ::
    "'k kqueue \<Rightarrow> fd \<Rightarrow> int \<Rightarrow> bool \<Rightarrow> bool
       \<Rightarrow> ('c, 'k, 'z) event_loop_scheme \<Rightarrow> ('c, 'k, 'z) loop_result" where
  "update_kqueue_filter_impl Q fd flt active et L =
     (case kevent Q fd flt (if active then filter_flags et else EV_DELETE) (kern L) of
        (Some e, k) \<Rightarrow>
          (if \<not> active \<and> e = ENOENT then (None, L\<lparr>kern := k\<rparr>)
           else (Some (System_error e (if active then ''kevent add'' else ''kevent delete'')), L\<lparr>kern := k\<rparr>))
      | (None, k) \<Rightarrow> (None, L\<lparr>kern := k\<rparr>))"

definition delete_kqueue_filter ::
    "'k kqueue \<Rightarrow> fd \<Rightarrow> int \<Rightarrow> ('c, 'k, 'z) event_loop_scheme \<Rightarrow> ('c, 'k, 'z) event_loop_scheme" where
  "delete_kqueue_filter Q fd flt L = (if epoll_fd L < 0 then L else L\<lparr>kern := kdelete Q fd flt (kern L)\<rparr>)"

definition kq_update_or_remove_impl ::
    "'k kqueue \<Rightarrow> fd \<Rightarrow> fd_state \<Rightarrow> bool
       \<Rightarrow> ('c, 'k, 'z) event_loop_scheme \<Rightarrow> ('c, 'k, 'z) loop_result" where
  "kq_update_or_remove_impl Q fd st et L =
     (if read_handle st = None \<and> write_handle st = None then
        let L1 = delete_kqueue_filter Q fd EVFILT_WRITE (delete_kqueue_filter Q fd EVFILT_READ L)
        in (None, L1\<lparr>states := (states L1)(fd := None)\<rparr>)
      else (case update_kqueue_filter_impl Q fd EVFILT_READ (read_handle st \<noteq> None) et L of
          (Some e, L1) \<Rightarrow> (Some e, L1)
        | (None, L1) \<Rightarrow> update_kqueue_filter_impl Q fd EVFILT_WRITE (write_handle st \<noteq> None) et L1))"

definition kq_update_or_remove where
  "kq_update_or_remove Q fd st L = kq_update_or_remove_impl Q fd st (edge_trigger st) L"

section \<open>Readiness interests\<close>

text \<open>
  As on Linux the entry is written first. When the registration fails, the entry goes only if
  it was made by this call.
\<close>

definition kq_add_interest_impl ::
    "'k kqueue \<Rightarrow> fd \<Rightarrow> int \<Rightarrow> handle \<Rightarrow> bool
       \<Rightarrow> ('c, 'k, 'z) event_loop_scheme \<Rightarrow> ('c, 'k, 'z) loop_result" where
  "kq_add_interest_impl Q fd event h et L =
     (if fd < 0 then
        (Some (Invalid_argument ''cannot wait on an invalid file descriptor''), L)
      else
        let inserted = (states L fd = None);
            st = (case states L fd of None \<Rightarrow> fd_state_init | Some st \<Rightarrow> st)
        in if event \<noteq> EVFILT_READ \<and> event \<noteq> EVFILT_WRITE then
             (Some (Invalid_argument ''unsupported kqueue event interest''),
              L\<lparr>states := (states L)(fd \<mapsto> st)\<rparr>)
           else
             let st1 = (if event = EVFILT_READ then st\<lparr>read_handle := Some h\<rparr>
                        else st\<lparr>write_handle := Some h\<rparr>)
             in (case kq_update_or_remove_impl Q fd st1 et (L\<lparr>states := (states L)(fd \<mapsto> st1)\<rparr>) of
                   (Some e, L1) \<Rightarrow>
                     (Some e, if inserted then L1\<lparr>states := (states L1)(fd := None)\<rparr> else L1)
                 | (None, L1) \<Rightarrow>
                     (None, L1\<lparr>states := (states L1)(fd \<mapsto> st1\<lparr>edge_trigger := et\<rparr>)\<rparr>)))"

definition kq_add_interest where
  "kq_add_interest Q fd event h L = kq_add_interest_impl Q fd event h False L"

definition kq_add_interest_et where
  "kq_add_interest_et Q fd event h L = kq_add_interest_impl Q fd event h True L"

text \<open>\<open>ReadinessAwaiter\<close> with the filters of this branch.\<close>

record kq_awaiter =
  kaw_fd :: fd
  kaw_edge :: bool
  kaw_event :: int

definition kq_readable :: "fd \<Rightarrow> kq_awaiter" where
  "kq_readable fd = \<lparr>kaw_fd = fd, kaw_edge = False, kaw_event = EVFILT_READ\<rparr>"
definition kq_writable :: "fd \<Rightarrow> kq_awaiter" where
  "kq_writable fd = \<lparr>kaw_fd = fd, kaw_edge = False, kaw_event = EVFILT_WRITE\<rparr>"
definition kq_readable_et :: "fd \<Rightarrow> kq_awaiter" where
  "kq_readable_et fd = \<lparr>kaw_fd = fd, kaw_edge = True, kaw_event = EVFILT_READ\<rparr>"
definition kq_writable_et :: "fd \<Rightarrow> kq_awaiter" where
  "kq_writable_et fd = \<lparr>kaw_fd = fd, kaw_edge = True, kaw_event = EVFILT_WRITE\<rparr>"

definition kq_await_suspend ::
    "'k kqueue \<Rightarrow> kq_awaiter \<Rightarrow> handle \<Rightarrow> ('c, 'k, 'z) event_loop_scheme \<Rightarrow> ('c, 'k, 'z) loop_result" where
  "kq_await_suspend Q a h L =
     (if kaw_edge a then kq_add_interest_et Q (kaw_fd a) (kaw_event a) h L
      else kq_add_interest Q (kaw_fd a) (kaw_event a) h L)"

definition kq_remove ::
    "'k kqueue \<Rightarrow> fd \<Rightarrow> ('c, 'k, 'z) event_loop_scheme \<Rightarrow> ('c, 'k, 'z) event_loop_scheme" where
  "kq_remove Q fd L =
     (if fd < 0 then L
      else let L1 = delete_kqueue_filter Q fd EVFILT_WRITE (delete_kqueue_filter Q fd EVFILT_READ L)
           in L1\<lparr>states := (states L1)(fd := None)\<rparr>)"

section \<open>Wakeup and dispatch\<close>

definition kq_wakeup ::
    "('s, 'c, 'k) host \<Rightarrow> ('c, 'k, 'z) kqueue_loop_scheme \<Rightarrow> ('c, 'k, 'z) kqueue_loop_scheme" where
  "kq_wakeup H L = (if pipe_write L < 0 then L else L\<lparr>kern := signal H (kern L)\<rparr>)"

definition kq_post :: "('s, 'c, 'k) host \<Rightarrow> 'c \<Rightarrow> ('c, 'k, 'z) kqueue_loop_scheme \<Rightarrow> ('c, 'k, 'z) kqueue_loop_scheme" where
  "kq_post H c L = kq_wakeup H (L\<lparr>pending := pending L @ [c]\<rparr>)"

definition kq_stop :: "('s, 'c, 'k) host \<Rightarrow> ('c, 'k, 'z) kqueue_loop_scheme \<Rightarrow> ('c, 'k, 'z) kqueue_loop_scheme" where
  "kq_stop H L = kq_wakeup H (L\<lparr>stopped := True\<rparr>)"

fun kq_wants :: "direction \<Rightarrow> kq_event \<Rightarrow> bool" where
  "kq_wants Readable ev \<longleftrightarrow> kq_filter ev = EVFILT_READ \<or> kq_flags ev AND (EV_ERROR OR EV_EOF) \<noteq> 0"
| "kq_wants Writable ev \<longleftrightarrow> kq_filter ev = EVFILT_WRITE \<or> kq_flags ev AND (EV_ERROR OR EV_EOF) \<noteq> 0"

text \<open>\<open>drain_wakeup_fd\<close> reads until the pipe is empty: \<open>unsignal\<close>, as on Linux.\<close>

definition kq_dispatch ::
    "'k kqueue \<Rightarrow> ('c, 'k, 'z) loop_host \<Rightarrow> kq_event
       \<Rightarrow> ('c, 'k, 'z) event_loop_scheme \<Rightarrow> ('c, 'k, 'z) loop_result" where
  "kq_dispatch Q H ev L =
     (if kq_ident ev = wakeup_fd L then dispatch_wakeup H L
      else (case states L (kq_ident ev) of
          None \<Rightarrow> (None, L)
        | Some st \<Rightarrow>
            let fd = kq_ident ev;
                r = (if kq_wants Readable ev then read_handle st else None);
                w = (if kq_wants Writable ev then write_handle st else None);
                st1 = (if kq_wants Readable ev then st\<lparr>read_handle := None\<rparr> else st);
                st2 = (if kq_wants Writable ev then st1\<lparr>write_handle := None\<rparr> else st1)
            in case kq_update_or_remove Q fd st2 (L\<lparr>states := (states L)(fd \<mapsto> st2)\<rparr>) of
                 (Some e, L') \<Rightarrow> (Some e, L')
               | (None, L') \<Rightarrow> (None, resume_opt H w (resume_opt H r L'))))"

fun kq_dispatch_all ::
    "'k kqueue \<Rightarrow> ('c, 'k, 'z) loop_host \<Rightarrow> kq_event list
       \<Rightarrow> ('c, 'k, 'z) event_loop_scheme \<Rightarrow> ('c, 'k, 'z) event_loop_scheme" where
  "kq_dispatch_all Q H [] L = L"
| "kq_dispatch_all Q H (ev # evs) L = (case kq_dispatch Q H ev L of
      (None, L') \<Rightarrow> kq_dispatch_all Q H evs L'
    | (Some e, L') \<Rightarrow>
        kq_dispatch_all Q H evs (L'\<lparr>cerr := cerr L' @
          [(if std_exception e then ''event loop dispatch error: ''
            else ''event loop dispatch unknown error'', e)]\<rparr>))"

fun kq_run ::
    "'k kqueue \<Rightarrow> ('c, 'k, 'z) loop_host \<Rightarrow> (int + kq_event list) list
       \<Rightarrow> ('c, 'k, 'z) event_loop_scheme \<Rightarrow> unit outcome \<times> ('c, 'k, 'z) event_loop_scheme" where
  "kq_run Q H ws L =
     (if stopped L then (Returned (), L)
      else (case before_wait H L of
          (Some e, L1) \<Rightarrow> (Threw e, L1)
        | (None, L1) \<Rightarrow>
            (case ws of
               [] \<Rightarrow> (Pending, L1)
             | Inl errno # ws' \<Rightarrow>
                 (if errno = EINTR then kq_run Q H ws' L1
                  else (Threw (System_error errno ''kevent_wait''), L1))
             | Inr evs # ws' \<Rightarrow> kq_run Q H ws' (kq_dispatch_all Q H evs L1))))"

declare kq_run.simps [simp del]

section \<open>What the kernel promises\<close>

fun filter_of :: "direction \<Rightarrow> int" where
  "filter_of Readable = EVFILT_READ"
| "filter_of Writable = EVFILT_WRITE"

text \<open>
  The documented behaviour of \<open>kevent\<close> that the branch relies on, over \<open>interest k\<close>, the flags
  with which a filter of a descriptor is registered: adding registers or modifies, deleting
  unregisters and reports ENOENT for a filter that is not there, and a failing call changes
  nothing.
\<close>

definition kq_laws :: "'k kqueue \<Rightarrow> ('k \<Rightarrow> fd \<Rightarrow> int \<Rightarrow> 16 word option) \<Rightarrow> bool" where
  "kq_laws Q interest \<longleftrightarrow>
     (\<forall>fd flt et k k'. kevent Q fd flt (filter_flags et) k = (None, k') \<longrightarrow>
        interest k' = (interest k)(fd := (interest k fd)(flt \<mapsto> filter_flags et))) \<and>
     (\<forall>fd flt k k'. kevent Q fd flt EV_DELETE k = (None, k') \<longrightarrow>
        interest k' = (interest k)(fd := (interest k fd)(flt := None))) \<and>
     (\<forall>fd flt fl k e k'. kevent Q fd flt fl k = (Some e, k') \<longrightarrow>
        interest k' = interest k \<and> (fl = EV_DELETE \<and> e = ENOENT \<longrightarrow> interest k fd flt = None)) \<and>
     (\<forall>fd flt k. interest (kdelete Q fd flt k) = (interest k)(fd := (interest k fd)(flt := None)))"

lemma kq_lawsD:
  assumes "kq_laws Q interest"
  shows "kevent Q fd flt (filter_flags et) k = (None, k') \<Longrightarrow>
           interest k' = (interest k)(fd := (interest k fd)(flt \<mapsto> filter_flags et))"
    and "kevent Q fd flt EV_DELETE k = (None, k') \<Longrightarrow>
           interest k' = (interest k)(fd := (interest k fd)(flt := None))"
    and "kevent Q fd flt fl k = (Some e, k') \<Longrightarrow> interest k' = interest k"
    and "kevent Q fd flt EV_DELETE k = (Some ENOENT, k') \<Longrightarrow> interest k fd flt = None"
    and "interest (kdelete Q fd flt k) = (interest k)(fd := (interest k fd)(flt := None))"
  using assms unfolding kq_laws_def by blast+

text \<open>What an entry asks of the kernel; every entry has a waiter and its filters registered so.\<close>

definition asked :: "fd_state \<Rightarrow> bool \<Rightarrow> direction \<Rightarrow> 16 word option" where
  "asked st et d = (if handle_for d st \<noteq> None then Some (filter_flags et) else None)"

definition kq_ok ::
    "('k \<Rightarrow> fd \<Rightarrow> int \<Rightarrow> 16 word option) \<Rightarrow> ('c, 'k, 'z) event_loop_scheme \<Rightarrow> bool" where
  "kq_ok interest L \<longleftrightarrow> (\<forall>fd st. states L fd = Some st \<longrightarrow>
     (\<exists>d. handle_for d st \<noteq> None) \<and> (\<forall>d. interest (kern L) fd (filter_of d) = asked st (edge_trigger st) d))"

lemma ex_direction: "(\<exists>d. P d) \<longleftrightarrow> P Readable \<or> P Writable"
  by (metis direction.exhaust)

lemma update_filter_sets:
  assumes "kq_laws Q interest" and "update_kqueue_filter_impl Q fd flt active et L = (None, L')"
  shows "\<exists>k. L' = L\<lparr>kern := k\<rparr> \<and> interest k = (interest (kern L))
    (fd := (interest (kern L) fd)(flt := if active then Some (filter_flags et) else None))"
proof -
  obtain res k where c: "kevent Q fd flt (if active then filter_flags et else EV_DELETE) (kern L) = (res, k)"
    by (meson surj_pair)
  with assms(2) have L: "L' = L\<lparr>kern := k\<rparr>" and r: "res = None \<or> (res = Some ENOENT \<and> \<not> active)"
    by (auto simp: update_kqueue_filter_impl_def split: option.splits if_splits)
  from r have "interest k = (interest (kern L))
    (fd := (interest (kern L) fd)(flt := if active then Some (filter_flags et) else None))"
  proof (elim disjE conjE)
    assume "res = None"
    with c show ?thesis using kq_lawsD(1,2) [OF assms(1)] by (cases active) auto
  next
    assume "res = Some ENOENT" "\<not> active"
    with c have "kevent Q fd flt EV_DELETE (kern L) = (Some ENOENT, k)" by simp
    from kq_lawsD(3,4) [OF assms(1) this] \<open>\<not> active\<close> show ?thesis by (simp add: fun_upd_idem)
  qed
  with L show ?thesis by blast
qed

text \<open>Narrowing or widening the registration of a descriptor to what its entry asks for.\<close>

lemma kq_update_sets:
  assumes "kq_laws Q interest" and "0 \<le> epoll_fd L"
    and "kq_update_or_remove_impl Q fd st et (L\<lparr>states := (states L)(fd \<mapsto> st)\<rparr>) = (None, L')"
  shows "\<exists>k. L' = L\<lparr>states := (states L)(fd := if \<exists>d. handle_for d st \<noteq> None then Some st else None), kern := k\<rparr>
    \<and> (\<forall>g. g \<noteq> fd \<longrightarrow> interest k g = interest (kern L) g) \<and> (\<forall>d. interest k fd (filter_of d) = asked st et d)"
proof (cases "read_handle st = None \<and> write_handle st = None")
  case True
  let ?k = "kdelete Q fd EVFILT_WRITE (kdelete Q fd EVFILT_READ (kern L))"
  have "L' = L\<lparr>states := (states L)(fd := None), kern := ?k\<rparr>"
    using True assms(2,3) by (auto simp: kq_update_or_remove_impl_def Let_def delete_kqueue_filter_def)
  moreover have "(\<forall>g. g \<noteq> fd \<longrightarrow> interest ?k g = interest (kern L) g)
      \<and> (\<forall>d. interest ?k fd (filter_of d) = asked st et d)"
    using True by (simp add: kq_lawsD(5) [OF assms(1)] asked_def all_direction)
  ultimately show ?thesis using True by (intro exI [of _ ?k]) (simp add: ex_direction)
next
  case False
  let ?L = "L\<lparr>states := (states L)(fd \<mapsto> st)\<rparr>"
  obtain L1 where u: "update_kqueue_filter_impl Q fd EVFILT_READ (read_handle st \<noteq> None) et ?L = (None, L1)"
    "update_kqueue_filter_impl Q fd EVFILT_WRITE (write_handle st \<noteq> None) et L1 = (None, L')"
    using False assms(3) by (auto simp: kq_update_or_remove_impl_def split: prod.splits option.splits)
  from update_filter_sets [OF assms(1) u(1)] obtain k1 where
    k1: "L1 = ?L\<lparr>kern := k1\<rparr>" "interest k1 = (interest (kern ?L))(fd := (interest (kern ?L) fd)
      (EVFILT_READ := if read_handle st \<noteq> None then Some (filter_flags et) else None))" by blast
  from update_filter_sets [OF assms(1) u(2)] obtain k2 where
    k2: "L' = L1\<lparr>kern := k2\<rparr>" "interest k2 = (interest (kern L1))(fd := (interest (kern L1) fd)
      (EVFILT_WRITE := if write_handle st \<noteq> None then Some (filter_flags et) else None))" by blast
  have "L' = L\<lparr>states := (states L)(fd := if \<exists>d. handle_for d st \<noteq> None then Some st else None), kern := k2\<rparr>"
    using False k1(1) k2(1) by (simp add: ex_direction)
  moreover have "(\<forall>g. g \<noteq> fd \<longrightarrow> interest k2 g = interest (kern L) g)
      \<and> (\<forall>d. interest k2 fd (filter_of d) = asked st et d)"
    by (simp add: k1 k2(2) asked_def all_direction)
  ultimately show ?thesis by blast
qed

lemma kq_ok_upd:
  assumes "kq_ok interest L" and "\<forall>g. g \<noteq> fd \<longrightarrow> interest k g = interest (kern L) g"
    and "\<forall>st. x = Some st \<longrightarrow> (\<exists>d. handle_for d st \<noteq> None)
           \<and> (\<forall>d. interest k fd (filter_of d) = asked st (edge_trigger st) d)"
  shows "kq_ok interest (L\<lparr>states := (states L)(fd := x), kern := k\<rparr>)"
  using assms by (auto simp: kq_ok_def split: if_splits)

lemma kq_remove_ok:
  assumes "kq_laws Q interest" and "0 \<le> epoll_fd L" and "kq_ok interest L"
  shows "kq_ok interest (kq_remove Q g L)"
proof -
  have "kq_remove Q g L = (if g < 0 then L else L\<lparr>states := (states L)(g := None),
      kern := kdelete Q g EVFILT_WRITE (kdelete Q g EVFILT_READ (kern L))\<rparr>)"
    using assms(2) by (simp add: kq_remove_def Let_def delete_kqueue_filter_def)
  then show ?thesis
    using kq_ok_upd [OF assms(3), of g _ None] assms(3) by (simp add: kq_lawsD(5) [OF assms(1)])
qed

section \<open>Properties\<close>

lemma kq_add_interest_ok:
  assumes "kq_laws Q interest" and "0 \<le> epoll_fd L" and "kq_ok interest L"
    and "kq_add_interest_impl Q fd (filter_of d) h et L = (None, L')"
  shows "waiting L' = (waiting L)(fd := (waiting L fd)(d \<mapsto> h))
    \<and> map_option edge_trigger (states L' fd) = Some et \<and> kq_ok interest L'
    \<and> tasks L' = tasks L \<and> pending L' = pending L \<and> epoll_fd L' = epoll_fd L
    \<and> kq_ok interest (kq_remove Q g L)"
proof -
  define st where "st = (case states L fd of None \<Rightarrow> fd_state_init | Some st \<Rightarrow> st)"
  define st1 where "st1 = (if d = Readable then st\<lparr>read_handle := Some h\<rparr> else st\<lparr>write_handle := Some h\<rparr>)"
  have pos: "0 \<le> fd" using assms(4) by (auto simp: kq_add_interest_impl_def split: if_splits)
  have run: "kq_add_interest_impl Q fd (filter_of d) h et L =
    (case kq_update_or_remove_impl Q fd st1 et (L\<lparr>states := (states L)(fd \<mapsto> st1)\<rparr>) of
        (Some e, L1) \<Rightarrow> (Some e, if states L fd = None then L1\<lparr>states := (states L1)(fd := None)\<rparr> else L1)
      | (None, L1) \<Rightarrow> (None, L1\<lparr>states := (states L1)(fd \<mapsto> st1\<lparr>edge_trigger := et\<rparr>)\<rparr>))"
    using pos by (cases d) (simp_all add: kq_add_interest_impl_def Let_def st1_def st_def
      cong: prod.case_cong option.case_cong)
  then obtain L1 where u: "kq_update_or_remove_impl Q fd st1 et (L\<lparr>states := (states L)(fd \<mapsto> st1)\<rparr>) = (None, L1)"
    and L': "L' = L1\<lparr>states := (states L1)(fd \<mapsto> st1\<lparr>edge_trigger := et\<rparr>)\<rparr>"
    using assms(4) by (auto split: prod.splits option.splits)
  obtain k where k: "L1 = L\<lparr>states := (states L)(fd := if \<exists>d. handle_for d st1 \<noteq> None then Some st1 else None), kern := k\<rparr>"
    "\<forall>g. g \<noteq> fd \<longrightarrow> interest k g = interest (kern L) g" "\<forall>d. interest k fd (filter_of d) = asked st1 et d"
    using kq_update_sets [OF assms(1,2) u] by blast
  have L'': "L' = L\<lparr>states := (states L)(fd \<mapsto> st1\<lparr>edge_trigger := et\<rparr>), kern := k\<rparr>"
    by (simp add: L' k(1))
  have edge: "handle_for d' (st1\<lparr>edge_trigger := et\<rparr>) = handle_for d' st1" for d' by (cases d') simp_all
  have some: "handle_for d st1 = Some h" by (cases d) (simp_all add: st1_def)
  have "kq_ok interest L'" unfolding L''
    by (rule kq_ok_upd [OF assms(3) k(2)]) (use k(3) some edge in \<open>auto simp: asked_def\<close>)
  moreover have "waiting L' g' d' = ((waiting L)(fd := (waiting L fd)(d \<mapsto> h))) g' d'" for g' d'
    by (cases d; cases d') (auto simp: L'' waiting_def st1_def st_def fd_state_init_def split: option.split)
  moreover have "kq_ok interest (kq_remove Q g L)" by (rule kq_remove_ok [OF assms(1-3)])
  moreover have "waiting L' = (waiting L)(fd := (waiting L fd)(d \<mapsto> h))"
    using calculation(2) by blast
  ultimately show ?thesis by (simp add: L'')
qed

text \<open>
  Waiting on \<open>kqueue\<close>. When the registration succeeds, the coroutine is the one waiter of
  its descriptor and direction, every other waiter is kept, and the table and the kernel stay
  in step: each filter is registered exactly when somebody waits for it, with the trigger mode
  of the descriptor. \<open>remove\<close> keeps them in step, too.
\<close>

theorem kq_await_registers:
  assumes "kq_laws Q interest" and "0 \<le> epoll_fd L" and "kq_ok interest L"
    and "kq_add_interest_impl Q fd (filter_of d) h et L = (None, L')"
  shows "waiting L' = (waiting L)(fd := (waiting L fd)(d \<mapsto> h))
    \<and> map_option edge_trigger (states L' fd) = Some et \<and> kq_ok interest L'
    \<and> tasks L' = tasks L \<and> pending L' = pending L \<and> epoll_fd L' = epoll_fd L
    \<and> kq_ok interest (kq_remove Q g L)"
  using kq_add_interest_ok [OF assms] .

text \<open>A kernel that keeps its filters in a table.\<close>

type_synonym filter_table = "fd \<Rightarrow> int \<Rightarrow> 16 word option"

definition example_kqueue :: "filter_table kqueue" where
  "example_kqueue = \<lparr>
     kevent = (\<lambda>fd flt fl k.
       if fl = EV_DELETE then
         (if k fd flt = None then (Some ENOENT, k) else (None, k(fd := (k fd)(flt := None))))
       else (None, k(fd := (k fd)(flt \<mapsto> fl)))),
     kdelete = (\<lambda>fd flt k. k(fd := (k fd)(flt := None)))\<rparr>"

definition example_kqueue_loop :: "(handle, filter_table) kqueue_loop" where
  "example_kqueue_loop = \<lparr>epoll_fd = 3, wakeup_fd = 4, stopped = False, states = Map.empty, tasks = [],
     pending = [], kern = (\<lambda>fd. Map.empty), cerr = [], pipe_write = 5\<rparr>"

text \<open>Its coroutines and callbacks do nothing but record that they were resumed.\<close>

definition example_kq_host :: "(handle, filter_table, 'z) loop_host" where
  "example_kq_host = \<lparr>ctl = (\<lambda>op fd ev k. (None, k)), signal = id, unsignal = id,
     resume_handle = (\<lambda>h L. L\<lparr>pending := pending L @ [h]\<rparr>), done_handle = (\<lambda>L h. False),
     failure_of = (\<lambda>L h. None), destroy_handle = (\<lambda>h L. L), invoke = (\<lambda>c L. (None, L))\<rparr>"

lemma example_kq_laws: "kq_laws example_kqueue (\<lambda>k. k)"
  by (auto simp: kq_laws_def example_kqueue_def filter_flags_def split: if_splits)

theorem kq_await_registers_witness:
  "\<exists>L'. kq_add_interest_impl example_kqueue 7 EVFILT_WRITE 2 True example_kqueue_loop = (None, L')
     \<and> waiting L' 7 Writable = Some 2 \<and> kq_ok (\<lambda>k. k) L'"
proof -
  have ok: "0 \<le> epoll_fd example_kqueue_loop" "kq_ok (\<lambda>k. k) example_kqueue_loop"
    by (simp_all add: example_kqueue_loop_def kq_ok_def)
  obtain L' where r: "kq_add_interest_impl example_kqueue 7 (filter_of Writable) 2 True example_kqueue_loop = (None, L')"
    by (simp add: kq_add_interest_impl_def kq_update_or_remove_impl_def update_kqueue_filter_impl_def
        example_kqueue_def example_kqueue_loop_def fd_state_init_def filter_flags_def Let_def)
  from kq_await_registers [OF example_kq_laws ok r] r show ?thesis by auto
qed

text \<open>
  A failing registration on \<open>kqueue\<close> leaves a dangling waiter. When a writer waits on a
  descriptor and registering a reader of the same descriptor fails, the reader gets the
  exception out of its \<open>co_await\<close> and goes on; but its handle stays in the entry, and a later
  event on the descriptor resumes it in the middle of whatever it does then, or after its end.
\<close>

theorem kq_failed_wait_leaves_handle:
  assumes "states L fd = Some st" and "write_handle st = Some w" and "0 \<le> fd" and "fd \<noteq> wakeup_fd L"
    and "kevent Q fd EVFILT_READ (filter_flags et) (kern L) = (Some e, k)"
    and "kq_flags ev AND EV_EOF = EV_EOF" and "kq_ident ev = fd"
  shows "\<exists>L' L''. kq_add_interest_impl Q fd EVFILT_READ h et L = (Some (System_error e ''kevent add''), L')
    \<and> waiting L' fd Readable = Some h
    \<and> kq_dispatch Q H ev L' = (None, resume_handle H w (resume_handle H h L''))"
proof -
  let ?L' = "L\<lparr>states := (states L)(fd \<mapsto> st\<lparr>read_handle := Some h\<rparr>), kern := k\<rparr>"
  have "kq_flags ev AND (EV_ERROR OR EV_EOF) \<noteq> 0"
  proof
    assume "kq_flags ev AND (EV_ERROR OR EV_EOF) = 0"
    then have "(kq_flags ev AND EV_ERROR) OR EV_EOF = 0"
      by (metis assms(6) bit.conj_disj_distrib)
    then show False by (simp add: or_eq_0_iff)
  qed
  then have wants: "kq_wants Readable ev" "kq_wants Writable ev" by simp_all
  have "kq_add_interest_impl Q fd EVFILT_READ h et L = (Some (System_error e ''kevent add''), ?L')"
    using assms(1-3,5)
    by (simp add: kq_add_interest_impl_def kq_update_or_remove_impl_def update_kqueue_filter_impl_def Let_def)
  moreover have "waiting ?L' fd Readable = Some h" by (simp add: waiting_def)
  moreover have "\<exists>L''. kq_dispatch Q H ev ?L' = (None, resume_handle H w (resume_handle H h L''))"
    using assms(2,4,7) wants
    by (simp add: kq_dispatch_def kq_update_or_remove_def kq_update_or_remove_impl_def Let_def resume_opt_def
        del: kq_wants.simps) blast
  ultimately show ?thesis by blast
qed

text \<open>
  The constructor over \<open>kqueue\<close> leaks. When a step after \<open>pipe\<close> fails, both ends of the pipe
  are closed, but the kqueue itself is not, and it is forgotten; the Linux branch closes its
  epoll instance in this place. A loop that was made has its read end registered, and its
  destructor closes the three descriptors.
\<close>

theorem kq_construction_leaks:
  assumes "kq_laws Q interest" and "kqueue_loop_new Q fcntl (Inr kq) (Inr (r, w)) k = (out, cl)"
    and "0 \<le> kq" and "0 \<le> r" and "0 \<le> w"
  shows "(\<forall>e. out = Inl e \<longrightarrow> cl = [r, w])
    \<and> (\<forall>L. out = Inr L \<longrightarrow> cl = [] \<and> kq_ok interest L \<and> interest (kern L) r EVFILT_READ = Some (filter_flags False)
         \<and> kqueue_loop_delete L = [r, w, kq])"
proof -
  have reg: "interest k' r EVFILT_READ = Some (filter_flags False)"
    if "kevent Q r EVFILT_READ (EV_ADD OR EV_ENABLE) k = (None, k')" for k'
    using kq_lawsD(1) [OF assms(1), of r EVFILT_READ False k k'] that by (simp add: filter_flags_def)
  from assms(2-) reg show ?thesis
    by (auto simp: kqueue_loop_new_def kq_add_wakeup_fd_def kqueue_loop_delete_def kq_ok_def
        split: option.splits prod.splits)
qed

theorem kq_construction_leaks_witness:
  "(kqueue_loop_new example_kqueue (\<lambda>fd cmd arg. if cmd = ''F_SETFD'' then Inl 9 else Inr 0) (Inr 3) (Inr (4, 5))
      (\<lambda>fd. Map.empty) :: (exn + (handle, filter_table) kqueue_loop) \<times> fd list) =
   (Inl (System_error 9 ''fcntl F_SETFD''), [4, 5])"
proof -
  let ?fcntl = "\<lambda>fd cmd arg. if cmd = ''F_SETFD'' then Inl 9 else Inr 0 :: int + int"
  obtain out :: "exn + (handle, filter_table) kqueue_loop" and cl where
    r: "kqueue_loop_new example_kqueue ?fcntl (Inr 3) (Inr (4, 5)) (\<lambda>fd. Map.empty) = (out, cl)"
    by (metis surj_pair)
  then have o: "out = Inl (System_error 9 ''fcntl F_SETFD'')"
    by (simp add: kqueue_loop_new_def set_non_blocking_def set_close_on_exec_def)
  have "(0 :: fd) \<le> 3" "(0 :: fd) \<le> 4" "(0 :: fd) \<le> 5" by simp_all
  from kq_construction_leaks [OF example_kq_laws r this] o have "cl = [4, 5]" by simp
  with r o show ?thesis by simp
qed

text \<open>A kernel that refuses one filter.\<close>

definition refusing :: "int \<Rightarrow> filter_table kqueue" where
  "refusing flt = example_kqueue\<lparr>kevent := (\<lambda>fd f fl k.
     if f = flt \<and> fl \<noteq> EV_DELETE then (Some 12, k) else kevent example_kqueue fd f fl k)\<rparr>"

theorem kq_failed_wait_leaves_handle_witness:
  "\<exists>L'. kq_add_interest_impl (refusing EVFILT_READ) 7 EVFILT_READ 5 False
      (example_kqueue_loop\<lparr>states := [7 \<mapsto> fd_state_init\<lparr>write_handle := Some 2\<rparr>]\<rparr>) =
      (Some (System_error 12 ''kevent add''), L')
    \<and> waiting L' 7 Readable = Some 5"
proof -
  let ?st = "fd_state_init\<lparr>write_handle := Some 2\<rparr>"
  let ?L = "example_kqueue_loop\<lparr>states := [7 \<mapsto> ?st]\<rparr>"
  let ?ev = "\<lparr>kq_ident = 7, kq_filter = EVFILT_WRITE, kq_flags = EV_EOF\<rparr>"
  have p: "states ?L 7 = Some ?st" "write_handle ?st = Some 2" "(0 :: int) \<le> 7" "7 \<noteq> wakeup_fd ?L"
    "kevent (refusing EVFILT_READ) 7 EVFILT_READ (filter_flags False) (kern ?L) = (Some 12, kern ?L)"
    "kq_flags ?ev AND EV_EOF = EV_EOF" "kq_ident ?ev = 7"
    by (simp_all add: example_kqueue_loop_def refusing_def filter_flags_def)
  from kq_failed_wait_leaves_handle [OF p, where H = "example_kq_host" and h = 5] show ?thesis by blast
qed

definition kq_ready :: "kq_event \<Rightarrow> fd_state \<Rightarrow> handle list" where
  "kq_ready ev st =
     (if kq_wants Readable ev then (case read_handle st of None \<Rightarrow> [] | Some h \<Rightarrow> [h]) else [])
     @ (if kq_wants Writable ev then (case write_handle st of None \<Rightarrow> [] | Some h \<Rightarrow> [h]) else [])"

text \<open>A kernel that takes every change: deleting a filter that is not there may report ENOENT.\<close>

definition accepts :: "'k kqueue \<Rightarrow> bool" where
  "accepts Q \<longleftrightarrow> (\<forall>fd flt fl k e k'. kevent Q fd flt fl k = (Some e, k') \<longrightarrow> fl = EV_DELETE \<and> e = ENOENT)"

lemma filter_flags_add: "filter_flags et \<noteq> EV_DELETE"
  by (simp add: filter_flags_def)

lemma accepted_update:
  assumes "accepts Q"
  shows "\<exists>L'. update_kqueue_filter_impl Q fd flt active et L = (None, L')"
proof -
  obtain res k where c: "kevent Q fd flt (if active then filter_flags et else EV_DELETE) (kern L) = (res, k)"
    by (meson surj_pair)
  have "res = Some e \<Longrightarrow> \<not> active \<and> e = ENOENT" for e
    using assms c filter_flags_add unfolding accepts_def by (metis (full_types))
  with c show ?thesis by (cases res) (auto simp: update_kqueue_filter_impl_def)
qed

lemma accepted_update_or_remove:
  assumes "accepts Q"
  shows "\<exists>L'. kq_update_or_remove_impl Q fd st et L = (None, L')"
proof -
  obtain L1 where "update_kqueue_filter_impl Q fd EVFILT_READ (read_handle st \<noteq> None) et L = (None, L1)"
    using accepted_update [OF assms] by blast
  moreover obtain L2 where "update_kqueue_filter_impl Q fd EVFILT_WRITE (write_handle st \<noteq> None) et L1 = (None, L2)"
    using accepted_update [OF assms] by blast
  ultimately show ?thesis by (auto simp: kq_update_or_remove_impl_def Let_def simp del: not_None_eq)
qed



end
