(* ===== verification/Reactor.thy ===== *)
theory Reactor
  imports Kqueue_Loop
begin

text \<open>
  What a coroutine needs of either backend of the event loop: a table of waiters. The locale
  states that contract for registering and removing; both branches of \<open>event_loop.hpp\<close> are
  interpretations of it, so that they can be exchanged.
\<close>

section \<open>The contract\<close>

datatype table_op = Wait fd direction handle bool | Forget fd

type_synonym waiters = "fd \<Rightarrow> direction \<Rightarrow> handle option"

text \<open>The abstract table: who waits on which descriptor in which direction.\<close>

fun on_table :: "table_op \<Rightarrow> waiters \<Rightarrow> waiters" where
  "on_table (Wait fd d h et) t = t(fd := (t fd)(d \<mapsto> h))"
| "on_table (Forget fd) t = (if fd < 0 then t else t(fd := (\<lambda>d. None)))"

text \<open>A sequence of operations on a backend; \<open>None\<close> when a registration threw.\<close>

fun run_table :: "(fd \<Rightarrow> direction \<Rightarrow> handle \<Rightarrow> bool \<Rightarrow> 'l \<Rightarrow> exn option \<times> 'l) \<Rightarrow> (fd \<Rightarrow> 'l \<Rightarrow> 'l)
    \<Rightarrow> table_op list \<Rightarrow> 'l \<Rightarrow> 'l option" where
  "run_table add rem [] L = Some L"
| "run_table add rem (Wait fd d h et # ops) L = (case add fd d h et L of
      (Some e, _) \<Rightarrow> None
    | (None, L') \<Rightarrow> run_table add rem ops L')"
| "run_table add rem (Forget fd # ops) L = run_table add rem ops (rem fd L)"

locale reactor =
  fixes add :: "fd \<Rightarrow> direction \<Rightarrow> handle \<Rightarrow> bool \<Rightarrow> 'l \<Rightarrow> exn option \<times> 'l"
    and rem :: "fd \<Rightarrow> 'l \<Rightarrow> 'l" and who :: "'l \<Rightarrow> waiters" and sound :: "'l \<Rightarrow> bool"
  assumes add_waits: "sound L \<Longrightarrow> add fd d h et L = (None, L') \<Longrightarrow>
      sound L' \<and> who L' = on_table (Wait fd d h et) (who L)"
    and rem_forgets: "sound L \<Longrightarrow> sound (rem fd L) \<and> who (rem fd L) = on_table (Forget fd) (who L)"
begin

lemma refines_table:
  "sound L \<Longrightarrow> run_table add rem ops L = Some L' \<Longrightarrow> sound L' \<and> who L' = fold on_table ops (who L)"
proof (induction ops arbitrary: L)
  case (Cons op ops)
  show ?case
  proof (cases op)
    case (Wait fd d h et)
    with Cons.prems obtain L1 where a: "add fd d h et L = (None, L1)" and r: "run_table add rem ops L1 = Some L'"
      by (auto split: prod.splits option.splits)
    from add_waits [OF Cons.prems(1) a] have "sound L1" and t: "who L1 = on_table op (who L)" by (simp_all add: Wait)
    from Cons.IH [OF this(1) r] show ?thesis by (simp only: t fold.simps comp_apply)
  next
    case (Forget fd)
    from rem_forgets [OF Cons.prems(1), of fd] have "sound (rem fd L)" and t: "who (rem fd L) = on_table op (who L)"
      by (simp_all add: Forget)
    from Cons.IH [OF this(1)] Cons.prems(2) show ?thesis by (simp only: t fold.simps comp_apply Forget run_table.simps)
  qed
qed simp

end

section \<open>The two backends\<close>

text \<open>The awaiters of each branch, by direction and trigger mode.\<close>

definition linux_awaiter :: "fd \<Rightarrow> direction \<Rightarrow> bool \<Rightarrow> readiness_awaiter" where
  "linux_awaiter fd d et = (case d of
      Readable \<Rightarrow> (if et then readable_et fd else readable fd)
    | Writable \<Rightarrow> (if et then writable_et fd else writable fd))"

definition macos_awaiter :: "fd \<Rightarrow> direction \<Rightarrow> bool \<Rightarrow> kq_awaiter" where
  "macos_awaiter fd d et = (case d of
      Readable \<Rightarrow> (if et then kq_readable_et fd else kq_readable fd)
    | Writable \<Rightarrow> (if et then kq_writable_et fd else kq_writable fd))"

definition linux_wait where
  "linux_wait H fd d h et L = await_suspend_ready H (linux_awaiter fd d et) h L"

definition macos_wait where
  "macos_wait Q fd d h et L = kq_await_suspend Q (macos_awaiter fd d et) h L"

lemma linux_wait_eq: "linux_wait H fd d h et L = add_interest_impl H fd (event_of d) h et L"
  by (cases d) (simp_all add: linux_wait_def linux_awaiter_def await_suspend_ready_def add_interest_def
      add_interest_et_def readable_def writable_def readable_et_def writable_et_def)

lemma macos_wait_eq: "macos_wait Q fd d h et L = kq_add_interest_impl Q fd (filter_of d) h et L"
  by (cases d) (simp_all add: macos_wait_def macos_awaiter_def kq_await_suspend_def kq_add_interest_def
      kq_add_interest_et_def kq_readable_def kq_writable_def kq_readable_et_def kq_writable_et_def)

lemma add_interest_waits:
  assumes "add_interest_impl H fd (event_of d) h et L = (None, L')"
  shows "waiting L' = (waiting L)(fd := (waiting L fd)(d \<mapsto> h))"
proof (intro ext)
  fix g d'
  show "waiting L' g d' = ((waiting L)(fd := (waiting L fd)(d \<mapsto> h))) g d'"
    using assms
    by (cases d; cases d') (auto simp: add_interest_impl_def Let_def waiting_def fd_state_init_def
        split: if_splits option.splits prod.splits)
qed

interpretation linux: reactor "linux_wait H" "remove H" waiting "\<lambda>L. epoll_laws H interest \<and> loop_ok interest L"
  for H :: "('c, 'k, 'z) loop_host" and interest
proof
  fix L L' :: "('c, 'k, 'z) event_loop_scheme" and fd d h et
  assume ok: "epoll_laws H interest \<and> loop_ok interest L" and a: "linux_wait H fd d h et L = (None, L')"
  then have "loop_ok interest L'"
    using add_interest_ok [of H interest L fd d h et] by (simp add: linux_wait_eq)
  with ok a show "(epoll_laws H interest \<and> loop_ok interest L') \<and> waiting L' = on_table (Wait fd d h et) (waiting L)"
    by (simp add: linux_wait_eq add_interest_waits)
next
  fix L :: "('c, 'k, 'z) event_loop_scheme" and fd
  assume ok: "epoll_laws H interest \<and> loop_ok interest L"
  then have "loop_ok interest (remove H fd L)" by (simp add: remove_ok)
  moreover have "waiting (remove H fd L) = on_table (Forget fd) (waiting L)"
    by (auto simp: remove_def waiting_def fun_eq_iff)
  ultimately show "(epoll_laws H interest \<and> loop_ok interest (remove H fd L)) \<and>
      waiting (remove H fd L) = on_table (Forget fd) (waiting L)"
    using ok by blast
qed

interpretation macos: reactor "macos_wait Q" "kq_remove Q" waiting
    "\<lambda>L. kq_laws Q interest \<and> 0 \<le> epoll_fd L \<and> kq_ok interest L" for Q interest
proof
  fix L L' fd d h et
  assume ok: "kq_laws Q interest \<and> 0 \<le> epoll_fd L \<and> kq_ok interest L" and a: "macos_wait Q fd d h et L = (None, L')"
  then show "(kq_laws Q interest \<and> 0 \<le> epoll_fd L' \<and> kq_ok interest L') \<and>
      waiting L' = on_table (Wait fd d h et) (waiting L)"
    using kq_add_interest_ok [of Q interest L fd d h et L'] by (simp add: macos_wait_eq)
next
  fix L fd
  assume ok: "kq_laws Q interest \<and> 0 \<le> epoll_fd L \<and> kq_ok interest L"
  then show "(kq_laws Q interest \<and> 0 \<le> epoll_fd (kq_remove Q fd L) \<and> kq_ok interest (kq_remove Q fd L)) \<and>
      waiting (kq_remove Q fd L) = on_table (Forget fd) (waiting L)"
    using kq_remove_ok [of Q interest L fd]
    by (auto simp: kq_remove_def Let_def delete_kqueue_filter_def waiting_def fun_eq_iff)
qed

section \<open>Properties\<close>

text \<open>
  C19. The two backends are interchangeable for their users. The same sequence of registrations
  and removals, when no registration fails, leaves the same coroutines waiting on the same
  descriptors and directions over epoll and over kqueue, namely those of the abstract table;
  and each backend is then in step with its kernel.
\<close>

theorem backends_agree:
  assumes "epoll_laws H interest" and "loop_ok interest L" and "run_table (linux_wait H) (remove H) ops L = Some L'"
    and "kq_laws Q filters" and "0 \<le> epoll_fd M" and "kq_ok filters M"
    and "run_table (macos_wait Q) (kq_remove Q) ops M = Some M'" and "waiting M = waiting L"
  shows "waiting L' = fold on_table ops (waiting L) \<and> waiting M' = waiting L'
    \<and> loop_ok interest L' \<and> kq_ok filters M'"
  using linux.refines_table [of H interest L ops L'] macos.refines_table [of Q filters M ops M'] assms by simp

theorem backends_agree_witness:
  "\<exists>L' M'. run_table (linux_wait example_host) (remove example_host)
        [Wait 7 Readable 1 False, Wait 7 Writable 2 False, Wait 8 Readable 3 True, Forget 7] example_loop = Some L'
    \<and> run_table (macos_wait example_kqueue) (kq_remove example_kqueue)
        [Wait 7 Readable 1 False, Wait 7 Writable 2 False, Wait 8 Readable 3 True, Forget 7] example_kqueue_loop = Some M'
    \<and> waiting M' = waiting L'"
proof -
  let ?ops = "[Wait 7 Readable 1 False, Wait 7 Writable 2 False, Wait 8 Readable 3 True, Forget 7]"
  have l: "loop_ok (\<lambda>k. k) example_loop" "kq_ok (\<lambda>k. k) example_kqueue_loop" "0 \<le> epoll_fd example_kqueue_loop"
    and w: "waiting example_kqueue_loop = waiting example_loop"
    by (simp_all add: example_loop_def example_kqueue_loop_def loop_ok_def kq_ok_def waiting_def fun_eq_iff)
  obtain L' where r: "run_table (linux_wait example_host) (remove example_host) ?ops example_loop = Some L'"
    by (simp add: linux_wait_eq add_interest_impl_def example_loop_def fd_state_init_def Let_def)
  obtain M' where s: "run_table (macos_wait example_kqueue) (kq_remove example_kqueue) ?ops example_kqueue_loop = Some M'"
    by (simp add: macos_wait_eq kq_add_interest_impl_def kq_update_or_remove_impl_def update_kqueue_filter_impl_def
        example_kqueue_def example_kqueue_loop_def fd_state_init_def filter_flags_def Let_def)
  from backends_agree [OF example_laws l(1) r example_kq_laws l(3,2) s w] r s show ?thesis by blast
qed

end
