(* ===== verification/Tcp.thy ===== *)
theory Tcp
  imports Event_Loop Unique_Owner
begin

unbundle bit_operations_syntax

text \<open>
  \<open>include/coro_epoll/tcp.hpp\<close>: \<open>TcpSocket\<close> and \<open>TcpServer\<close>, in the configuration of Linux
  (\<open>SOCK_NONBLOCK\<close>, \<open>SOCK_CLOEXEC\<close>, \<open>SO_REUSEPORT\<close> and \<open>accept4\<close> exist, \<open>SO_NOSIGPIPE\<close> does
  not, so \<open>disable_sigpipe\<close> does nothing).

  An event loop is known here by its address only; \<open>None\<close> is the null pointer. A coroutine
  reads \<open>fd_\<close> and \<open>loop_\<close> through \<open>this\<close> in every iteration; a socket that is closed while a
  coroutine of it is suspended does not resume that coroutine (\<open>remove\<close>), so both are taken
  once. The turns of a run are described in \<open>Sys_Io\<close>.
\<close>

section \<open>TcpSocket\<close>

record tcp_socket =
  sock_loop :: "nat option"
  sock_fd :: fd

definition tcp_default :: tcp_socket where
  "tcp_default = \<lparr>sock_loop = None, sock_fd = - 1\<rparr>"

definition tcp_socket_new :: "nat \<Rightarrow> fd \<Rightarrow> exn + tcp_socket" where
  "tcp_socket_new loop fd =
     (if fd < 0 then Inl (Invalid_argument ''TcpSocket requires a valid file descriptor'')
      else Inr \<lparr>sock_loop = Some loop, sock_fd = fd\<rparr>)"

text \<open>The move constructor gives the new object and what is left of its source.\<close>

definition tcp_move :: "tcp_socket \<Rightarrow> tcp_socket \<times> tcp_socket" where
  "tcp_move s = (s, s\<lparr>sock_loop := None, sock_fd := - 1\<rparr>)"

definition tcp_valid :: "tcp_socket \<Rightarrow> bool" where
  "tcp_valid s \<longleftrightarrow> 0 \<le> sock_fd s"

definition tcp_close :: "tcp_socket \<Rightarrow> io list \<times> tcp_socket" where
  "tcp_close s =
     (if 0 \<le> sock_fd s then
        ((if sock_loop s \<noteq> None then [Loop_remove (sock_fd s)] else []) @ [Sys_close (sock_fd s)],
         s\<lparr>sock_loop := None, sock_fd := - 1\<rparr>)
      else ([], s))"

text \<open>Move assignment \<open>x = std::move(y)\<close>; the flag is the test \<open>this == &other\<close>.\<close>

definition tcp_move_assign ::
    "bool \<Rightarrow> tcp_socket \<Rightarrow> tcp_socket \<Rightarrow> io list \<times> tcp_socket \<times> tcp_socket" where
  "tcp_move_assign same x y =
     (if same then ([], x, y)
      else (fst (tcp_close x),
            (snd (tcp_close x))\<lparr>sock_loop := sock_loop y, sock_fd := sock_fd y\<rparr>,
            y\<lparr>sock_loop := None, sock_fd := - 1\<rparr>))"

definition tcp_ensure_valid :: "tcp_socket \<Rightarrow> exn option" where
  "tcp_ensure_valid s =
     (if sock_loop s = None \<or> sock_fd s < 0 then Some (Runtime_error ''invalid TcpSocket'') else None)"

text \<open>The body of a coroutine that begins with \<open>ensure_valid()\<close>.\<close>

definition guarded :: "exn option \<Rightarrow> ('a turn list \<Rightarrow> ('a, 'b) run) \<Rightarrow> 'a turn list \<Rightarrow> ('a, 'b) run" where
  "guarded g m ts = (case g of Some e \<Rightarrow> (Threw e, ts, []) | None \<Rightarrow> m ts)"

lemma guarded_simps [simp]:
  "guarded None m ts = m ts" "guarded (Some e) m ts = (Threw e, ts, [])"
  by (simp_all add: guarded_def)

subsection \<open>Reading\<close>

text \<open>
  A successful \<open>recv\<close> is the list of bytes it stores; the result of a read is the count and
  the buffer behind the pointer. \<open>count > 0\<close> and \<open>count == 0\<close> are separate tests in the code.
\<close>

fun read_loop :: "fd \<Rightarrow> nat \<Rightarrow> bytes \<Rightarrow> bytes turn list \<Rightarrow> (bytes, nat \<times> bytes) run" where
  "read_loop fd sz buf [] = (Pending, [], [])"
| "read_loop fd sz buf (t # ts) = (case ret t of
      Inr bs \<Rightarrow>
        (if length bs > 0 then (Returned (length bs, poke buf 0 bs), ts, [Recv fd sz])
         else (Returned (0, buf), ts, [Recv fd sz]))
    | Inl e \<Rightarrow>
        (if e = EINTR then emit [Recv fd sz] (read_loop fd sz buf ts)
         else if e = EAGAIN \<or> e = EWOULDBLOCK then
           (case wake t of
              None \<Rightarrow> emit [Recv fd sz, Await fd Readable False] (read_loop fd sz buf ts)
            | Some ex \<Rightarrow> (Threw ex, ts, [Recv fd sz, Await fd Readable False]))
         else (Threw (System_error e ''recv''), ts, [Recv fd sz])))"

definition async_read :: "tcp_socket \<Rightarrow> bytes \<Rightarrow> nat \<Rightarrow> bytes turn list \<Rightarrow> (bytes, nat \<times> bytes) run" where
  "async_read s buf sz = guarded (tcp_ensure_valid s) (read_loop (sock_fd s) sz buf)"

text \<open>
  The edge-triggered read goes on until the call would block, the end of the stream, or an
  error; it suspends only while it has read nothing.
\<close>

fun read_et_loop ::
    "fd \<Rightarrow> nat \<Rightarrow> nat \<Rightarrow> bytes \<Rightarrow> bytes turn list \<Rightarrow> (bytes, nat \<times> bytes) run" where
  "read_et_loop fd sz got buf [] = (Pending, [], [])"
| "read_et_loop fd sz got buf (t # ts) = (case ret t of
      Inr bs \<Rightarrow>
        (if length bs > 0 then
           emit [Recv fd (sz - got)] (read_et_loop fd sz (got + length bs) (poke buf got bs) ts)
         else (Returned (got, buf), ts, [Recv fd (sz - got)]))
    | Inl e \<Rightarrow>
        (if e = EINTR then emit [Recv fd (sz - got)] (read_et_loop fd sz got buf ts)
         else if e = EAGAIN \<or> e = EWOULDBLOCK then
           (if got > 0 then (Returned (got, buf), ts, [Recv fd (sz - got)])
            else (case wake t of
                None \<Rightarrow> emit [Recv fd (sz - got), Await fd Readable True]
                          (read_et_loop fd sz got buf ts)
              | Some ex \<Rightarrow> (Threw ex, ts, [Recv fd (sz - got), Await fd Readable True])))
         else (Threw (System_error e ''recv''), ts, [Recv fd (sz - got)])))"

definition async_read_et :: "tcp_socket \<Rightarrow> bytes \<Rightarrow> nat \<Rightarrow> bytes turn list \<Rightarrow> (bytes, nat \<times> bytes) run" where
  "async_read_et s buf sz = guarded (tcp_ensure_valid s) (read_et_loop (sock_fd s) sz 0 buf)"

subsection \<open>Writing\<close>

text \<open>
  A successful \<open>send\<close> is the number of bytes the kernel took. The test \<open>total < size\<close>, here \<open>got < sz\<close>, is made
  before each call, so the loop ends without one when everything is sent.
\<close>

fun write_loop :: "fd \<Rightarrow> nat \<Rightarrow> nat \<Rightarrow> nat turn list \<Rightarrow> (nat, nat) run" where
  "write_loop fd sz got [] = (if got < sz then (Pending, [], []) else (Returned got, [], []))"
| "write_loop fd sz got (t # ts) =
     (if got < sz then
        (let call = Send fd got (sz - got); wait = Await fd Writable False in
         case ret t of
           Inr cnt \<Rightarrow>
             (if cnt > 0 then emit [call] (write_loop fd sz (got + cnt) ts)
              else (case wake t of
                  None \<Rightarrow> emit [call, wait] (write_loop fd sz got ts)
                | Some ex \<Rightarrow> (Threw ex, ts, [call, wait])))
         | Inl e \<Rightarrow>
             (if e = EINTR then emit [call] (write_loop fd sz got ts)
              else if e = EAGAIN \<or> e = EWOULDBLOCK then
                (case wake t of
                   None \<Rightarrow> emit [call, wait] (write_loop fd sz got ts)
                 | Some ex \<Rightarrow> (Threw ex, ts, [call, wait]))
              else (Threw (System_error e ''send''), ts, [call])))
      else (Returned got, t # ts, []))"

definition async_write :: "tcp_socket \<Rightarrow> nat \<Rightarrow> nat turn list \<Rightarrow> (nat, nat) run" where
  "async_write s sz = guarded (tcp_ensure_valid s) (write_loop (sock_fd s) sz 0)"

section \<open>TcpServer\<close>

record tcp_server =
  serv_loop :: nat
  serv_fd :: fd

definition tcp_server_new :: "nat \<Rightarrow> tcp_server" where
  "tcp_server_new loop = \<lparr>serv_loop = loop, serv_fd = - 1\<rparr>"

definition server_close :: "tcp_server \<Rightarrow> io list \<times> tcp_server" where
  "server_close s =
     (if 0 \<le> serv_fd s then
        ([Sys_close (serv_fd s), Loop_remove (serv_fd s)], s\<lparr>serv_fd := - 1\<rparr>)
      else ([], s))"

text \<open>\<open>htons\<close> on a little-endian host swaps the two bytes; \<open>ntohs\<close> is the same function.\<close>

definition htons :: "16 word \<Rightarrow> 16 word" where
  "htons w = push_bit 8 w OR drop_bit 8 w"

text \<open>
  The answers of the kernel to the calls of \<open>listen\<close>, each made at most once: \<open>Inl errno\<close>, or
  \<open>Inr\<close> the result. The result of \<open>socket\<close> is the descriptor.
\<close>

type_synonym kernel_answers = "io \<Rightarrow> int + int"

definition server_listen ::
    "kernel_answers \<Rightarrow> tcp_server \<Rightarrow> 16 word \<Rightarrow> int \<Rightarrow> bool \<Rightarrow> exn option \<times> tcp_server \<times> io list" where
  "server_listen K s port backlog reuse_port =
     (let (closing, s0) = server_close s in
      case K Sys_socket of
        Inl e \<Rightarrow> (Some (System_error e ''socket''), s0\<lparr>serv_fd := - 1\<rparr>, closing @ [Sys_socket])
      | Inr fd \<Rightarrow>
          let s1 = s0\<lparr>serv_fd := fd\<rparr>;
              addr = Sys_setsockopt fd ''SO_REUSEADDR'';
              share = Sys_setsockopt fd ''SO_REUSEPORT'';
              bnd = Sys_bind fd (unat (htons port));
              lst = Sys_listen fd backlog;
              tr1 = closing @ [Sys_socket, addr];
              tr2 = tr1 @ (if reuse_port then [share] else [])
          in (case K addr of
                Inl e \<Rightarrow> (Some (System_error e ''setsockopt SO_REUSEADDR''), s1, tr1)
              | Inr _ \<Rightarrow>
                  (case (if reuse_port then K share else Inr 0) of
                     Inl e \<Rightarrow> (Some (System_error e ''setsockopt SO_REUSEPORT''), s1, tr2)
                   | Inr _ \<Rightarrow>
                       (case K bnd of
                          Inl e \<Rightarrow> (Some (System_error e ''bind''), s1, tr2 @ [bnd])
                        | Inr _ \<Rightarrow>
                            (case K lst of
                               Inl e \<Rightarrow> (Some (System_error e ''listen''), s1, tr2 @ [bnd, lst])
                             | Inr _ \<Rightarrow> (None, s1, tr2 @ [bnd, lst]))))))"

definition server_ensure_valid :: "tcp_server \<Rightarrow> exn option" where
  "server_ensure_valid s =
     (if serv_fd s < 0 then Some (Runtime_error ''invalid TcpServer'') else None)"

subsection \<open>Accepting\<close>

fun accept_loop :: "fd \<Rightarrow> fd turn list \<Rightarrow> (fd, fd) run" where
  "accept_loop fd [] = (Pending, [], [])"
| "accept_loop fd (t # ts) = (case ret t of
      Inr client_fd \<Rightarrow> (Returned client_fd, ts, [Accept fd])
    | Inl e \<Rightarrow>
        (if e = EINTR then emit [Accept fd] (accept_loop fd ts)
         else if e = EAGAIN \<or> e = EWOULDBLOCK then
           (case wake t of
              None \<Rightarrow> emit [Accept fd, Await fd Readable False] (accept_loop fd ts)
            | Some ex \<Rightarrow> (Threw ex, ts, [Accept fd, Await fd Readable False]))
         else (Threw (System_error e ''accept4''), ts, [Accept fd])))"

definition async_accept_fd :: "tcp_server \<Rightarrow> fd turn list \<Rightarrow> (fd, fd) run" where
  "async_accept_fd s = guarded (server_ensure_valid s) (accept_loop (serv_fd s))"

text \<open>\<open>co_await async_accept_fd()\<close> and the construction of the socket.\<close>

definition async_accept :: "tcp_server \<Rightarrow> fd turn list \<Rightarrow> (fd, tcp_socket) run" where
  "async_accept s ts = (case async_accept_fd s ts of (out, rest, tr) \<Rightarrow>
     (case out of
        Returned client_fd \<Rightarrow>
          (case tcp_socket_new (serv_loop s) client_fd of
             Inl e \<Rightarrow> (Threw e, rest, tr)
           | Inr sock \<Rightarrow> (Returned sock, rest, tr))
      | Threw e \<Rightarrow> (Threw e, rest, tr)
      | Pending \<Rightarrow> (Pending, rest, tr)))"

text \<open>
  The edge-triggered accept drains the queue of connections into a vector. An exception
  destroys the vector, and with it closes the sockets accepted so far, in order.
\<close>

definition close_sockets :: "tcp_socket list \<Rightarrow> io list" where
  "close_sockets ss = concat (map (\<lambda>s. fst (tcp_close s)) ss)"

fun accept_et_loop :: "nat \<Rightarrow> fd \<Rightarrow> tcp_socket list \<Rightarrow> fd turn list \<Rightarrow> (fd, tcp_socket list) run" where
  "accept_et_loop loop fd sockets [] = (Pending, [], [])"
| "accept_et_loop loop fd sockets (t # ts) = (case ret t of
      Inr client_fd \<Rightarrow>
        (case tcp_socket_new loop client_fd of
           Inl ex \<Rightarrow> (Threw ex, ts, Accept fd # close_sockets sockets)
         | Inr sock \<Rightarrow> emit [Accept fd] (accept_et_loop loop fd (sockets @ [sock]) ts))
    | Inl e \<Rightarrow>
        (if e = EINTR then emit [Accept fd] (accept_et_loop loop fd sockets ts)
         else if e = EAGAIN \<or> e = EWOULDBLOCK then (Returned sockets, ts, [Accept fd])
         else (Threw (System_error e ''accept4''), ts, Accept fd # close_sockets sockets)))"

text \<open>
  \<open>ready\<close> is how the \<open>co_await readable_et\<close> before the loop ends: not yet, resumed, or with
  an exception of the registration.
\<close>

definition async_accept_et ::
    "tcp_server \<Rightarrow> exn option option \<Rightarrow> fd turn list \<Rightarrow> (fd, tcp_socket list) run" where
  "async_accept_et s ready =
     guarded (server_ensure_valid s) (\<lambda>ts. (case ready of
         None \<Rightarrow> (Pending, ts, [Await (serv_fd s) Readable True])
       | Some (Some ex) \<Rightarrow> (Threw ex, ts, [Await (serv_fd s) Readable True])
       | Some None \<Rightarrow>
           emit [Await (serv_fd s) Readable True] (accept_et_loop (serv_loop s) (serv_fd s) [] ts)))"

section \<open>The socket as an owner of its descriptor\<close>

definition tcp_key :: "tcp_socket \<Rightarrow> fd option" where
  "tcp_key s = (if tcp_valid s then Some (sock_fd s) else None)"

definition tcp_release :: "tcp_socket \<Rightarrow> fd list \<times> tcp_socket" where
  "tcp_release s = (closed (fst (tcp_close s)), snd (tcp_close s))"

definition tcp_assign :: "bool \<Rightarrow> tcp_socket \<Rightarrow> tcp_socket \<Rightarrow> fd list \<times> tcp_socket \<times> tcp_socket" where
  "tcp_assign same x y = (case tcp_move_assign same x y of (tr, x', y') \<Rightarrow> (closed tr, x', y'))"

lemmas tcp_owner_defs = tcp_key_def tcp_release_def tcp_assign_def tcp_move_def tcp_close_def
  tcp_move_assign_def tcp_valid_def held_def

interpretation tcp_owner: unique_owner tcp_key tcp_move tcp_release tcp_assign
  by unfold_locales (auto simp: tcp_owner_defs)

text \<open>
  Every descriptor has one owner. In any program of constructions, move constructions,
  move assignments (self-assignment included), closes and destructions of \<open>TcpSocket\<close>
  objects, each descriptor that was put into a socket is held by exactly one socket or has
  been closed exactly once; none is closed twice and none is closed while a socket holds it.
\<close>

theorem tcp_descriptors_owned_once:
  assumes "perform_all tcp_move tcp_release tcp_assign ps ([], []) = (ss, freed)"
    and "\<And>fd. count (acquired tcp_key ps) fd \<le> 1"
  shows "acquired tcp_key ps = live tcp_key ss + mset freed
    \<and> distinct freed \<and> (\<forall>fd \<in> set freed. fd \<notin># live tcp_key ss)"
  using tcp_owner.owned_once [OF assms(1)] tcp_owner.released_once [OF assms] by blast

theorem tcp_descriptors_owned_once_witness:
  "perform_all tcp_move tcp_release tcp_assign
     [Op_new \<lparr>sock_loop = Some 0, sock_fd = 5\<rparr>, Op_new \<lparr>sock_loop = Some 0, sock_fd = 6\<rparr>,
      Op_move 0, Op_assign 1 2, Op_assign 1 1, Op_release 2] ([], []) =
     ([tcp_default, \<lparr>sock_loop = Some 0, sock_fd = 5\<rparr>, tcp_default], [6])
   \<and> distinct [6 :: fd]"
proof -
  let ?ps = "[Op_new \<lparr>sock_loop = Some 0, sock_fd = 5\<rparr>, Op_new \<lparr>sock_loop = Some 0, sock_fd = 6\<rparr>,
      Op_move 0, Op_assign 1 2, Op_assign 1 1, Op_release 2] :: tcp_socket owner_op list"
  have p: "perform_all tcp_move tcp_release tcp_assign ?ps ([], []) =
     ([tcp_default, \<lparr>sock_loop = Some 0, sock_fd = 5\<rparr>, tcp_default], [6])"
    by (simp add: tcp_owner_defs tcp_default_def)
  have q: "\<And>fd. count (acquired tcp_key ?ps) fd \<le> 1"
    by (simp add: tcp_owner_defs)
  from tcp_descriptors_owned_once [OF p q] p show ?thesis by blast
qed

section \<open>Level-triggered operations\<close>

lemmas retry_shape = retries_def turn_calls_def verdict_def blocks_def would_block_def

interpretation tcp_read: retry_loop "read_loop fd sz buf" "Recv fd sz" "Await fd Readable False"
    "''recv''" "\<lambda>bs. (length bs, poke buf 0 bs)" for fd sz buf
  by unfold_locales (auto simp: retry_shape split: sum.split option.split)

interpretation tcp_accept: retry_loop "accept_loop fd" "Accept fd" "Await fd Readable False"
    "''accept4''" "\<lambda>client. client" for fd
  by unfold_locales (auto simp: retry_shape split: sum.split option.split)

text \<open>
  What \<open>async_read\<close> returns. On a valid socket it returns exactly when the kernel
  delivers, after interruptions and blocked calls only, and then with the count and the
  bytes of that delivery at the front of the buffer (a count of zero at the end of the
  stream leaves the buffer alone). It stays suspended exactly when every answer so far was
  an interruption or a blocked call, it ignores interruptions, and it suspends once for each
  blocked call. On an invalid socket it makes no call.
\<close>

theorem async_read_returns:
  "(fst (async_read s buf sz ts) = Returned r \<longleftrightarrow>
      tcp_ensure_valid s = None
      \<and> (\<exists>pre t post bs. ts = pre @ t # post \<and> list_all retries pre \<and> ret t = Inr bs
           \<and> r = (length bs, poke buf 0 bs)))
   \<and> (fst (async_read s buf sz ts) = Pending \<longleftrightarrow> tcp_ensure_valid s = None \<and> list_all retries ts)
   \<and> fst (async_read s buf sz (filter (\<lambda>t. \<not> interrupted t) ts)) = fst (async_read s buf sz ts)
   \<and> count_list (snd (snd (async_read s buf sz (takeWhile retries ts)))) (Await (sock_fd s) Readable False) =
       (if tcp_ensure_valid s = None then length (filter blocks (takeWhile retries ts)) else 0)"
proof (cases "tcp_ensure_valid s")
  case None
  then show ?thesis
    using tcp_read.returned_iff [of "sock_fd s" sz buf ts r] tcp_read.pending_iff [of "sock_fd s" sz buf ts]
      tcp_read.interrupted_transparent [of "sock_fd s" sz buf ts]
      tcp_read.awaits_eq_blocks [of "sock_fd s" sz "takeWhile retries ts" buf "[]"]
    by (simp add: async_read_def)
next
  case (Some e)
  then show ?thesis by (simp add: async_read_def)
qed

text \<open>
  What \<open>async_accept\<close> returns: exactly the first connection that the kernel hands over
  after interruptions and blocked calls, as a socket of the server's loop that owns the new
  descriptor; and it stays suspended exactly while there was none.
\<close>

theorem async_accept_returns:
  "(fst (async_accept s ts) = Returned sock \<longleftrightarrow>
      server_ensure_valid s = None
      \<and> (\<exists>pre t post client. ts = pre @ t # post \<and> list_all retries pre \<and> ret t = Inr client
           \<and> 0 \<le> client \<and> sock = \<lparr>sock_loop = Some (serv_loop s), sock_fd = client\<rparr>))
   \<and> (fst (async_accept s ts) = Pending \<longleftrightarrow> server_ensure_valid s = None \<and> list_all retries ts)"
proof -
  obtain out rest tr where r: "async_accept_fd s ts = (out, rest, tr)" by (metis surj_pair)
  have ret: "out = Returned client \<longleftrightarrow> server_ensure_valid s = None \<and>
      (\<exists>pre t post. ts = pre @ t # post \<and> list_all retries pre \<and> ret t = Inr client)" for client
    using r tcp_accept.returned_iff [of "serv_fd s" ts client]
    by (cases "server_ensure_valid s") (auto simp: async_accept_fd_def)
  have pend: "out = Pending \<longleftrightarrow> server_ensure_valid s = None \<and> list_all retries ts"
    using r tcp_accept.pending_iff [of "serv_fd s" ts]
    by (cases "server_ensure_valid s") (auto simp: async_accept_fd_def)
  have "fst (async_accept s ts) = Returned sock \<longleftrightarrow>
      (\<exists>client. out = Returned client \<and> 0 \<le> client \<and> sock = \<lparr>sock_loop = Some (serv_loop s), sock_fd = client\<rparr>)"
    by (cases out) (auto simp: async_accept_def r tcp_socket_new_def)
  moreover have "fst (async_accept s ts) = Pending \<longleftrightarrow> out = Pending"
    by (cases out) (auto simp: async_accept_def r tcp_socket_new_def)
  ultimately show ?thesis using ret pend by blast
qed

section \<open>The edge-triggered read\<close>

text \<open>
  The bytes of a turn and of a list of turns. The kernel stores no more bytes than it is
  asked for: \<open>fits cap ts\<close> when the deliveries of \<open>ts\<close> fit, one after the other, into
  \<open>cap\<close> bytes.
\<close>

definition delivery :: "bytes turn \<Rightarrow> bytes" where
  "delivery t = (case ret t of Inr bs \<Rightarrow> bs | Inl _ \<Rightarrow> [])"

definition received :: "bytes turn list \<Rightarrow> bytes" where
  "received ts = concat (map delivery ts)"

fun fits :: "nat \<Rightarrow> bytes turn list \<Rightarrow> bool" where
  "fits cap [] = True"
| "fits cap (t # ts) \<longleftrightarrow> length (delivery t) \<le> cap \<and> fits (cap - length (delivery t)) ts"

lemma received_simps [simp]:
  "received [] = []" "received (t # ts) = delivery t @ received ts"
  by (simp_all add: received_def)

text \<open>A turn at which a read may end: nothing left to fetch now, or no byte delivered.\<close>

definition drained :: "bytes turn \<Rightarrow> bool" where
  "drained t \<longleftrightarrow> blocks t \<or> ret t = Inr []"

lemma read_et_turn:
  assumes "read_et_loop fd sz got buf (t # ts) = (Returned (n, buf'), rest, tr)"
  shows "(drained t \<and> n = got \<and> buf' = buf \<and> rest = ts \<and> (blocks t \<longrightarrow> 0 < got))
    \<or> (\<exists>tr'. read_et_loop fd sz (got + length (delivery t)) (poke buf got (delivery t)) ts
          = (Returned (n, buf'), rest, tr'))"
  using assms
  by (auto simp: drained_def delivery_def blocks_def would_block_def emit_def
      split: sum.splits if_splits option.splits prod.splits)

lemma take_poke_append:
  "off \<le> length buf \<Longrightarrow> take (off + length bs) (poke buf off bs) = take off buf @ bs"
  by (simp add: take_poke_end)

lemma length_poke_le: "off \<le> length buf \<Longrightarrow> off + length bs \<le> length (poke buf off bs)"
  by (simp add: poke_def)

text \<open>What the loop returns, whatever sizes the kernel delivers.\<close>

lemma read_et_bytes:
  assumes "read_et_loop fd sz got buf ts = (Returned (n, buf'), rest, tr)" and "got \<le> length buf"
  shows "\<exists>used t. ts = used @ t # rest \<and> drained t \<and> n = got + length (received used)
    \<and> take n buf' = take got buf @ received used"
  using assms
proof (induction ts arbitrary: got buf tr)
  case Nil
  then show ?case by simp
next
  case (Cons t ts)
  let ?got = "got + length (delivery t)" and ?buf = "poke buf got (delivery t)"
  from read_et_turn [OF Cons(2)] show ?case
  proof
    assume "drained t \<and> n = got \<and> buf' = buf \<and> rest = ts \<and> (blocks t \<longrightarrow> 0 < got)"
    then show ?case by (intro exI [of _ "[]"] exI [of _ t]) simp
  next
    assume "\<exists>tr'. read_et_loop fd sz ?got ?buf ts = (Returned (n, buf'), rest, tr')"
    moreover have "?got \<le> length ?buf" by (rule length_poke_le [OF Cons(3)])
    ultimately obtain used u where u: "ts = used @ u # rest" "drained u"
      "n = ?got + length (received used)" "take n buf' = take ?got ?buf @ received used"
      using Cons(1) by blast
    then show ?case
      by (intro exI [of _ "t # used"] exI [of _ u]) (simp add: take_poke_append [OF Cons(3)])
  qed
qed

lemma read_et_returns:
  assumes "read_et_loop fd sz got buf ts = (Returned (n, buf'), rest, tr)"
    and "fits (sz - got) ts" and "got \<le> sz" and "sz \<le> length buf"
  shows "\<exists>used t. ts = used @ t # rest \<and> drained t \<and> n = got + length (received used)
    \<and> buf' = poke buf got (received used) \<and> n \<le> sz \<and> (blocks t \<longrightarrow> 0 < n)"
  using assms
proof (induction ts arbitrary: got buf tr)
  case Nil
  then show ?case by simp
next
  case (Cons t ts)
  let ?got = "got + length (delivery t)" and ?buf = "poke buf got (delivery t)"
  from read_et_turn [OF Cons(2)] show ?case
  proof
    assume "drained t \<and> n = got \<and> buf' = buf \<and> rest = ts \<and> (blocks t \<longrightarrow> 0 < got)"
    then show ?case by (intro exI [of _ "[]"] exI [of _ t]) (use Cons in simp)
  next
    assume "\<exists>tr'. read_et_loop fd sz ?got ?buf ts = (Returned (n, buf'), rest, tr')"
    moreover have fit: "?got \<le> sz" "fits (sz - ?got) ts" "sz \<le> length ?buf" using Cons by auto
    ultimately obtain used u where u: "ts = used @ u # rest" "drained u"
      "n = ?got + length (received used)" "buf' = poke ?buf ?got (received used)"
      "n \<le> sz" "blocks u \<longrightarrow> 0 < n"
      using Cons(1) by blast
    have "buf' = poke buf got (delivery t @ received used)" using u(4) fit Cons by (simp add: poke_poke)
    then show ?case by (intro exI [of _ "t # used"] exI [of _ u]) (use u in simp)
  qed
qed



section \<open>Writing the whole buffer\<close>

text \<open>
  What the peer gets: the \<open>k\<close>-th \<open>send\<close> of a trace is answered by the \<open>k\<close>-th turn, and the
  bytes it takes are those at its offset in the caller's buffer.
\<close>

fun is_send :: "io \<Rightarrow> bool" where
  "is_send (Send _ _ _) = True"
| "is_send _ = False"

definition taken :: "nat turn \<Rightarrow> nat" where
  "taken t = (case ret t of Inr n \<Rightarrow> n | Inl _ \<Rightarrow> 0)"

fun sent_by :: "bytes \<Rightarrow> io \<Rightarrow> nat turn \<Rightarrow> bytes" where
  "sent_by buf (Send _ off _) t = take (taken t) (drop off buf)"
| "sent_by buf _ t = []"

definition wire :: "bytes \<Rightarrow> io list \<Rightarrow> nat turn list \<Rightarrow> bytes" where
  "wire buf tr ts = concat (map2 (sent_by buf) (filter is_send tr) ts)"

fun sends_fit :: "nat \<Rightarrow> nat turn list \<Rightarrow> bool" where
  "sends_fit cap [] = True"
| "sends_fit cap (t # ts) \<longleftrightarrow> taken t \<le> cap \<and> sends_fit (cap - taken t) ts"

lemma write_turn:
  assumes "write_loop fd sz got (t # ts) = (out, rest, tr)" and "got < sz"
  shows "\<exists>pre. filter is_send pre = [Send fd got (sz - got)] \<and>
    ((\<exists>tr'. tr = pre @ tr' \<and> write_loop fd sz (got + taken t) ts = (out, rest, tr'))
     \<or> (tr = pre \<and> rest = ts \<and> (\<exists>e. out = Threw e) \<and> taken t = 0))"
proof -
  let ?call = "Send fd got (sz - got)"
  from assms show ?thesis
    by (cases "ret t"; cases "wake t"; cases "write_loop fd sz (got + taken t) ts")
      (auto simp: Let_def taken_def split: if_splits intro: exI [of _ "[?call]"]
        exI [of _ "[?call, Await fd Writable False]"])
qed

lemma sends_fit_sum: "sends_fit cap (used @ rest) \<Longrightarrow> sum_list (map taken used) \<le> cap"
  by (induction used arbitrary: cap) (simp, fastforce)

text \<open>What the loop does to any buffer, whatever counts the kernel returns.\<close>

lemma write_loop_wire:
  assumes "write_loop fd sz got ts = (out, rest, tr)"
  shows "\<exists>used. ts = used @ rest \<and> wire buf tr used = take (sum_list (map taken used)) (drop got buf)
    \<and> (\<forall>n. out = Returned n \<longrightarrow> n = got + sum_list (map taken used) \<and> sz \<le> n)
    \<and> (out = Pending \<longrightarrow> rest = [] \<and> got + sum_list (map taken used) < sz)"
  using assms
proof (induction ts arbitrary: got tr)
  case Nil
  then show ?case by (auto simp: wire_def split: if_splits)
next
  case (Cons t ts)
  show ?case
  proof (cases "got < sz")
    case False
    with Cons show ?thesis by (intro exI [of _ "[]"]) (auto simp: wire_def)
  next
    case True
    let ?call = "Send fd got (sz - got)"
    from write_turn [OF Cons(2) True] obtain pre where pre: "filter is_send pre = [?call]"
      and "(\<exists>tr'. tr = pre @ tr' \<and> write_loop fd sz (got + taken t) ts = (out, rest, tr'))
         \<or> (tr = pre \<and> rest = ts \<and> (\<exists>e. out = Threw e) \<and> taken t = 0)" by blast
    then show ?thesis
    proof (elim disjE exE conjE)
      fix tr' assume tr: "tr = pre @ tr'" and go: "write_loop fd sz (got + taken t) ts = (out, rest, tr')"
      from Cons(1) [OF go] obtain used where
        u: "ts = used @ rest" "wire buf tr' used = take (sum_list (map taken used)) (drop (got + taken t) buf)"
          "\<forall>n. out = Returned n \<longrightarrow> n = got + taken t + sum_list (map taken used) \<and> sz \<le> n"
          "out = Pending \<longrightarrow> rest = [] \<and> got + taken t + sum_list (map taken used) < sz" by blast
      have "wire buf tr (t # used) = take (taken t) (drop got buf) @ wire buf tr' used"
        by (simp add: wire_def tr pre)
      also have "\<dots> = take (taken t + sum_list (map taken used)) (drop got buf)"
        unfolding u(2) using take_plus_drop [of "taken t" "drop got buf"] by (simp add: ac_simps)
      finally show ?thesis using u by (intro exI [of _ "t # used"]) (auto simp: ac_simps)
    next
      fix e assume "tr = pre" "rest = ts" "out = Threw e" "taken t = 0"
      then show ?thesis using pre by (intro exI [of _ "[t]"]) (auto simp: wire_def)
    qed
  qed
qed

text \<open>Writing a whole buffer of the caller: no contract of the kernel is needed.\<close>

lemma async_write_buffer:
  assumes "async_write s (length buf) ts = (out, rest, tr)"
  shows "\<exists>used. ts = used @ rest \<and> prefix (wire buf tr used) buf
    \<and> (\<forall>n. out = Returned n \<longrightarrow> wire buf tr used = buf)"
proof (cases "tcp_ensure_valid s")
  case None
  with assms have "write_loop (sock_fd s) (length buf) 0 ts = (out, rest, tr)" by (simp add: async_write_def)
  from write_loop_wire [OF this, of buf] obtain used where "ts = used @ rest"
    "wire buf tr used = take (sum_list (map taken used)) buf"
    "\<forall>n. out = Returned n \<longrightarrow> length buf \<le> sum_list (map taken used)" by auto
  then show ?thesis by (intro exI [of _ used]) (simp add: take_is_prefix)
next
  case (Some e)
  with assms show ?thesis by (intro exI [of _ "[]"]) (auto simp: async_write_def wire_def)
qed

text \<open>
  C22. \<open>async_write\<close> sends the whole buffer. At every moment the bytes that went out are a
  prefix of the caller's buffer, in order and without gap or repetition; when it returns, it
  returns \<open>size\<close> and all \<open>size\<close> bytes went out; it is still suspended only while fewer have
  been taken, whatever partial counts, interruptions and blocked calls there were.
\<close>

theorem async_write_sends_all:
  assumes "async_write s sz ts = (out, rest, tr)" and "sends_fit sz ts" and "sz \<le> length buf"
  shows "\<exists>used. ts = used @ rest \<and> prefix (wire buf tr used) (take sz buf)
    \<and> (\<forall>n. out = Returned n \<longrightarrow> n = sz \<and> wire buf tr used = take sz buf)
    \<and> (out = Pending \<longrightarrow> rest = [] \<and> length (wire buf tr used) < sz)"
proof (cases "tcp_ensure_valid s")
  case None
  with assms have "write_loop (sock_fd s) sz 0 ts = (out, rest, tr)" by (simp add: async_write_def)
  from write_loop_wire [OF this, of buf] obtain used where
    w: "ts = used @ rest" "wire buf tr used = take (sum_list (map taken used)) buf"
      "\<forall>n. out = Returned n \<longrightarrow> n = sum_list (map taken used) \<and> sz \<le> n"
      "out = Pending \<longrightarrow> rest = [] \<and> sum_list (map taken used) < sz" by auto
  have le: "sum_list (map taken used) \<le> sz" using assms(2) w(1) sends_fit_sum by blast
  have full: "\<forall>n. out = Returned n \<longrightarrow> n = sz \<and> sum_list (map taken used) = sz"
    using w(3) le by (metis le_antisym)
  note u = w(1,2) le full w(4)
  have "take sz buf = take (sum_list (map taken used)) buf
      @ take (sz - sum_list (map taken used)) (drop (sum_list (map taken used)) buf)"
    using u(3) take_plus_drop [of "sum_list (map taken used)" buf "sz - sum_list (map taken used)"] by simp
  then have "prefix (wire buf tr used) (take sz buf)" unfolding u(2) by (rule prefixI)
  moreover have "\<forall>n. out = Returned n \<longrightarrow> n = sz \<and> wire buf tr used = take sz buf"
    using u(2,4) by simp
  moreover have "length (wire buf tr used) = sum_list (map taken used)"
    unfolding u(2) using u(3) assms(3) by simp
  ultimately show ?thesis using u(1,5) by metis
next
  case (Some e)
  with assms show ?thesis by (intro exI [of _ "[]"]) (auto simp: async_write_def wire_def)
qed

theorem async_write_sends_all_witness:
  "\<exists>used. [\<lparr>ret = Inr 2, wake = None\<rparr>, \<lparr>ret = Inl EAGAIN, wake = None\<rparr>, \<lparr>ret = Inl EINTR, wake = None\<rparr>,
       \<lparr>ret = Inr 1, wake = None\<rparr>] = used @ []
    \<and> wire ''abc'' [Send 5 0 3, Send 5 2 1, Await 5 Writable False, Send 5 2 1, Send 5 2 1] used = ''abc''"
proof -
  let ?s = "\<lparr>sock_loop = Some 0, sock_fd = 5\<rparr>"
  let ?ts = "[\<lparr>ret = Inr 2, wake = None\<rparr>, \<lparr>ret = Inl EAGAIN, wake = None\<rparr>, \<lparr>ret = Inl EINTR, wake = None\<rparr>,
       \<lparr>ret = Inr 1, wake = None\<rparr>]"
  have r: "async_write ?s 3 ?ts = (Returned 3, [],
      [Send 5 0 3, Send 5 2 1, Await 5 Writable False, Send 5 2 1, Send 5 2 1])"
    by (simp add: async_write_def tcp_ensure_valid_def Let_def)
  have f: "sends_fit 3 ?ts" and l: "3 \<le> length ''abc''" by (simp_all add: taken_def)
  have "take 3 ''abc'' = ''abc''" by simp
  with async_write_sends_all [OF r f l] show ?thesis by metis
qed

section \<open>Accepting all connections\<close>

lemma closed_close_sockets:
  "list_all tcp_valid ss \<Longrightarrow> closed (close_sockets ss) = map sock_fd ss"
  by (induction ss) (auto simp: close_sockets_def tcp_close_def tcp_valid_def)

definition accepted_socket :: "nat \<Rightarrow> fd \<Rightarrow> tcp_socket" where
  "accepted_socket loop client = \<lparr>sock_loop = Some loop, sock_fd = client\<rparr>"

lemma tcp_valid_accepted [simp]:
  "tcp_valid (accepted_socket loop c) \<longleftrightarrow> 0 \<le> c" "sock_fd (accepted_socket loop c) = c"
  by (simp_all add: accepted_socket_def tcp_valid_def)

lemma accept_et_turn:
  assumes "accept_et_loop loop fd ss (t # ts) = (out, rest, tr)" and "\<forall>c. ret t = Inr c \<longrightarrow> 0 \<le> c"
  shows "(rest = ts \<and> answers [t] = [] \<and>
      (out = Returned ss \<and> tr = [Accept fd] \<or> (\<exists>e. out = Threw e \<and> tr = Accept fd # close_sockets ss)))
    \<or> (\<exists>tr'. tr = Accept fd # tr' \<and>
        accept_et_loop loop fd (ss @ map (accepted_socket loop) (answers [t])) ts = (out, rest, tr'))"
  using assms
  by (cases "accept_et_loop loop fd (ss @ map (accepted_socket loop) (answers [t])) ts")
    (auto simp: tcp_socket_new_def accepted_socket_def split: sum.splits if_splits)

lemma accept_et_owns:
  assumes "accept_et_loop loop fd ss ts = (out, rest, tr)"
    and "\<forall>t \<in> set ts. \<forall>c. ret t = Inr c \<longrightarrow> 0 \<le> c" and "list_all tcp_valid ss"
  shows "\<exists>used. ts = used @ rest
    \<and> (\<forall>cs. out = Returned cs \<longrightarrow> cs = ss @ map (accepted_socket loop) (answers used) \<and> closed tr = [])
    \<and> (\<forall>e. out = Threw e \<longrightarrow> closed tr = map sock_fd ss @ answers used)
    \<and> (out = Pending \<longrightarrow> rest = [] \<and> closed tr = [])"
  using assms
proof (induction ts arbitrary: ss tr)
  case Nil
  then show ?case by simp
next
  case (Cons t ts)
  let ?ss = "ss @ map (accepted_socket loop) (answers [t])"
  have "\<forall>c. ret t = Inr c \<longrightarrow> 0 \<le> c" using Cons(3) by simp
  from accept_et_turn [OF Cons(2) this] show ?case
  proof (elim disjE conjE exE)
    fix tr' assume tr: "tr = Accept fd # tr'" and go: "accept_et_loop loop fd ?ss ts = (out, rest, tr')"
    have "list_all tcp_valid ?ss" using Cons(3,4) by (auto split: sum.splits)
    with Cons(1) [OF go] Cons(3) obtain used where u: "ts = used @ rest"
      "\<forall>cs. out = Returned cs \<longrightarrow> cs = ?ss @ map (accepted_socket loop) (answers used) \<and> closed tr' = []"
      "\<forall>e. out = Threw e \<longrightarrow> closed tr' = map sock_fd ?ss @ answers used"
      "out = Pending \<longrightarrow> rest = [] \<and> closed tr' = []" by auto
    have "map sock_fd ?ss @ answers used = map sock_fd ss @ answers (t # used)"
      by (simp add: accepted_socket_def comp_def split: sum.split)
    moreover have "?ss @ map (accepted_socket loop) (answers used) =
        ss @ map (accepted_socket loop) (answers (t # used))"
      by (simp split: sum.split)
    ultimately show ?thesis using u by (intro exI [of _ "t # used"]) (simp add: tr)
  qed (use Cons in \<open>auto intro!: exI [of _ "[t]"] simp: closed_close_sockets\<close>)
qed

text \<open>
  C31. \<open>async_accept_et\<close> leaks no connection. Every descriptor that the kernel hands over
  during the call is either in the returned vector, in the order of acceptance and as a
  socket of the server's loop, or, when an error ends the call with an exception, has been
  closed exactly once. The call waits for readiness once, before the first \<open>accept4\<close>.
\<close>

theorem async_accept_et_no_leak:
  assumes "async_accept_et s ready ts = (out, rest, tr)"
    and "\<forall>t \<in> set ts. \<forall>c. ret t = Inr c \<longrightarrow> 0 \<le> c"
  shows "\<exists>used. ts = used @ rest
    \<and> (\<forall>ss. out = Returned ss \<longrightarrow> ss = map (accepted_socket (serv_loop s)) (answers used) \<and> closed tr = [])
    \<and> (\<forall>e. out = Threw e \<longrightarrow> closed tr = answers used)
    \<and> (out = Pending \<longrightarrow> closed tr = [])"
proof (cases "server_ensure_valid s = None \<and> ready = Some None")
  case True
  then obtain tr' where "accept_et_loop (serv_loop s) (serv_fd s) [] ts = (out, rest, tr')"
    and "tr = Await (serv_fd s) Readable True # tr'"
    using assms(1) by (cases "accept_et_loop (serv_loop s) (serv_fd s) [] ts") (auto simp: async_accept_et_def)
  with accept_et_owns [OF this(1) assms(2)] show ?thesis by auto
next
  case False
  with assms(1) show ?thesis
    by (intro exI [of _ "[]"]) (auto simp: async_accept_et_def guarded_def split: option.splits)
qed

theorem async_accept_et_no_leak_witness:
  "\<exists>used. [\<lparr>ret = Inr (7 :: int), wake = None\<rparr>, \<lparr>ret = Inl EINTR, wake = None\<rparr>, \<lparr>ret = Inr 8, wake = None\<rparr>,
      \<lparr>ret = Inl 24, wake = None\<rparr>] = used @ [] \<and> [7, 8] = answers used"
proof -
  let ?s = "\<lparr>serv_loop = 0, serv_fd = 3\<rparr>"
  let ?ts = "[\<lparr>ret = Inr (7 :: int), wake = None\<rparr>, \<lparr>ret = Inl EINTR, wake = None\<rparr>, \<lparr>ret = Inr 8, wake = None\<rparr>,
      \<lparr>ret = Inl 24, wake = None\<rparr>]"
  let ?tr = "[Await 3 Readable True, Accept 3, Accept 3, Accept 3, Accept 3,
      Loop_remove 7, Sys_close 7, Loop_remove 8, Sys_close 8]"
  have r: "async_accept_et ?s (Some None) ?ts = (Threw (System_error 24 ''accept4''), [], ?tr)"
    by (simp add: async_accept_et_def server_ensure_valid_def tcp_socket_new_def close_sockets_def tcp_close_def)
  have c: "\<forall>t \<in> set ?ts. \<forall>c. ret t = Inr c \<longrightarrow> 0 \<le> c" by simp
  have "closed ?tr = [7, 8]" by simp
  with async_accept_et_no_leak [OF r c] show ?thesis by metis
qed

section \<open>Listening\<close>

definition listen_calls :: "fd \<Rightarrow> 16 word \<Rightarrow> int \<Rightarrow> bool \<Rightarrow> io list" where
  "listen_calls fd port backlog share =
     [Sys_setsockopt fd ''SO_REUSEADDR''] @ (if share then [Sys_setsockopt fd ''SO_REUSEPORT''] else [])
       @ [Sys_bind fd (unat (htons port)), Sys_listen fd backlog]"

text \<open>
  What \<open>listen\<close> leaves. It succeeds exactly when every call succeeds, and then the server
  owns the new descriptor, bound to the port in network order; the descriptor it had before
  is closed first. When a call after \<open>socket\<close> fails it throws, no later call is made, and the
  new descriptor stays open in the server, so that \<open>ensure_valid\<close> passes for a socket that
  does not listen; it is closed by the next \<open>listen\<close>, \<open>close\<close> or the destructor.
\<close>

theorem server_listen_result:
  assumes "server_listen K s port backlog share = (out, s', tr)"
  shows "(K Sys_socket = Inl e \<longrightarrow> out = Some (System_error e ''socket'') \<and> serv_fd s' = - 1)
    \<and> (K Sys_socket = Inr fd \<longrightarrow> serv_fd s' = fd
         \<and> (out = None \<longleftrightarrow> (\<forall>c \<in> set (listen_calls fd port backlog share). \<exists>x. K c = Inr x))
         \<and> prefix tr (fst (server_close s) @ Sys_socket # listen_calls fd port backlog share)
         \<and> (out = None \<longrightarrow> tr = fst (server_close s) @ Sys_socket # listen_calls fd port backlog share))
    \<and> closed tr = (if 0 \<le> serv_fd s then [serv_fd s] else [])"
  using assms
  by (auto simp: server_listen_def server_close_def listen_calls_def Let_def prefix_def
      split: sum.splits if_splits prod.splits)

theorem server_listen_result_witness:
  "prefix [Sys_socket, Sys_setsockopt 9 ''SO_REUSEADDR'', Sys_bind 9 36895]
     (Sys_socket # listen_calls 9 8080 128 False)"
proof -
  let ?K = "\<lambda>c. case c of Sys_socket \<Rightarrow> Inr 9 | Sys_bind _ _ \<Rightarrow> Inl 98 | _ \<Rightarrow> Inr 0"
  let ?s = "tcp_server_new 0"
  have port: "unat (htons 8080) = 36895" by (simp add: htons_def)
  have r: "server_listen ?K ?s 8080 128 False =
      (Some (System_error 98 ''bind''), ?s\<lparr>serv_fd := 9\<rparr>,
       [Sys_socket, Sys_setsockopt 9 ''SO_REUSEADDR'', Sys_bind 9 36895])"
    by (simp add: server_listen_def server_close_def tcp_server_new_def Let_def port)
  from server_listen_result [OF r, of 0 9] show ?thesis by (simp add: server_close_def tcp_server_new_def)
qed

end
