(* ===== verification/Udp.thy ===== *)
theory Udp
  imports Tcp
begin

unbundle bit_operations_syntax

text \<open>
  \<open>include/coro_epoll/udp.hpp\<close>: \<open>UdpEndpoint\<close>, \<open>UdpReceiveResult\<close> and \<open>UdpSocket\<close>, in the
  configuration of Linux.

  An endpoint keeps its port in network order. The text form of an address belongs to
  \<open>inet_pton\<close> and \<open>inet_ntop\<close> of the C library, which are parameters here.
\<close>

section \<open>UdpEndpoint\<close>

record udp_endpoint =
  sin_addr :: "32 word"
  sin_port :: "16 word"

definition endpoint_default :: udp_endpoint where
  "endpoint_default = \<lparr>sin_addr = 0, sin_port = 0\<rparr>"

text \<open>
  \<open>inet_pton\<close>: \<open>Inl errno\<close> for a negative result, \<open>Inr None\<close> for 0 (not an address) and
  \<open>Inr (Some a)\<close> for 1. The constructor copies the view into a string and passes its
  \<open>c_str()\<close>.
\<close>

definition udp_endpoint_new ::
    "(bytes \<Rightarrow> int + 32 word option) \<Rightarrow> bytes \<Rightarrow> 16 word \<Rightarrow> exn + udp_endpoint" where
  "udp_endpoint_new inet_pton address port = (case inet_pton address of
      Inr (Some a) \<Rightarrow> Inr \<lparr>sin_addr = a, sin_port = htons port\<rparr>
    | Inr None \<Rightarrow> Inl (Invalid_argument ''invalid IPv4 address'')
    | Inl e \<Rightarrow> Inl (System_error e ''inet_pton''))"

definition endpoint_address :: "(32 word \<Rightarrow> int + bytes) \<Rightarrow> udp_endpoint \<Rightarrow> exn + bytes" where
  "endpoint_address inet_ntop ep = (case inet_ntop (sin_addr ep) of
      Inl e \<Rightarrow> Inl (System_error e ''inet_ntop'')
    | Inr text \<Rightarrow> Inr text)"

text \<open>\<open>ntohs\<close> swaps the bytes back.\<close>

definition endpoint_port :: "udp_endpoint \<Rightarrow> 16 word" where
  "endpoint_port ep = htons (sin_port ep)"

section \<open>UdpSocket\<close>

record udp_socket =
  udp_loop :: "nat option"
  udp_fd :: fd

definition udp_socket_new :: "nat \<Rightarrow> udp_socket" where
  "udp_socket_new loop = \<lparr>udp_loop = Some loop, udp_fd = - 1\<rparr>"

definition udp_move :: "udp_socket \<Rightarrow> udp_socket \<times> udp_socket" where
  "udp_move s = (s, s\<lparr>udp_loop := None, udp_fd := - 1\<rparr>)"

definition udp_valid :: "udp_socket \<Rightarrow> bool" where
  "udp_valid s \<longleftrightarrow> 0 \<le> udp_fd s"

text \<open>Unlike \<open>TcpSocket::close\<close>, \<open>close\<close> keeps the loop, so that the socket can be bound again.\<close>

definition udp_close :: "udp_socket \<Rightarrow> io list \<times> udp_socket" where
  "udp_close s =
     (if 0 \<le> udp_fd s then
        ((if udp_loop s \<noteq> None then [Loop_remove (udp_fd s)] else []) @ [Sys_close (udp_fd s)],
         s\<lparr>udp_fd := - 1\<rparr>)
      else ([], s))"

definition udp_move_assign ::
    "bool \<Rightarrow> udp_socket \<Rightarrow> udp_socket \<Rightarrow> io list \<times> udp_socket \<times> udp_socket" where
  "udp_move_assign same x y =
     (if same then ([], x, y)
      else (fst (udp_close x),
            (snd (udp_close x))\<lparr>udp_loop := udp_loop y, udp_fd := udp_fd y\<rparr>,
            y\<lparr>udp_loop := None, udp_fd := - 1\<rparr>))"

definition udp_ensure_valid :: "udp_socket \<Rightarrow> exn option" where
  "udp_ensure_valid s =
     (if udp_loop s = None \<or> udp_fd s < 0 then Some (Runtime_error ''invalid UdpSocket'') else None)"

text \<open>
  \<open>bind\<close>. The calls behind \<open>socket\<close> stand in a \<open>try\<close> block; its handler closes the new
  descriptor and throws on.
\<close>

definition udp_bind ::
    "kernel_answers \<Rightarrow> udp_socket \<Rightarrow> 16 word \<Rightarrow> bool \<Rightarrow> exn option \<times> udp_socket \<times> io list" where
  "udp_bind K s port reuse_port =
     (let (closing, s0) = udp_close s in
      case K Sys_socket of
        Inl e \<Rightarrow> (Some (System_error e ''socket''), s0\<lparr>udp_fd := - 1\<rparr>, closing @ [Sys_socket])
      | Inr fd \<Rightarrow>
          let s1 = s0\<lparr>udp_fd := fd\<rparr>;
              addr = Sys_setsockopt fd ''SO_REUSEADDR'';
              share = Sys_setsockopt fd ''SO_REUSEPORT'';
              bnd = Sys_bind fd (unat (htons port));
              tr1 = closing @ [Sys_socket, addr];
              tr2 = tr1 @ (if reuse_port then [share] else []);
              failed = (\<lambda>e what tr. (Some (System_error e what), s1\<lparr>udp_fd := - 1\<rparr>, tr @ [Sys_close fd]))
          in (case K addr of
                Inl e \<Rightarrow> failed e ''setsockopt SO_REUSEADDR'' tr1
              | Inr _ \<Rightarrow>
                  (case (if reuse_port then K share else Inr 0) of
                     Inl e \<Rightarrow> failed e ''setsockopt SO_REUSEPORT'' tr2
                   | Inr _ \<Rightarrow>
                       (case K bnd of
                          Inl e \<Rightarrow> failed e ''bind'' (tr2 @ [bnd])
                        | Inr _ \<Rightarrow> (None, s1, tr2 @ [bnd])))))"

subsection \<open>Receiving\<close>

text \<open>
  A datagram is its bytes and its sender; \<open>recvfrom\<close> stores what fits into the buffer and
  drops the rest. A result is the count and the endpoint; the bytes are in the caller's
  buffer.
\<close>

type_synonym datagram = "bytes \<times> udp_endpoint"

record udp_receive_result =
  res_size :: nat
  res_endpoint :: udp_endpoint

definition recv_result :: "nat \<Rightarrow> datagram \<Rightarrow> udp_receive_result" where
  "recv_result sz d = \<lparr>res_size = length (take sz (fst d)), res_endpoint = snd d\<rparr>"

definition recv_store :: "nat \<Rightarrow> bytes \<Rightarrow> datagram \<Rightarrow> bytes" where
  "recv_store sz buf d = poke buf 0 (take sz (fst d))"

fun recv_from_loop ::
    "fd \<Rightarrow> nat \<Rightarrow> bytes \<Rightarrow> datagram turn list \<Rightarrow> (datagram, udp_receive_result \<times> bytes) run" where
  "recv_from_loop fd sz buf [] = (Pending, [], [])"
| "recv_from_loop fd sz buf (t # ts) = (case ret t of
      Inr d \<Rightarrow> (Returned (recv_result sz d, recv_store sz buf d), ts, [Recvfrom fd sz])
    | Inl e \<Rightarrow>
        (if e = EINTR then emit [Recvfrom fd sz] (recv_from_loop fd sz buf ts)
         else if e = EAGAIN \<or> e = EWOULDBLOCK then
           (case wake t of
              None \<Rightarrow> emit [Recvfrom fd sz, Await fd Readable False] (recv_from_loop fd sz buf ts)
            | Some ex \<Rightarrow> (Threw ex, ts, [Recvfrom fd sz, Await fd Readable False]))
         else (Threw (System_error e ''recvfrom''), ts, [Recvfrom fd sz])))"

definition async_recv_from ::
    "udp_socket \<Rightarrow> bytes \<Rightarrow> nat \<Rightarrow> datagram turn list \<Rightarrow> (datagram, udp_receive_result \<times> bytes) run" where
  "async_recv_from s buf sz = guarded (udp_ensure_valid s) (recv_from_loop (udp_fd s) sz buf)"

text \<open>
  The edge-triggered receive collects results until the call would block. Every call is
  given the same buffer.
\<close>

fun recv_from_et_loop ::
    "fd \<Rightarrow> nat \<Rightarrow> udp_receive_result list \<Rightarrow> bytes \<Rightarrow> datagram turn list
       \<Rightarrow> (datagram, udp_receive_result list \<times> bytes) run" where
  "recv_from_et_loop fd sz results buf [] = (Pending, [], [])"
| "recv_from_et_loop fd sz results buf (t # ts) = (case ret t of
      Inr d \<Rightarrow>
        emit [Recvfrom fd sz]
          (recv_from_et_loop fd sz (results @ [recv_result sz d]) (recv_store sz buf d) ts)
    | Inl e \<Rightarrow>
        (if e = EINTR then emit [Recvfrom fd sz] (recv_from_et_loop fd sz results buf ts)
         else if e = EAGAIN \<or> e = EWOULDBLOCK then
           (if results \<noteq> [] then (Returned (results, buf), ts, [Recvfrom fd sz])
            else (case wake t of
                None \<Rightarrow> emit [Recvfrom fd sz, Await fd Readable True]
                          (recv_from_et_loop fd sz results buf ts)
              | Some ex \<Rightarrow> (Threw ex, ts, [Recvfrom fd sz, Await fd Readable True])))
         else (Threw (System_error e ''recvfrom''), ts, [Recvfrom fd sz])))"

definition async_recv_from_et ::
    "udp_socket \<Rightarrow> bytes \<Rightarrow> nat \<Rightarrow> datagram turn list
       \<Rightarrow> (datagram, udp_receive_result list \<times> bytes) run" where
  "async_recv_from_et s buf sz = guarded (udp_ensure_valid s) (recv_from_et_loop (udp_fd s) sz [] buf)"

subsection \<open>Sending\<close>

fun send_to_loop :: "fd \<Rightarrow> nat \<Rightarrow> nat turn list \<Rightarrow> (nat, nat) run" where
  "send_to_loop fd sz [] = (Pending, [], [])"
| "send_to_loop fd sz (t # ts) = (case ret t of
      Inr cnt \<Rightarrow> (Returned cnt, ts, [Sendto fd sz])
    | Inl e \<Rightarrow>
        (if e = EINTR then emit [Sendto fd sz] (send_to_loop fd sz ts)
         else if e = EAGAIN \<or> e = EWOULDBLOCK then
           (case wake t of
              None \<Rightarrow> emit [Sendto fd sz, Await fd Writable False] (send_to_loop fd sz ts)
            | Some ex \<Rightarrow> (Threw ex, ts, [Sendto fd sz, Await fd Writable False]))
         else (Threw (System_error e ''sendto''), ts, [Sendto fd sz])))"

definition async_send_to :: "udp_socket \<Rightarrow> nat \<Rightarrow> nat turn list \<Rightarrow> (nat, nat) run" where
  "async_send_to s sz = guarded (udp_ensure_valid s) (send_to_loop (udp_fd s) sz)"

interpretation udp_recv: retry_loop "recv_from_loop fd sz buf" "Recvfrom fd sz" "Await fd Readable False"
    "''recvfrom''" "\<lambda>d. (recv_result sz d, recv_store sz buf d)" for fd sz buf
  by unfold_locales (auto simp: retry_shape split: sum.split option.split)

interpretation udp_send: retry_loop "send_to_loop fd sz" "Sendto fd sz" "Await fd Writable False"
    "''sendto''" "\<lambda>n. n" for fd sz
  by unfold_locales (auto simp: retry_shape split: sum.split option.split)

section \<open>The socket as an owner of its descriptor\<close>

definition udp_key :: "udp_socket \<Rightarrow> fd option" where
  "udp_key s = (if udp_valid s then Some (udp_fd s) else None)"

definition udp_release :: "udp_socket \<Rightarrow> fd list \<times> udp_socket" where
  "udp_release s = (closed (fst (udp_close s)), snd (udp_close s))"

definition udp_assign :: "bool \<Rightarrow> udp_socket \<Rightarrow> udp_socket \<Rightarrow> fd list \<times> udp_socket \<times> udp_socket" where
  "udp_assign same x y = (case udp_move_assign same x y of (tr, x', y') \<Rightarrow> (closed tr, x', y'))"

lemmas udp_owner_defs = udp_key_def udp_release_def udp_assign_def udp_move_def udp_close_def
  udp_move_assign_def udp_valid_def held_def

interpretation udp_owner: unique_owner udp_key udp_move udp_release udp_assign
  by unfold_locales (auto simp: udp_owner_defs)

section \<open>Properties\<close>

lemma htons_htons [simp]: "htons (htons w) = w"
  unfolding htons_def
  by (rule bit_word_eqI) (auto simp: bit_simps)

text \<open>
  The port of an endpoint. An endpoint that the constructor accepts gives back the port
  and, when \<open>inet_ntop\<close> inverts \<open>inet_pton\<close> on this text, the address it was made from; the
  text is refused with \<open>invalid_argument\<close> exactly when \<open>inet_pton\<close> says it is no address.
\<close>

theorem endpoint_roundtrip:
  assumes "\<forall>a. pton text = Inr (Some a) \<longrightarrow> ntop a = Inr text"
  shows "(\<forall>ep. udp_endpoint_new pton text port = Inr ep \<longrightarrow>
            endpoint_port ep = port \<and> endpoint_address ntop ep = Inr text)
    \<and> (udp_endpoint_new pton text port = Inl (Invalid_argument ''invalid IPv4 address'')
         \<longleftrightarrow> pton text = Inr None)"
  using assms
  by (auto simp: udp_endpoint_new_def endpoint_port_def endpoint_address_def split: sum.splits option.splits)

theorem endpoint_roundtrip_witness:
  "endpoint_port \<lparr>sin_addr = 0x0100007F, sin_port = 0x901F\<rparr> = 8080"
proof -
  let ?pton = "\<lambda>s. if s = ''127.0.0.1'' then Inr (Some 0x0100007F) else Inr None :: int + 32 word option"
  let ?ntop = "\<lambda>a. if a = 0x0100007F then Inr ''127.0.0.1'' else Inl 97 :: int + bytes"
  have p: "\<forall>a. ?pton ''127.0.0.1'' = Inr (Some a) \<longrightarrow> ?ntop a = Inr ''127.0.0.1''" by simp
  have "udp_endpoint_new ?pton ''127.0.0.1'' 8080 = Inr \<lparr>sin_addr = 0x0100007F, sin_port = 0x901F\<rparr>"
    by (simp add: udp_endpoint_new_def htons_def)
  with endpoint_roundtrip [of ?pton "''127.0.0.1''" ?ntop 8080, OF p] show ?thesis by blast
qed

text \<open>
  What \<open>bind\<close> leaves. It succeeds exactly when every call succeeds, and then the socket
  owns the new descriptor. When a call after \<open>socket\<close> fails, the new descriptor has been
  closed and the socket is invalid: nothing leaks, unlike \<open>TcpServer::listen\<close>. The
  descriptor the socket had before is closed first in either case, and the loop is kept.
\<close>

theorem udp_bind_result:
  assumes "udp_bind K s port share = (out, s', tr)"
  shows "udp_loop s' = udp_loop s
    \<and> (K Sys_socket = Inr fd \<longrightarrow>
         (out = None \<longleftrightarrow> (\<forall>c \<in> set (butlast (listen_calls fd port 0 share)). \<exists>x. K c = Inr x))
         \<and> udp_fd s' = (if out = None then fd else - 1)
         \<and> closed tr = (if 0 \<le> udp_fd s then [udp_fd s] else []) @ (if out = None then [] else [fd]))
    \<and> (K Sys_socket = Inl e \<longrightarrow> out = Some (System_error e ''socket'') \<and> udp_fd s' = - 1
         \<and> closed tr = (if 0 \<le> udp_fd s then [udp_fd s] else []))"
  using assms
  by (auto simp: udp_bind_def udp_close_def listen_calls_def Let_def
      split: sum.splits if_splits prod.splits)

theorem udp_bind_result_witness:
  "closed [Sys_socket, Sys_setsockopt 9 ''SO_REUSEADDR'', Sys_bind 9 36895, Sys_close 9] = [9]"
proof -
  let ?K = "\<lambda>c. case c of Sys_socket \<Rightarrow> Inr 9 | Sys_bind _ _ \<Rightarrow> Inl 98 | _ \<Rightarrow> Inr 0"
  let ?s = "udp_socket_new 0"
  have port: "unat (htons 8080) = 36895" by (simp add: htons_def)
  have r: "udp_bind ?K ?s 8080 False =
      (Some (System_error 98 ''bind''), ?s,
       [Sys_socket, Sys_setsockopt 9 ''SO_REUSEADDR'', Sys_bind 9 36895, Sys_close 9])"
    by (simp add: udp_bind_def udp_close_def udp_socket_new_def Let_def port)
  from udp_bind_result [OF r, of 9 0] show ?thesis by (simp add: udp_socket_new_def)
qed

text \<open>
  What \<open>async_recv_from\<close> returns: exactly the first datagram after interruptions and
  blocked calls, with its sender, the number of bytes stored, and those bytes at the front of
  the buffer; a datagram longer than the buffer is cut. It is suspended exactly while there
  was none, and an invalid socket makes no call.
\<close>

theorem async_recv_from_returns:
  "(fst (async_recv_from s buf sz ts) = Returned r \<longleftrightarrow>
      udp_ensure_valid s = None
      \<and> (\<exists>pre t post d. ts = pre @ t # post \<and> list_all retries pre \<and> ret t = Inr d
           \<and> r = (\<lparr>res_size = min sz (length (fst d)), res_endpoint = snd d\<rparr>, poke buf 0 (take sz (fst d)))))
   \<and> (fst (async_recv_from s buf sz ts) = Pending \<longleftrightarrow> udp_ensure_valid s = None \<and> list_all retries ts)"
proof (cases "udp_ensure_valid s")
  case None
  have "r = (recv_result sz d, recv_store sz buf d) \<longleftrightarrow>
      r = (\<lparr>res_size = min sz (length (fst d)), res_endpoint = snd d\<rparr>, poke buf 0 (take sz (fst d)))" for d
    by (simp add: recv_result_def recv_store_def min.commute)
  with None show ?thesis
    using udp_recv.returned_iff [of "udp_fd s" sz buf ts r] udp_recv.pending_iff [of "udp_fd s" sz buf ts]
    by (simp add: async_recv_from_def)
next
  case (Some e)
  then show ?thesis by (simp add: async_recv_from_def)
qed

text \<open>
  What \<open>async_send_to\<close> returns: exactly the count of the first call that the kernel
  takes, after interruptions and blocked calls; one datagram goes out, never two.
\<close>

theorem async_send_to_returns:
  "(fst (async_send_to s sz ts) = Returned n \<longleftrightarrow>
      udp_ensure_valid s = None
      \<and> (\<exists>pre t post. ts = pre @ t # post \<and> list_all retries pre \<and> ret t = Inr n))
   \<and> (\<exists>used. ts = used @ fst (snd (async_send_to s sz ts)) \<and> length (answers used) \<le> 1)"
proof (cases "udp_ensure_valid s")
  case None
  have "\<exists>used. ts = used @ fst (snd (send_to_loop (udp_fd s) sz ts)) \<and> length (answers used) \<le> 1"
  proof (induction ts)
    case Nil
    then show ?case by simp
  next
    case (Cons t ts)
    then obtain used where u: "ts = used @ fst (snd (send_to_loop (udp_fd s) sz ts))" "length (answers used) \<le> 1"
      by blast
    show ?case
    proof (cases "retries t")
      case True
      with u show ?thesis
        by (intro exI [of _ "t # used"]) (auto simp: udp_send.run_retry retries_def would_block_def split: sum.splits)
    next
      case False
      then show ?thesis by (intro exI [of _ "[t]"]) (simp add: udp_send.run_stop del: send_to_loop.simps split: sum.split)
    qed
  qed
  with None show ?thesis
    using udp_send.returned_iff [of "udp_fd s" sz ts n] by (simp add: async_send_to_def)
next
  case (Some e)
  then show ?thesis by (auto simp: async_send_to_def intro: exI [of _ "[]"])
qed

subsection \<open>The edge-triggered receive\<close>

lemma recv_from_et_turn:
  assumes "recv_from_et_loop fd sz results buf (t # ts) = (Returned r, rest, tr)"
  shows "(blocks t \<and> results \<noteq> [] \<and> r = (results, buf) \<and> rest = ts)
    \<or> (\<exists>tr'. recv_from_et_loop fd sz (results @ map (recv_result sz) (answers [t]))
           (fold (\<lambda>d b. recv_store sz b d) (answers [t]) buf) ts = (Returned r, rest, tr'))"
  using assms
  by (auto simp: blocks_def would_block_def emit_def split: sum.splits if_splits option.splits prod.splits)

lemma recv_from_et_loop_returns:
  assumes "recv_from_et_loop fd sz results buf ts = (Returned r, rest, tr)"
  shows "\<exists>used t. ts = used @ t # rest \<and> blocks t \<and> (results \<noteq> [] \<or> answers used \<noteq> [])
    \<and> r = (results @ map (recv_result sz) (answers used), fold (\<lambda>d b. recv_store sz b d) (answers used) buf)"
  using assms
proof (induction ts arbitrary: results buf tr)
  case Nil
  then show ?case by simp
next
  case (Cons t ts)
  from recv_from_et_turn [OF Cons(2)] show ?case
  proof (elim disjE conjE exE)
    assume "blocks t" "results \<noteq> []" "r = (results, buf)" "rest = ts"
    then show ?thesis by (intro exI [of _ "[]"] exI [of _ t]) simp
  next
    fix tr' assume "recv_from_et_loop fd sz (results @ map (recv_result sz) (answers [t]))
           (fold (\<lambda>d b. recv_store sz b d) (answers [t]) buf) ts = (Returned r, rest, tr')"
    from Cons(1) [OF this] obtain used u where "ts = used @ u # rest" "blocks u"
      "r = ((results @ map (recv_result sz) (answers [t])) @ map (recv_result sz) (answers used),
            fold (\<lambda>d b. recv_store sz b d) (answers used) (fold (\<lambda>d b. recv_store sz b d) (answers [t]) buf))"
      "results @ map (recv_result sz) (answers [t]) \<noteq> [] \<or> answers used \<noteq> []"
      by auto
    then show ?thesis by (intro exI [of _ "t # used"] exI [of _ u]) (auto split: sum.splits)
  qed
qed

lemma fold_store_last:
  "ds \<noteq> [] \<Longrightarrow> \<exists>b. fold (\<lambda>d b. recv_store sz b d) ds buf = recv_store sz b (last ds)"
  by (induction ds rule: rev_induct) auto

text \<open>
  The edge-triggered receive keeps one payload. It returns the sizes and senders of all
  datagrams that were there, in order, stopping at a call that would block; but each of them
  was stored at the front of the same buffer, which at the end holds the last one: of every
  earlier datagram that is not longer than the last, no byte of its own is left, and the
  caller that reads its \<open>size\<close> bytes gets bytes of the last datagram.
\<close>

theorem recv_from_et_overwrites:
  assumes "async_recv_from_et s buf sz ts = (Returned (results, buf'), rest, tr)"
  shows "\<exists>used t. ts = used @ t # rest \<and> blocks t \<and> answers used \<noteq> []
    \<and> results = map (recv_result sz) (answers used)
    \<and> (\<forall>d \<in> set (answers used). length (fst d) \<le> length (fst (last (answers used))) \<longrightarrow>
         take (res_size (recv_result sz d)) buf' =
           take (res_size (recv_result sz d)) (fst (last (answers used))))"
proof -
  from assms have "recv_from_et_loop (udp_fd s) sz [] buf ts = (Returned (results, buf'), rest, tr)"
    by (cases "udp_ensure_valid s") (auto simp: async_recv_from_et_def)
  from recv_from_et_loop_returns [OF this] obtain used t where
    u: "ts = used @ t # rest" "blocks t" "answers used \<noteq> []" "results = map (recv_result sz) (answers used)"
      "buf' = fold (\<lambda>d b. recv_store sz b d) (answers used) buf" by auto
  let ?l = "fst (last (answers used))"
  from fold_store_last [OF u(3)] obtain b where b: "buf' = poke b 0 (take sz ?l)"
    unfolding u(5) recv_store_def by blast
  have "take (res_size (recv_result sz d)) buf' = take (res_size (recv_result sz d)) ?l"
    if "length (fst d) \<le> length ?l" for d
    using that by (simp add: b poke_def recv_result_def min_def)
  with u show ?thesis by blast
qed

theorem recv_from_et_overwrites_witness:
  "\<exists>used t. [\<lparr>ret = Inr (''one'', endpoint_default), wake = None\<rparr>, \<lparr>ret = Inr (''two'', endpoint_default), wake = None\<rparr>,
       \<lparr>ret = Inl EAGAIN, wake = None\<rparr>] = used @ t # [] \<and> answers used \<noteq> []
    \<and> map (recv_result 8) (answers used) =
        [\<lparr>res_size = 3, res_endpoint = endpoint_default\<rparr>, \<lparr>res_size = 3, res_endpoint = endpoint_default\<rparr>]
    \<and> take 3 ''two-----'' = ''two''"
proof -
  let ?s = "\<lparr>udp_loop = Some 0, udp_fd = 5\<rparr>"
  let ?ts = "[\<lparr>ret = Inr (''one'', endpoint_default), wake = None\<rparr>, \<lparr>ret = Inr (''two'', endpoint_default), wake = None\<rparr>,
       \<lparr>ret = Inl EAGAIN, wake = None\<rparr>]"
  have r: "async_recv_from_et ?s ''--------'' 8 ?ts =
      (Returned ([\<lparr>res_size = 3, res_endpoint = endpoint_default\<rparr>, \<lparr>res_size = 3, res_endpoint = endpoint_default\<rparr>],
         ''two-----''), [], [Recvfrom 5 8, Recvfrom 5 8, Recvfrom 5 8])"
    by (simp add: async_recv_from_et_def udp_ensure_valid_def recv_result_def recv_store_def poke_def)
  have "take 3 ''two-----'' = ''two''" by simp
  with recv_from_et_overwrites [OF r] show ?thesis by metis
qed

text \<open>
  Every descriptor of a UDP socket has one owner, as for \<open>TcpSocket\<close>, although \<open>close\<close> and
  the move operations treat the loop differently.
\<close>

theorem udp_descriptors_owned_once:
  assumes "perform_all udp_move udp_release udp_assign ps ([], []) = (ss, freed)"
    and "\<And>fd. count (acquired udp_key ps) fd \<le> 1"
  shows "acquired udp_key ps = live udp_key ss + mset freed
    \<and> distinct freed \<and> (\<forall>fd \<in> set freed. fd \<notin># live udp_key ss)"
  using udp_owner.owned_once [OF assms(1)] udp_owner.released_once [OF assms] by blast

theorem udp_descriptors_owned_once_witness:
  "{#5, 6#} = live udp_key [\<lparr>udp_loop = None, udp_fd = - 1\<rparr>, \<lparr>udp_loop = Some 0, udp_fd = 5\<rparr>] + mset [6]"
proof -
  let ?ps = "[Op_new \<lparr>udp_loop = Some 0, udp_fd = 5\<rparr>, Op_new \<lparr>udp_loop = Some 1, udp_fd = 6\<rparr>,
      Op_assign 1 0, Op_assign 1 1] :: udp_socket owner_op list"
  have p: "perform_all udp_move udp_release udp_assign ?ps ([], []) =
     ([\<lparr>udp_loop = None, udp_fd = - 1\<rparr>, \<lparr>udp_loop = Some 0, udp_fd = 5\<rparr>], [6])"
    by (simp add: udp_owner_defs)
  have q: "\<And>fd. count (acquired udp_key ?ps) fd \<le> 1"
    by (simp add: udp_owner_defs)
  have "acquired udp_key ?ps = {#5, 6#}" by (simp add: udp_owner_defs)
  with udp_descriptors_owned_once [OF p q] show ?thesis by metis
qed

end
