(* ===== verification/Echo_Servers.thy ===== *)
theory Echo_Servers
  imports Udp Thread_Pool
begin

text \<open>
  The coroutines of the echo servers under \<open>examples/\<close>: \<open>accept_and_handle\<close>,
  \<open>handle_client\<close>, \<open>udp_echo_loop\<close> and \<open>handle_datagram\<close>, level- and edge-triggered.

  A session runs over the turns of its reads and, apart from them, the turns of its writes.
  \<open>co_await business_pool.submit(loop, f)\<close> is a call of \<open>f\<close> (\<open>Thread_Pool.submit_is_call\<close>);
  its result is a function \<open>submit\<close> from the input, which throws when the pool is stopped.
\<close>

section \<open>Catching at the end of a coroutine\<close>

text \<open>
  \<open>catch (const std::exception&)\<close> logs and lets the coroutine end; any other exception ends up
  in its promise.
\<close>

definition caught :: "exn \<Rightarrow> unit outcome \<times> exn list" where
  "caught e = (if std_exception e then (Returned (), [e]) else (Threw e, []))"

lemma caught_simps [simp]:
  "fst (caught e) \<noteq> Pending" "fst (caught e) = Returned () \<longleftrightarrow> std_exception e"
  "snd (caught e) = (if std_exception e then [e] else [])"
  by (simp_all add: caught_def)

section \<open>Accept loops\<close>

text \<open>
  What the loop of a server comes to: its outcome, what it logged, whether it called
  \<open>loop.stop()\<close>, and what it served, in order; an accept loop serves the sockets of the
  sessions it spawns.
\<close>

type_synonym 'a serve_result = "unit outcome \<times> exn list \<times> bool \<times> 'a list"
type_synonym accept_result = "tcp_socket serve_result"

definition serve_failed :: "exn \<Rightarrow> 'a serve_result" where
  "serve_failed e = (fst (caught e), snd (caught e), std_exception e, [])"

definition spawned :: "'a list \<Rightarrow> 'a serve_result \<Rightarrow> 'a serve_result" where
  "spawned ss r = (case r of (out, log, stp, rest) \<Rightarrow> (out, log, stp, ss @ rest))"

lemma spawned_simps [simp]: "spawned ss (out, log, stp, rest) = (out, log, stp, ss @ rest)"
  by (simp add: spawned_def)

lemma async_accept_fd_used:
  assumes "async_accept_fd s ts = (Returned c, rest, tr)"
  shows "\<exists>used. ts = used @ rest \<and> answers used = [c]"
proof -
  from assms have "accept_loop (serv_fd s) ts = (Returned c, rest, tr)"
    by (cases "server_ensure_valid s") (auto simp: async_accept_fd_def)
  from tcp_accept.returned_used [OF this] obtain pre t where
    "ts = pre @ t # rest" "answers (pre @ [t]) = [c]" by blast
  then show ?thesis by (intro exI [of _ "pre @ [t]"]) simp
qed

lemma async_accept_fd_pending:
  "async_accept_fd s ts = (Pending, rest, tr) \<Longrightarrow> list_all retries ts"
  using tcp_accept.pending_iff [of "serv_fd s" ts]
  by (cases "server_ensure_valid s") (auto simp: async_accept_fd_def)

lemma async_accept_fd_shorter:
  "async_accept_fd s ts = (Returned c, rest, tr) \<Longrightarrow> length rest < length ts"
  by (drule async_accept_fd_used) (auto simp: answers_def)

function accept_and_handle :: "tcp_server \<Rightarrow> fd turn list \<Rightarrow> accept_result" where
  "accept_and_handle s ts = (case async_accept_fd s ts of (out, rest, _) \<Rightarrow>
     (case out of
        Pending \<Rightarrow> (Pending, [], False, [])
      | Threw e \<Rightarrow> serve_failed e
      | Returned client_fd \<Rightarrow>
          (case tcp_socket_new (serv_loop s) client_fd of
             Inl e \<Rightarrow> serve_failed e
           | Inr sock \<Rightarrow> spawned [sock] (accept_and_handle s rest))))"
  by pat_completeness auto
termination
  by (relation "measure (\<lambda>(s, ts). length ts)") (auto dest: async_accept_fd_shorter [OF sym])

declare accept_and_handle.simps [simp del]

text \<open>
  The edge-triggered loop; \<open>readies\<close> is how the wait of each round ends, and the list is used
  up when the loop is suspended in one.
\<close>

fun accept_and_handle_et ::
    "tcp_server \<Rightarrow> exn option list \<Rightarrow> fd turn list \<Rightarrow> accept_result" where
  "accept_and_handle_et s [] ts = (Pending, [], False, [])"
| "accept_and_handle_et s (ready # readies) ts =
     (case async_accept_et s (Some ready) ts of (out, rest, _) \<Rightarrow>
        (case out of
           Pending \<Rightarrow> (Pending, [], False, [])
         | Threw e \<Rightarrow> serve_failed e
         | Returned sockets \<Rightarrow> spawned sockets (accept_and_handle_et s readies rest)))"

lemma accept_loop_serves:
  assumes "accept_and_handle s ts = (out, log, stp, socks)"
    and "\<forall>t \<in> set ts. \<forall>c. ret t = Inr c \<longrightarrow> 0 \<le> c"
  shows "\<exists>used rest. ts = used @ rest \<and> socks = map (accepted_socket (serv_loop s)) (answers used)
    \<and> (out = Returned () \<longleftrightarrow> stp) \<and> (stp \<longrightarrow> length log = 1) \<and> (out = Pending \<longrightarrow> rest = [])"
  using assms
proof (induction s ts arbitrary: socks rule: accept_and_handle.induct)
  case (1 s ts)
  obtain o1 rest tr where a: "async_accept_fd s ts = (o1, rest, tr)" by (metis surj_pair)
  show ?case
  proof (cases o1)
    case (Returned c)
    with a obtain used where u: "ts = used @ rest" "answers used = [c]" using async_accept_fd_used by blast
    from u(2) obtain t where "t \<in> set used" "ret t = Inr c"
      by (induction used) (auto split: sum.splits)
    with 1(3) u(1) have c: "0 \<le> c" by auto
    let ?sock = "accepted_socket (serv_loop s) c"
    have sock: "tcp_socket_new (serv_loop s) c = Inr ?sock"
      using c by (simp add: tcp_socket_new_def accepted_socket_def)
    obtain socks' where go: "accept_and_handle s rest = (out, log, stp, socks')" and socks: "socks = ?sock # socks'"
      using 1(2) by (subst (asm) accept_and_handle.simps)
        (cases "accept_and_handle s rest", simp add: a Returned sock)
    have "\<forall>t \<in> set rest. \<forall>c. ret t = Inr c \<longrightarrow> 0 \<le> c" using 1(3) u(1) by auto
    from 1(1) [OF a [symmetric] refl Returned sock go this] obtain used' rest' where
      "rest = used' @ rest'" "socks' = map (accepted_socket (serv_loop s)) (answers used')"
      "(out = Returned () \<longleftrightarrow> stp) \<and> (stp \<longrightarrow> length log = 1) \<and> (out = Pending \<longrightarrow> rest' = [])" by blast
    then show ?thesis
      using u socks by (intro exI [of _ "used @ used'"] exI [of _ rest']) simp
  next
    case (Threw e)
    with 1(2) a have "(out, log, stp, socks) = serve_failed e" by (subst (asm) accept_and_handle.simps) simp
    then show ?thesis by (intro exI [of _ "[]"] exI [of _ ts]) (auto simp: serve_failed_def caught_def split: if_splits)
  next
    case Pending
    have "list_all retries ts" using async_accept_fd_pending a Pending by blast
    then have "answers ts = []" by (simp add: answers_retries)
    with 1(2) a Pending show ?thesis
      by (subst (asm) accept_and_handle.simps) (auto intro!: exI [of _ ts])
  qed
qed

text \<open>
  C25. The accept loop serves every connection and ends only by stopping its loop. The sessions
  spawned are those of all connections that the kernel handed over, in order, each on the
  server's loop with its descriptor; the loop returns only after an error, which it logs, and
  then it has called \<open>stop\<close>; otherwise it is suspended and has seen every turn.
\<close>

theorem accept_loop_serves_all:
  assumes "accept_and_handle s ts = (out, log, stp, socks)"
    and "\<forall>t \<in> set ts. \<forall>c. ret t = Inr c \<longrightarrow> 0 \<le> c"
  shows "\<exists>used rest. ts = used @ rest \<and> socks = map (accepted_socket (serv_loop s)) (answers used)
    \<and> (out = Returned () \<longleftrightarrow> stp) \<and> (stp \<longrightarrow> length log = 1) \<and> (out = Pending \<longrightarrow> rest = [])"
  using assms by (rule accept_loop_serves)

theorem accept_loop_serves_all_witness:
  "\<exists>used rest. [\<lparr>ret = Inr (7 :: int), wake = None\<rparr>, \<lparr>ret = Inl 24, wake = None\<rparr>] = used @ rest
    \<and> [accepted_socket 0 7] = map (accepted_socket 0) (answers used)"
proof -
  let ?s = "\<lparr>serv_loop = 0, serv_fd = 3\<rparr>"
  let ?ts = "[\<lparr>ret = Inr (7 :: int), wake = None\<rparr>, \<lparr>ret = Inl 24, wake = None\<rparr>]"
  have r: "accept_and_handle ?s ?ts = (Returned (), [System_error 24 ''accept4''], True, [accepted_socket 0 7])"
    by (simp add: accept_and_handle.simps async_accept_fd_def server_ensure_valid_def serve_failed_def
        caught_def tcp_socket_new_def accepted_socket_def)
  have c: "\<forall>t \<in> set ?ts. \<forall>c. ret t = Inr c \<longrightarrow> 0 \<le> c" by simp
  from accept_loop_serves_all [OF r c] show ?thesis by auto
qed

section \<open>Copying a stream\<close>

text \<open>
  What a session comes to: its outcome, what it logged, the bytes that went out to the peer,
  and the turns that are left.
\<close>

type_synonym pump_result = "unit outcome \<times> exn list \<times> bytes \<times> bytes turn list \<times> nat turn list"

definition pump_failed :: "exn \<Rightarrow> bytes turn list \<Rightarrow> nat turn list \<Rightarrow> pump_result" where
  "pump_failed e rs ws = (fst (caught e), snd (caught e), [], rs, ws)"

definition sent_before :: "bytes \<Rightarrow> pump_result \<Rightarrow> pump_result" where
  "sent_before bs r = (case r of (out, log, sent, rs, ws) \<Rightarrow> (out, log, bs @ sent, rs, ws))"

lemma sent_before_simps [simp]: "sent_before bs (out, log, sent, rs, ws) = (out, log, bs @ sent, rs, ws)"
  by (simp add: sent_before_def)

text \<open>The turns that a run has used up, and what a write of \<open>buf\<close> put on the wire.\<close>

definition used_up :: "'a list \<Rightarrow> 'a list \<Rightarrow> 'a list" where
  "used_up ts rest = take (length ts - length rest) ts"

lemma used_up_append [simp]: "used_up (used @ rest) rest = used"
  by (simp add: used_up_def)

text \<open>
  The echo sessions and the relay of the proxy are loops that read a chunk, write it, and end
  at a count of zero. The locale states that loop over a read and a write operation, with the
  contracts that \<open>TcpSocket\<close> keeps, and derives that the stream goes out as it came in.
\<close>

locale byte_pump =
  fixes rd :: "bytes \<Rightarrow> bytes turn list \<Rightarrow> (bytes, nat \<times> bytes) run"
    and wr :: "nat \<Rightarrow> nat turn list \<Rightarrow> (nat, nat) run"
    and pump :: "bytes \<Rightarrow> bytes turn list \<Rightarrow> nat turn list \<Rightarrow> pump_result"
  assumes rd_returned: "rd buf rs = (Returned (n, buf'), rest, tr) \<Longrightarrow>
      \<exists>used. rs = used @ rest \<and> used \<noteq> [] \<and> take n buf' = received used \<and> n = length (received used)"
    and wr_sends: "wr (length bs) ws = (o2, wrest, wtr) \<Longrightarrow>
      \<exists>used. ws = used @ wrest \<and> prefix (wire bs wtr used) bs
        \<and> (\<forall>n. o2 = Returned n \<longrightarrow> wire bs wtr used = bs)"
    and pump_unfold: "pump buf rs ws = (case rd buf rs of (o1, rs', _) \<Rightarrow>
      (case o1 of
         Pending \<Rightarrow> (Pending, [], [], rs', ws)
       | Threw e \<Rightarrow> pump_failed e rs' ws
       | Returned (n, buf') \<Rightarrow>
           (if n = 0 then (Returned (), [], [], rs', ws)
            else (case wr (length (take n buf')) ws of (o2, ws', tr) \<Rightarrow>
              sent_before (wire (take n buf') tr (used_up ws ws'))
                (case o2 of
                   Pending \<Rightarrow> (Pending, [], [], rs', ws')
                 | Threw e \<Rightarrow> pump_failed e rs' ws'
                 | Returned _ \<Rightarrow> pump buf' rs' ws')))))"
begin

lemma pump_copies:
  assumes "pump buf rs ws = (out, log, sent, rs', ws')"
  shows "\<exists>used rest. rs = used @ rest \<and> prefix sent (received used)
    \<and> (out = Returned () \<and> log = [] \<longrightarrow> sent = received used \<and> rest = rs')"
  using assms
proof (induction "length rs" arbitrary: buf rs ws sent rule: less_induct)
  case less
  obtain o1 rs1 tr1 where rd: "rd buf rs = (o1, rs1, tr1)" by (metis surj_pair)
  show ?case
  proof (cases o1)
    case (Returned r)
    obtain n buf' where r: "r = (n, buf')" by (cases r)
    with rd Returned rd_returned obtain used where
      u: "rs = used @ rs1" "used \<noteq> []" "take n buf' = received used" "n = length (received used)" by blast
    show ?thesis
    proof (cases "n = 0")
      case True
      with less(2) rd Returned r have "sent = []" "rs' = rs1" by (auto simp: pump_unfold [of buf rs ws])
      with True u show ?thesis by (intro exI [of _ used] exI [of _ rs1]) simp
    next
      case False
      obtain o2 ws1 tr where wr: "wr (length (take n buf')) ws = (o2, ws1, tr)" by (metis surj_pair)
      obtain wused where "ws = wused @ ws1 \<and> prefix (wire (take n buf') tr wused) (take n buf')
          \<and> (\<forall>m. o2 = Returned m \<longrightarrow> wire (take n buf') tr wused = take n buf')"
        using wr_sends [OF wr] ..
      then have w: "ws = wused @ ws1" "prefix (wire (take n buf') tr wused) (take n buf')"
          "\<forall>m. o2 = Returned m \<longrightarrow> wire (take n buf') tr wused = take n buf'" by simp_all
      let ?w = "wire (take n buf') tr wused"
      have up: "used_up ws ws1 = wused" using w(1) by simp
      have pump: "pump buf rs ws = sent_before ?w (case o2 of
            Pending \<Rightarrow> (Pending, [], [], rs1, ws1)
          | Threw e \<Rightarrow> pump_failed e rs1 ws1
          | Returned _ \<Rightarrow> pump buf' rs1 ws1)"
        using rd Returned r False wr up by (simp add: pump_unfold [of buf rs ws] del: length_take)
      show ?thesis
      proof (cases o2)
        case (Returned m)
        obtain sent2 where go: "pump buf' rs1 ws1 = (out, log, sent2, rs', ws')" and s: "sent = ?w @ sent2"
          using less(2) pump Returned by (cases "pump buf' rs1 ws1") simp
        have "length rs1 < length rs" using u(1,2) by simp
        from less(1) [OF this go] obtain used2 rest where "rs1 = used2 @ rest"
          "prefix sent2 (received used2)"
          "out = Returned () \<and> log = [] \<longrightarrow> sent2 = received used2 \<and> rest = rs'" by blast
        moreover have "?w = received used" using w(3) Returned u(3) by simp
        ultimately show ?thesis
          using s u(1) by (intro exI [of _ "used @ used2"] exI [of _ rest]) (simp add: received_def)
      next
        case (Threw e)
        with less(2) pump have "sent = ?w" "log \<noteq> [] \<or> out \<noteq> Returned ()"
          by (auto simp: pump_failed_def caught_def split: if_splits)
        with w(2) u show ?thesis by (intro exI [of _ used] exI [of _ rs1]) auto
      next
        case Pending
        with less(2) pump have "sent = ?w" "out = Pending" by auto
        with w(2) u show ?thesis by (intro exI [of _ used] exI [of _ rs1]) auto
      qed
    qed
  next
    case (Threw e)
    with less(2) rd have "sent = []" "log \<noteq> [] \<or> out \<noteq> Returned ()"
      by (auto simp: pump_unfold [of buf rs ws] pump_failed_def caught_def split: if_splits)
    then show ?thesis by (intro exI [of _ "[]"] exI [of _ rs]) auto
  next
    case Pending
    with less(2) rd have "sent = []" "out = Pending" by (auto simp: pump_unfold [of buf rs ws])
    then show ?thesis by (intro exI [of _ "[]"] exI [of _ rs]) auto
  qed
qed

end

section \<open>TCP sessions\<close>

lemma async_read_returned:
  assumes "async_read s buf sz rs = (Returned (n, buf'), rest, tr)"
  shows "\<exists>used. rs = used @ rest \<and> used \<noteq> [] \<and> take n buf' = received used \<and> n = length (received used)"
proof -
  from assms have "read_loop (sock_fd s) sz buf rs = (Returned (n, buf'), rest, tr)"
    by (cases "tcp_ensure_valid s") (auto simp: async_read_def)
  from tcp_read.returned_used [OF this] obtain pre t bs where
    "rs = pre @ t # rest" "(n, buf') = (length bs, poke buf 0 bs)" "answers (pre @ [t]) = [bs]" by blast
  moreover have "received ts = concat (answers ts)" for ts
    by (induction ts) (simp_all add: delivery_def split: sum.split)
  ultimately show ?thesis by (intro exI [of _ "pre @ [t]"]) simp
qed

lemma async_read_et_returned:
  assumes "async_read_et s buf sz rs = (Returned (n, buf'), rest, tr)"
  shows "\<exists>used. rs = used @ rest \<and> used \<noteq> [] \<and> take n buf' = received used \<and> n = length (received used)"
proof -
  from assms have "read_et_loop (sock_fd s) sz 0 buf rs = (Returned (n, buf'), rest, tr)"
    by (cases "tcp_ensure_valid s") (auto simp: async_read_et_def)
  from read_et_bytes [OF this] obtain used t where
    "rs = used @ t # rest" "drained t" "n = length (received used)" "take n buf' = received used" by auto
  moreover have "drained t \<Longrightarrow> delivery t = []"
    by (auto simp: drained_def delivery_def blocks_def split: sum.splits)
  ultimately show ?thesis by (intro exI [of _ "used @ [t]"]) (simp add: received_def)
qed

lemma read_shorter:
  "async_read s buf sz rs = (Returned (n, buf'), rest, tr) \<Longrightarrow> length rest < length rs"
  "async_read_et s buf sz rs = (Returned (n, buf'), rest, tr) \<Longrightarrow> length rest < length rs"
  by (auto dest: async_read_returned async_read_et_returned)

definition process_payload :: "bytes \<Rightarrow> bytes" where
  "process_payload input = input"

text \<open>The pool of a server that runs: \<open>submit\<close> returns what the function returns.\<close>

definition running_pool :: "bytes \<Rightarrow> exn + bytes" where
  "running_pool input = Inr (process_payload input)"

function handle_client ::
    "tcp_socket \<Rightarrow> (bytes \<Rightarrow> exn + bytes) \<Rightarrow> bytes \<Rightarrow> bytes turn list \<Rightarrow> nat turn list \<Rightarrow> pump_result" where
  "handle_client s submit buf rs ws =
     (case async_read s buf 4096 rs of (o1, rs', _) \<Rightarrow>
       (case o1 of
          Pending \<Rightarrow> (Pending, [], [], rs', ws)
        | Threw e \<Rightarrow> pump_failed e rs' ws
        | Returned (cnt, buf') \<Rightarrow>
            (if cnt = 0 then (Returned (), [], [], rs', ws)
             else (case submit (take cnt buf') of
                 Inl e \<Rightarrow> pump_failed e rs' ws
               | Inr output \<Rightarrow>
                   (case async_write s (length output) ws of (o2, ws', tr) \<Rightarrow>
                     sent_before (wire output tr (used_up ws ws'))
                       (case o2 of
                          Pending \<Rightarrow> (Pending, [], [], rs', ws')
                        | Threw e \<Rightarrow> pump_failed e rs' ws'
                        | Returned _ \<Rightarrow> handle_client s submit buf' rs' ws'))))))"
  by pat_completeness auto
termination
  by (relation "measure (\<lambda>(s, submit, buf, rs, ws). length rs)") (auto dest: read_shorter [OF sym])

text \<open>The edge-triggered variant differs in the read only; its writes stay level-triggered.\<close>

function handle_client_et ::
    "tcp_socket \<Rightarrow> (bytes \<Rightarrow> exn + bytes) \<Rightarrow> bytes \<Rightarrow> bytes turn list \<Rightarrow> nat turn list \<Rightarrow> pump_result" where
  "handle_client_et s submit buf rs ws =
     (case async_read_et s buf 4096 rs of (o1, rs', _) \<Rightarrow>
       (case o1 of
          Pending \<Rightarrow> (Pending, [], [], rs', ws)
        | Threw e \<Rightarrow> pump_failed e rs' ws
        | Returned (cnt, buf') \<Rightarrow>
            (if cnt = 0 then (Returned (), [], [], rs', ws)
             else (case submit (take cnt buf') of
                 Inl e \<Rightarrow> pump_failed e rs' ws
               | Inr output \<Rightarrow>
                   (case async_write s (length output) ws of (o2, ws', tr) \<Rightarrow>
                     sent_before (wire output tr (used_up ws ws'))
                       (case o2 of
                          Pending \<Rightarrow> (Pending, [], [], rs', ws')
                        | Threw e \<Rightarrow> pump_failed e rs' ws'
                        | Returned _ \<Rightarrow> handle_client_et s submit buf' rs' ws'))))))"
  by pat_completeness auto
termination
  by (relation "measure (\<lambda>(s, submit, buf, rs, ws). length rs)") (auto dest: read_shorter [OF sym])

declare handle_client.simps [simp del] handle_client_et.simps [simp del]

interpretation echo: byte_pump "\<lambda>buf. async_read s buf 4096" "async_write s" "handle_client s running_pool" for s
proof
  show "handle_client s running_pool buf rs ws = (case async_read s buf 4096 rs of (o1, rs', _) \<Rightarrow>
      (case o1 of
         Pending \<Rightarrow> (Pending, [], [], rs', ws)
       | Threw e \<Rightarrow> pump_failed e rs' ws
       | Returned (n, buf') \<Rightarrow>
           (if n = 0 then (Returned (), [], [], rs', ws)
            else (case async_write s (length (take n buf')) ws of (o2, ws', tr) \<Rightarrow>
              sent_before (wire (take n buf') tr (used_up ws ws'))
                (case o2 of
                   Pending \<Rightarrow> (Pending, [], [], rs', ws')
                 | Threw e \<Rightarrow> pump_failed e rs' ws'
                 | Returned _ \<Rightarrow> handle_client s running_pool buf' rs' ws')))))" for buf rs ws
    by (subst handle_client.simps) (simp add: running_pool_def process_payload_def cong: prod.case_cong outcome.case_cong if_cong)
qed (erule async_read_returned async_write_buffer)+

interpretation echo_et: byte_pump "\<lambda>buf. async_read_et s buf 4096" "async_write s" "handle_client_et s running_pool" for s
proof
  show "handle_client_et s running_pool buf rs ws = (case async_read_et s buf 4096 rs of (o1, rs', _) \<Rightarrow>
      (case o1 of
         Pending \<Rightarrow> (Pending, [], [], rs', ws)
       | Threw e \<Rightarrow> pump_failed e rs' ws
       | Returned (n, buf') \<Rightarrow>
           (if n = 0 then (Returned (), [], [], rs', ws)
            else (case async_write s (length (take n buf')) ws of (o2, ws', tr) \<Rightarrow>
              sent_before (wire (take n buf') tr (used_up ws ws'))
                (case o2 of
                   Pending \<Rightarrow> (Pending, [], [], rs', ws')
                 | Threw e \<Rightarrow> pump_failed e rs' ws'
                 | Returned _ \<Rightarrow> handle_client_et s running_pool buf' rs' ws')))))" for buf rs ws
    by (subst handle_client_et.simps) (simp add: running_pool_def process_payload_def cong: prod.case_cong outcome.case_cong if_cong)
qed (erule async_read_et_returned async_write_buffer)+

text \<open>
  C11. The TCP echo servers echo. At every moment the bytes that went back to the client are a
  prefix of the bytes that came from it, in both modes, whatever the sizes of reads and
  writes, the blocked calls and the interruptions; and a session that ends without an error
  has sent back everything.
\<close>

theorem echo_is_faithful:
  assumes "handle_client s running_pool buf rs ws = (out, log, sent, rs', ws')
      \<or> handle_client_et s running_pool buf rs ws = (out, log, sent, rs', ws')"
  shows "\<exists>used rest. rs = used @ rest \<and> prefix sent (received used)
    \<and> (out = Returned () \<and> log = [] \<longrightarrow> sent = received used \<and> rest = rs')"
  using assms by (elim disjE) (erule echo.pump_copies, erule echo_et.pump_copies)

theorem echo_is_faithful_witness:
  "\<exists>used rest. [\<lparr>ret = Inr ''abc'', wake = None\<rparr>, \<lparr>ret = Inr [], wake = None\<rparr>] = used @ rest
    \<and> ''abc'' = received used \<and> rest = []"
proof -
  let ?s = "accepted_socket 0 7"
  let ?rs = "[\<lparr>ret = Inr ''abc'', wake = None\<rparr>, \<lparr>ret = Inr [], wake = None\<rparr>]"
  let ?ws = "[\<lparr>ret = Inr (2 :: nat), wake = None\<rparr>, \<lparr>ret = Inr 1, wake = None\<rparr>]"
  have "handle_client ?s running_pool [] ?rs ?ws = (Returned (), [], ''abc'', [], [])"
    by (simp add: handle_client.simps async_read_def async_write_def tcp_ensure_valid_def accepted_socket_def
        running_pool_def process_payload_def poke_def used_up_def wire_def taken_def)
  then have "handle_client ?s running_pool [] ?rs ?ws = (Returned (), [], ''abc'', [], [])
      \<or> handle_client_et ?s running_pool [] ?rs ?ws = (Returned (), [], ''abc'', [], [])" ..
  from echo_is_faithful [OF this] show ?thesis by simp
qed

end
