(* ===== verification/Udp_Echo.thy ===== *)
theory Udp_Echo
  imports Echo_Servers
begin

text \<open>
  The coroutines of the UDP echo servers, \<open>udp_echo_loop\<close> and \<open>handle_datagram\<close> of
  \<open>examples/udp-echo-server/main.cpp\<close> and \<open>examples/udp-echo-server-et/main.cpp\<close>. Business
  functions and the pool are those of \<open>Echo_Servers\<close>.
\<close>

section \<open>What a receive uses up\<close>

lemma async_recv_from_used:
  assumes "async_recv_from s buf sz rs = (Returned (r, buf'), rest, tr)"
  shows "\<exists>used d. rs = used @ rest \<and> answers used = [d] \<and> r = recv_result sz d
    \<and> take (res_size r) buf' = take sz (fst d)"
proof -
  from assms have "recv_from_loop (udp_fd s) sz buf rs = (Returned (r, buf'), rest, tr)"
    by (cases "udp_ensure_valid s") (auto simp: async_recv_from_def)
  from udp_recv.returned_used [OF this] obtain pre t d where
    "rs = pre @ t # rest" "(r, buf') = (recv_result sz d, recv_store sz buf d)" "answers (pre @ [t]) = [d]"
    by blast
  then show ?thesis
    by (intro exI [of _ "pre @ [t]"] exI [of _ d])
      (simp add: recv_result_def recv_store_def poke_def min_def)
qed

lemma async_recv_from_shorter:
  "async_recv_from s buf sz rs = (Returned (r, buf'), rest, tr) \<Longrightarrow> length rest < length rs"
  by (drule async_recv_from_used) (auto simp: answers_def)

lemma async_recv_from_pending:
  "async_recv_from s buf sz rs = (Pending, rest, tr) \<Longrightarrow> answers rs = []"
  using udp_recv.pending_iff [of "udp_fd s" sz buf rs]
  by (cases "udp_ensure_valid s") (auto simp: async_recv_from_def answers_retries)

lemma async_recv_from_et_used:
  assumes "async_recv_from_et s buf sz rs = (Returned (results, buf'), rest, tr)"
  shows "\<exists>used. rs = used @ rest \<and> answers used \<noteq> [] \<and> results = map (recv_result sz) (answers used)
    \<and> buf' = fold (\<lambda>d b. recv_store sz b d) (answers used) buf"
proof -
  from assms have "recv_from_et_loop (udp_fd s) sz [] buf rs = (Returned (results, buf'), rest, tr)"
    by (cases "udp_ensure_valid s") (auto simp: async_recv_from_et_def)
  from recv_from_et_loop_returns [OF this] obtain used t where
    "rs = used @ t # rest" "blocks t" "answers used \<noteq> []"
    "(results, buf') = (map (recv_result sz) (answers used), fold (\<lambda>d b. recv_store sz b d) (answers used) buf)"
    by auto
  moreover from \<open>blocks t\<close> have "answers [t] = []" by (auto simp: blocks_def split: sum.splits)
  ultimately show ?thesis by (intro exI [of _ "used @ [t]"]) (simp del: answers_simps(2))
qed

lemma async_recv_from_et_shorter:
  "async_recv_from_et s buf sz rs = (Returned (results, buf'), rest, tr) \<Longrightarrow> length rest < length rs"
  by (drule async_recv_from_et_used) (auto simp: answers_def)

section \<open>The level-triggered server\<close>

text \<open>
  What is served are the replies that \<open>async_send_to\<close> handed to the kernel: the bytes and the
  endpoint they go to. The result also has the turns that are left.
\<close>

type_synonym reply = "bytes \<times> udp_endpoint"

function udp_echo_loop :: "udp_socket \<Rightarrow> (bytes \<Rightarrow> exn + bytes) \<Rightarrow> bytes
    \<Rightarrow> datagram turn list \<Rightarrow> nat turn list \<Rightarrow> reply serve_result" where
  "udp_echo_loop s submit buf rs ws =
     (case async_recv_from s buf 4096 rs of (o1, rs', _) \<Rightarrow>
       (case o1 of
          Pending \<Rightarrow> (Pending, [], False, [])
        | Threw e \<Rightarrow> serve_failed e
        | Returned (r, buf') \<Rightarrow>
            (case submit (take (res_size r) buf') of
               Inl e \<Rightarrow> serve_failed e
             | Inr output \<Rightarrow>
                 (case async_send_to s (length output) ws of (o2, ws', _) \<Rightarrow>
                   (case o2 of
                      Pending \<Rightarrow> (Pending, [], False, [])
                    | Threw e \<Rightarrow> serve_failed e
                    | Returned _ \<Rightarrow>
                        spawned [(output, res_endpoint r)] (udp_echo_loop s submit buf' rs' ws'))))))"
  by pat_completeness auto
termination
  by (relation "measure (\<lambda>(s, submit, buf, rs, ws). length rs)") (auto dest: async_recv_from_shorter [OF sym])

declare udp_echo_loop.simps [simp del]

text \<open>The reply that an echo server owes for a datagram: what fits into its buffer.\<close>

definition echo_reply :: "datagram \<Rightarrow> reply" where
  "echo_reply d = (take 4096 (fst d), snd d)"

lemma echo_loop_step:
  assumes "async_recv_from s buf 4096 rs = (Returned (r, buf'), rs', tr)"
    and "udp_echo_loop s running_pool buf rs ws = (out, log, stp, replies)"
  shows "(replies = [] \<and> (out = Returned () \<longleftrightarrow> stp) \<and> (stp \<longrightarrow> length log = 1))
    \<or> (\<exists>ws' rest. replies = (take (res_size r) buf', res_endpoint r) # rest
         \<and> udp_echo_loop s running_pool buf' rs' ws' = (out, log, stp, rest))"
proof -
  obtain o2 ws2 tr2 where "async_send_to s (length (take (res_size r) buf')) ws = (o2, ws2, tr2)"
    by (metis surj_pair)
  with assms show ?thesis
    by (cases o2; cases "udp_echo_loop s running_pool buf' rs' ws2")
      (auto simp: udp_echo_loop.simps [of s running_pool buf rs ws] running_pool_def process_payload_def serve_failed_def caught_def simp del: length_take
        split: if_splits)
qed



section \<open>The edge-triggered server\<close>

text \<open>
  The loop takes a batch and spawns one \<open>handle_datagram\<close> for each result, with as many bytes
  of the buffer as the result says. \<open>loop.spawn\<close> runs a handler later: what is served are the
  inputs and endpoints of the handlers, in order. The handler returns the reply that went out.
\<close>

definition handle_datagram :: "udp_socket \<Rightarrow> (bytes \<Rightarrow> exn + bytes) \<Rightarrow> bytes \<Rightarrow> udp_endpoint
    \<Rightarrow> nat turn list \<Rightarrow> reply outcome" where
  "handle_datagram s submit input endpoint ws = (case submit input of
      Inl e \<Rightarrow> Threw e
    | Inr output \<Rightarrow>
        (case async_send_to s (length output) ws of (out, _, _) \<Rightarrow>
           map_outcome (\<lambda>_. (output, endpoint)) out))"

function udp_echo_loop_et :: "udp_socket \<Rightarrow> bytes \<Rightarrow> datagram turn list \<Rightarrow> (bytes \<times> udp_endpoint) serve_result" where
  "udp_echo_loop_et s buf rs =
     (case async_recv_from_et s buf 4096 rs of (out, rs', _) \<Rightarrow>
       (case out of
          Pending \<Rightarrow> (Pending, [], False, [])
        | Threw e \<Rightarrow> serve_failed e
        | Returned (results, buf') \<Rightarrow>
            spawned (map (\<lambda>r. (take (res_size r) buf', res_endpoint r)) results) (udp_echo_loop_et s buf' rs')))"
  by pat_completeness auto
termination
  by (relation "measure (\<lambda>(s, buf, rs). length rs)") (auto dest: async_recv_from_et_shorter [OF sym])

declare udp_echo_loop_et.simps [simp del]

lemma handle_datagram_replies:
  "handle_datagram s running_pool input endpoint ws = Returned reply \<Longrightarrow> reply = (input, endpoint)"
  by (auto simp: handle_datagram_def running_pool_def process_payload_def split: prod.splits)

lemma length_fold_store: "length buf \<le> length (fold (\<lambda>d b. recv_store sz b d) ds buf)"
proof (induction ds arbitrary: buf)
  case (Cons d ds)
  have "length buf \<le> length (recv_store sz buf d)" by (simp add: recv_store_def poke_def)
  also have "\<dots> \<le> length (fold (\<lambda>d b. recv_store sz b d) ds (recv_store sz buf d))" by (rule Cons.IH)
  finally show ?case by simp
qed simp

lemma stored_sizes_fit:
  "d \<in> set ds \<Longrightarrow> length (take sz (fst d)) \<le> length (fold (\<lambda>d b. recv_store sz b d) ds buf)"
proof (induction ds arbitrary: buf)
  case (Cons c ds)
  have "length (take sz (fst c)) \<le> length (recv_store sz buf c)" by (simp add: recv_store_def poke_def)
  also have "\<dots> \<le> length (fold (\<lambda>d b. recv_store sz b d) ds (recv_store sz buf c))" by (rule length_fold_store)
  finally show ?case using Cons by auto
qed simp

text \<open>What the loop does with one batch, and how it ends.\<close>

lemma echo_et_step:
  assumes "udp_echo_loop_et s buf rs = (out, log, stp, handlers)"
  shows "(handlers = [] \<and> (out = Returned () \<longleftrightarrow> stp) \<and> (stp \<longrightarrow> length log = 1))
    \<or> (\<exists>used rest later. rs = used @ rest \<and> answers used \<noteq> []
         \<and> (let buf' = fold (\<lambda>d b. recv_store 4096 b d) (answers used) buf in
            handlers = map (\<lambda>d. (take (length (take 4096 (fst d))) buf', snd d)) (answers used) @ later
            \<and> udp_echo_loop_et s buf' rest = (out, log, stp, later)))"
proof -
  obtain o1 rs' tr where recv: "async_recv_from_et s buf 4096 rs = (o1, rs', tr)" by (metis surj_pair)
  show ?thesis
  proof (cases o1)
    case (Returned p)
    then obtain results buf' where p: "async_recv_from_et s buf 4096 rs = (Returned (results, buf'), rs', tr)"
      using recv by (cases p) auto
    from async_recv_from_et_used [OF p] obtain used where
      u: "rs = used @ rs'" "answers used \<noteq> []" "results = map (recv_result 4096) (answers used)"
         "buf' = fold (\<lambda>d b. recv_store 4096 b d) (answers used) buf" by blast
    obtain later where l: "udp_echo_loop_et s buf' rs' = (out, log, stp, later)"
      "handlers = map (\<lambda>r. (take (res_size r) buf', res_endpoint r)) results @ later"
      using assms p by (cases "udp_echo_loop_et s buf' rs'") (auto simp: udp_echo_loop_et.simps [of s buf rs])
    show ?thesis using u l
      by (intro disjI2 exI [of _ used] exI [of _ rs'] exI [of _ later]) (simp add: Let_def comp_def recv_result_def)
  qed (use assms recv in \<open>auto simp: udp_echo_loop_et.simps [of s buf rs] serve_failed_def caught_def
      split: if_splits\<close>)
qed

text \<open>
  The edge-triggered UDP echo server handles every datagram once: the handlers are, in
  order, one for each datagram that came in, with the number of bytes of that datagram (as
  many as fit the buffer) and its sender, and each replies with its input to its endpoint. The
  bytes themselves are the subject of \<open>udp_echo_et_mixes_up\<close>.
\<close>

theorem udp_echo_et_handles_all:
  assumes "udp_echo_loop_et s buf rs = (out, log, stp, handlers)"
  shows "prefix (map (\<lambda>(input, ep). (length input, ep)) handlers)
           (map (\<lambda>d. (min 4096 (length (fst d)), snd d)) (answers rs))
    \<and> (out = Returned () \<longleftrightarrow> stp) \<and> (stp \<longrightarrow> length log = 1)
    \<and> (\<forall>(input, ep) \<in> set handlers. \<forall>ws reply.
         handle_datagram s running_pool input ep ws = Returned reply \<longrightarrow> reply = (input, ep))"
proof -
  have "prefix (map (\<lambda>(input, ep). (length input, ep)) handlers)
           (map (\<lambda>d. (min 4096 (length (fst d)), snd d)) (answers rs))
    \<and> (out = Returned () \<longleftrightarrow> stp) \<and> (stp \<longrightarrow> length log = 1)"
    using assms
  proof (induction "length rs" arbitrary: buf rs handlers rule: less_induct)
    case less
    show ?case using echo_et_step [OF less(2)]
    proof (elim disjE exE conjE)
      fix used rest later
      let ?buf = "fold (\<lambda>d b. recv_store 4096 b d) (answers used) buf"
      assume u: "rs = used @ rest" "answers used \<noteq> []"
        and "let buf' = ?buf in
            handlers = map (\<lambda>d. (take (length (take 4096 (fst d))) buf', snd d)) (answers used) @ later
            \<and> udp_echo_loop_et s buf' rest = (out, log, stp, later)"
      then have h: "handlers = map (\<lambda>d. (take (length (take 4096 (fst d))) ?buf, snd d)) (answers used) @ later"
        and go: "udp_echo_loop_et s ?buf rest = (out, log, stp, later)" by (simp_all only: Let_def)
      have "length rest < length rs" using u by (auto simp: answers_def)
      note IH = less(1) [OF this go]
      have "min (length ?buf) (min 4096 (length (fst d))) = min 4096 (length (fst d))"
        if "d \<in> set (answers used)" for d
        using stored_sizes_fit [OF that, of 4096 buf] by simp
      then have eq: "map (\<lambda>(input, ep). (length input, ep)) (map (\<lambda>d. (take (length (take 4096 (fst d))) ?buf, snd d)) (answers used))
          = map (\<lambda>d. (min 4096 (length (fst d)), snd d)) (answers used)"
        by (auto simp: ac_simps)
      show ?thesis using IH unfolding h u(1) answers_simps map_append eq same_prefix_prefix .
    qed simp
  qed
  then show ?thesis using handle_datagram_replies by blast
qed

theorem udp_echo_et_handles_all_witness:
  "prefix [(1 :: nat, endpoint_default)]
     (map (\<lambda>d. (min 4096 (length (fst d)), snd d))
       (answers [\<lparr>ret = Inr (''a'', endpoint_default), wake = None\<rparr>, \<lparr>ret = Inl EAGAIN, wake = None\<rparr>]))"
proof -
  let ?rs = "[\<lparr>ret = Inr (''a'', endpoint_default), wake = None\<rparr>, \<lparr>ret = Inl EAGAIN, wake = None\<rparr>]"
  have "udp_echo_loop_et \<lparr>udp_loop = Some 0, udp_fd = 5\<rparr> [] ?rs = (Pending, [], False, [(''a'', endpoint_default)])"
    by (simp add: udp_echo_loop_et.simps async_recv_from_et_def udp_ensure_valid_def recv_result_def
        recv_store_def poke_def)
  from udp_echo_et_handles_all [OF this] show ?thesis by simp
qed



end
