(* ===== verification/Cli_Args.thy ===== *)
theory Cli_Args
  imports Coro_Prelude
begin

text \<open>
  The command lines of the examples: \<open>parse_port\<close>, \<open>parse_worker_count\<close>,
  \<open>parse_business_worker_count\<close> of the servers and their variants in the proxy. All are
  built on \<open>std::from_chars\<close> of the standard library for an unsigned type, which is modelled
  first; and on \<open>std::to_string\<close> for the way back.
\<close>

section \<open>Decimal numerals\<close>

definition is_digit :: "char \<Rightarrow> bool" where
  "is_digit c \<longleftrightarrow> 48 \<le> (of_char c :: nat) \<and> (of_char c :: nat) \<le> 57"

definition digit_value :: "char \<Rightarrow> nat" where
  "digit_value c = of_char c - 48"

definition dec_value :: "bytes \<Rightarrow> nat" where
  "dec_value s = foldl (\<lambda>n c. 10 * n + digit_value c) 0 s"

definition digit_char :: "nat \<Rightarrow> char" where
  "digit_char d = char_of (48 + d)"

text \<open>\<open>std::to_string\<close> of a number that is not negative.\<close>

fun to_dec :: "nat \<Rightarrow> bytes" where
  "to_dec n = (if n < 10 then [digit_char n] else to_dec (n div 10) @ [digit_char (n mod 10)])"

declare to_dec.simps [simp del]

lemma digit_char_simps [simp]:
  "d < 10 \<Longrightarrow> is_digit (digit_char d)" "d < 10 \<Longrightarrow> digit_value (digit_char d) = d"
  by (simp_all add: is_digit_def digit_char_def digit_value_def)

lemma dec_value_snoc [simp]: "dec_value (s @ [c]) = 10 * dec_value s + digit_value c"
  by (simp add: dec_value_def)

lemma dec_value_single [simp]: "dec_value [] = 0" "dec_value [c] = digit_value c"
  by (simp_all add: dec_value_def)

lemma to_dec_digits [simp]: "list_all is_digit (to_dec n)" "to_dec n \<noteq> []"
  by (induction n rule: to_dec.induct) (subst to_dec.simps; simp)+

lemma dec_value_to_dec [simp]: "dec_value (to_dec n) = n"
proof (induction n rule: to_dec.induct)
  case (1 n)
  then show ?case by (subst to_dec.simps) simp
qed

text \<open>A text is a numeral for a value; leading zeros are allowed, a sign and blanks are not.\<close>

definition numeral_of :: "bytes \<Rightarrow> nat \<Rightarrow> bool" where
  "numeral_of s v \<longleftrightarrow> s \<noteq> [] \<and> list_all is_digit s \<and> dec_value s = v"

lemma numeral_to_dec [simp]: "numeral_of (to_dec n) n"
  by (simp add: numeral_of_def)

section \<open>\<open>std::from_chars\<close>\<close>

text \<open>
  Base 10, for an unsigned type with \<open>limit\<close> values: the longest prefix of digits is read.
  \<open>Fc_ok v p\<close> is success with \<open>ptr\<close> behind \<open>p\<close> characters; \<open>Fc_range\<close> is
  \<open>errc::result_out_of_range\<close> and \<open>Fc_invalid\<close> is \<open>errc::invalid_argument\<close>.
\<close>

datatype from_chars_result = Fc_ok nat nat | Fc_range nat | Fc_invalid

definition from_chars :: "nat \<Rightarrow> bytes \<Rightarrow> from_chars_result" where
  "from_chars limit s =
     (let ds = takeWhile is_digit s
      in if ds = [] then Fc_invalid
         else if limit \<le> dec_value ds then Fc_range (length ds)
         else Fc_ok (dec_value ds) (length ds))"

lemma takeWhile_whole: "length (takeWhile P s) = length s \<longleftrightarrow> list_all P s"
  by (induction s) auto

lemma takeWhile_all: "list_all P s \<Longrightarrow> takeWhile P s = s"
  by (induction s) auto

lemma from_chars_whole:
  "from_chars limit s = Fc_ok v (length s) \<longleftrightarrow> numeral_of s v \<and> v < limit"
proof
  assume f: "from_chars limit s = Fc_ok v (length s)"
  then have "length (takeWhile is_digit s) = length s"
    by (auto simp: from_chars_def Let_def split: if_splits)
  then have "list_all is_digit s" by (simp only: takeWhile_whole)
  with f show "numeral_of s v \<and> v < limit"
    by (auto simp: from_chars_def Let_def numeral_of_def takeWhile_all split: if_splits)
next
  assume "numeral_of s v \<and> v < limit"
  then show "from_chars limit s = Fc_ok v (length s)"
    by (auto simp: from_chars_def Let_def numeral_of_def takeWhile_all)
qed

section \<open>Arguments\<close>

text \<open>
  \<open>argv\<close> is a list; \<open>argc\<close> is its length. Ports are read into a \<open>uint32_t\<close>, counts into a
  \<open>size_t\<close> of 64 bits.
\<close>

definition parse_port_text :: "string \<Rightarrow> bytes \<Rightarrow> exn + 16 word" where
  "parse_port_text message value =
     (case from_chars (2 ^ 32) value of
        Fc_ok port ptr \<Rightarrow>
          (if ptr \<noteq> length value \<or> port = 0 \<or> port > 65535 then Inl (Runtime_error message)
           else Inr (of_nat port))
      | _ \<Rightarrow> Inl (Runtime_error message))"

definition parse_count_text :: "string \<Rightarrow> bytes \<Rightarrow> exn + nat" where
  "parse_count_text message value =
     (case from_chars (2 ^ 64) value of
        Fc_ok n ptr \<Rightarrow>
          (if ptr \<noteq> length value \<or> n = 0 then Inl (Runtime_error message) else Inr n)
      | _ \<Rightarrow> Inl (Runtime_error message))"

definition parse_port :: "16 word \<Rightarrow> bytes list \<Rightarrow> exn + 16 word" where
  "parse_port dflt argv =
     (if length argv < 2 then Inr dflt
      else parse_port_text ''port must be an integer between 1 and 65535'' (argv ! 1))"

text \<open>\<open>position\<close> is 2 in the servers and 4 in the proxy.\<close>

definition parse_worker_count :: "nat \<Rightarrow> nat \<Rightarrow> bytes list \<Rightarrow> exn + nat" where
  "parse_worker_count position hardware_workers argv =
     (if length argv < Suc position then Inr (if hardware_workers = 0 then 4 else hardware_workers)
      else parse_count_text ''worker count must be a positive integer'' (argv ! position))"

definition parse_business_worker_count :: "bytes list \<Rightarrow> nat \<Rightarrow> exn + nat" where
  "parse_business_worker_count argv dflt =
     (if length argv < 4 then Inr dflt
      else parse_count_text ''business worker count must be a positive integer'' (argv ! 3))"

text \<open>The first error is the one that \<open>main\<close> reports.\<close>

definition and_then :: "exn + 'a \<Rightarrow> ('a \<Rightarrow> exn + 'b) \<Rightarrow> exn + 'b" where
  "and_then r k = (case r of Inl e \<Rightarrow> Inl e | Inr x \<Rightarrow> k x)"

lemma and_then_Inr [simp]: "and_then r k = Inr y \<longleftrightarrow> (\<exists>x. r = Inr x \<and> k x = Inr y)"
  by (auto simp: and_then_def split: sum.split)

definition pool_server_args :: "16 word \<Rightarrow> nat \<Rightarrow> bytes list \<Rightarrow> exn + 16 word \<times> nat \<times> nat" where
  "pool_server_args default_port hw argv =
     and_then (parse_port default_port argv) (\<lambda>port.
       and_then (parse_worker_count 2 hw argv) (\<lambda>workers.
         and_then (parse_business_worker_count argv workers) (\<lambda>business.
           Inr (port, workers, business))))"

definition tcp_echo_args where "tcp_echo_args = pool_server_args 8888"
definition tcp_echo_et_args where "tcp_echo_et_args = pool_server_args 8888"
definition udp_echo_args where "udp_echo_args = pool_server_args 8080"
definition udp_echo_et_args where "udp_echo_et_args = pool_server_args 8080"

definition http_args :: "nat \<Rightarrow> bytes list \<Rightarrow> exn + 16 word \<times> nat" where
  "http_args hw argv =
     and_then (parse_port 8080 argv) (\<lambda>port.
       and_then (parse_worker_count 2 hw argv) (\<lambda>workers. Inr (port, workers)))"

definition proxy_usage :: string where
  "proxy_usage = ''usage: proxy_server <listen_port> <backend_host> <backend_port> [worker_count]''"

definition parse_listen_port :: "bytes list \<Rightarrow> exn + 16 word" where
  "parse_listen_port argv =
     (if length argv < 2 then Inl (Runtime_error proxy_usage)
      else parse_port_text ''listen port must be an integer between 1 and 65535'' (argv ! 1))"

definition parse_backend_host :: "bytes list \<Rightarrow> exn + bytes" where
  "parse_backend_host argv =
     (if length argv < 3 then Inl (Runtime_error proxy_usage) else Inr (argv ! 2))"

definition parse_backend_port :: "bytes list \<Rightarrow> exn + 16 word" where
  "parse_backend_port argv =
     (if length argv < 4 then Inl (Runtime_error proxy_usage)
      else parse_port_text ''backend port must be an integer between 1 and 65535'' (argv ! 3))"

definition proxy_args :: "nat \<Rightarrow> bytes list \<Rightarrow> exn + 16 word \<times> bytes \<times> 16 word \<times> nat" where
  "proxy_args hw argv =
     and_then (parse_listen_port argv) (\<lambda>listen_port.
       and_then (parse_backend_host argv) (\<lambda>host.
         and_then (parse_backend_port argv) (\<lambda>backend_port.
           and_then (parse_worker_count 4 hw argv) (\<lambda>workers.
             Inr (listen_port, host, backend_port, workers)))))"

section \<open>Properties\<close>

lemma parse_port_text_Inr:
  "parse_port_text msg s = Inr p \<longleftrightarrow> (\<exists>v. numeral_of s v \<and> 1 \<le> v \<and> v \<le> 65535 \<and> p = of_nat v)"
proof -
  have "parse_port_text msg s = Inr p \<longleftrightarrow>
      (\<exists>v. from_chars (2 ^ 32) s = Fc_ok v (length s) \<and> 1 \<le> v \<and> v \<le> 65535 \<and> p = of_nat v)"
    by (auto simp: parse_port_text_def split: from_chars_result.split if_splits)
  then show ?thesis by (auto simp: from_chars_whole)
qed

lemma parse_count_text_Inr:
  "parse_count_text msg s = Inr n \<longleftrightarrow> numeral_of s n \<and> 1 \<le> n \<and> n < 2 ^ 64"
proof -
  have "parse_count_text msg s = Inr n \<longleftrightarrow> from_chars (2 ^ 64) s = Fc_ok n (length s) \<and> 1 \<le> n"
    by (auto simp: parse_count_text_def split: from_chars_result.split if_splits)
  then show ?thesis by (auto simp: from_chars_whole)
qed

lemma parse_text_total:
  "(\<exists>x. parse_port_text msg s = Inr x) \<or> parse_port_text msg s = Inl (Runtime_error msg)"
  "(\<exists>x. parse_count_text msg s = Inr x) \<or> parse_count_text msg s = Inl (Runtime_error msg)"
  by (auto simp: parse_port_text_def parse_count_text_def split: from_chars_result.split)


text \<open>
  Printing and parsing arguments. A port and counts printed in decimal are read back as
  they were, by the servers and by the proxy.
\<close>

theorem args_roundtrip:
  assumes "port \<noteq> 0" and "backend \<noteq> 0" and "1 \<le> workers" and "workers < 2 ^ 64"
  shows "tcp_echo_args hw [name, to_dec (unat port), to_dec workers, to_dec workers] = Inr (port, workers, workers)
    \<and> http_args hw [name, to_dec (unat port), to_dec workers] = Inr (port, workers)
    \<and> proxy_args hw [name, to_dec (unat port), host, to_dec (unat backend), to_dec workers] =
        Inr (port, host, backend, workers)"
proof -
  have port: "parse_port_text msg (to_dec (unat p)) = Inr p" if "p \<noteq> 0" for p :: "16 word" and msg
  proof -
    have "unat p < 2 ^ 16" using unsigned_less [of p] by simp
    moreover have "unat p \<noteq> 0" using that by (simp add: unat_eq_0)
    ultimately have "1 \<le> unat p" "unat p \<le> 65535" by simp_all
    then show ?thesis unfolding parse_port_text_Inr by (intro exI [of _ "unat p"]) simp
  qed
  have count: "parse_count_text msg (to_dec workers) = Inr workers" for msg
    using assms(3,4) by (simp add: parse_count_text_Inr)
  show ?thesis
    by (simp add: tcp_echo_args_def pool_server_args_def http_args_def proxy_args_def parse_port_def
        parse_worker_count_def parse_business_worker_count_def parse_listen_port_def parse_backend_host_def
        parse_backend_port_def port assms(1,2) count)
qed

theorem args_roundtrip_witness:
  "tcp_echo_args 0 [''server'', to_dec 8888, to_dec 4, to_dec 4] = Inr (8888, 4, 4)"
proof -
  have p: "(8888 :: 16 word) \<noteq> 0" "(80 :: 16 word) \<noteq> 0" "1 \<le> (4 :: nat)" "(4 :: nat) < 2 ^ 64" by simp_all
  from args_roundtrip [OF p, of 0 "''server''"] show ?thesis by simp
qed

end
