(* ===== verification/Http_Server.thy ===== *)
theory Http_Server
  imports Echo_Servers Cli_Args
begin

text \<open>
  \<open>examples/http-server/main.cpp\<close>: reading a request from a socket, the route handler, the
  printed response, the session of a client and the accept loop; the command line is in
  \<open>Cli_Args\<close>.

  The static files are read once at the start, from a file system that is a parameter, and not
  changed; they are the record \<open>site\<close>. An
  \<open>unordered_map\<close> that is only stored into is a map. What goes to standard output is left out.
\<close>

section \<open>Requests and responses\<close>

abbreviation CR :: char where "CR \<equiv> CHR 0x0D"
abbreviation LF :: char where "LF \<equiv> CHR 0x0A"
abbreviation HT :: char where "HT \<equiv> CHR 0x09"

record http_request =
  req_method :: bytes
  req_path :: bytes
  req_version :: bytes
  req_headers :: "bytes \<rightharpoonup> bytes"

definition empty_request :: http_request where
  "empty_request = \<lparr>req_method = [], req_path = [], req_version = [], req_headers = Map.empty\<rparr>"

text \<open>The further headers of a response, in the order in which the map iterates them.\<close>

record http_response =
  status :: nat
  status_text :: bytes
  content_type :: bytes
  resp_body :: bytes
  resp_headers :: "(bytes \<times> bytes) list"

definition response_default :: http_response where
  "response_default =
     \<lparr>status = 200, status_text = ''OK'', content_type = ''text/plain'', resp_body = [], resp_headers = []\<rparr>"

definition header_text :: "bytes \<times> bytes \<Rightarrow> bytes" where
  "header_text h = fst h @ '': '' @ snd h @ [CR, LF]"

definition response_to_string :: "http_response \<Rightarrow> bytes" where
  "response_to_string r =
     ''HTTP/1.1 '' @ to_dec (status r) @ '' '' @ status_text r @ [CR, LF]
     @ ''Content-Type: '' @ content_type r @ [CR, LF]
     @ ''Content-Length: '' @ to_dec (length (resp_body r)) @ [CR, LF]
     @ ''Connection: keep-alive'' @ [CR, LF]
     @ concat (map header_text (resp_headers r))
     @ [CR, LF] @ resp_body r"

section \<open>Reading lines\<close>

text \<open>One byte at a time; at the end of the stream the line is what has been read so far.\<close>

function read_line_loop :: "tcp_socket \<Rightarrow> bytes \<Rightarrow> bytes \<Rightarrow> bytes turn list \<Rightarrow> bytes outcome \<times> bytes turn list" where
  "read_line_loop s ch line rs = (case async_read s ch 1 rs of (out, rs', _) \<Rightarrow>
     (case out of
        Pending \<Rightarrow> (Pending, rs')
      | Threw e \<Rightarrow> (Threw e, rs')
      | Returned (cnt, ch') \<Rightarrow>
          (if cnt = 0 then (Returned line, rs')
           else let line' = line @ [ch' ! 0]; n = length line' in
             if 2 \<le> n \<and> line' ! (n - 2) = CR \<and> line' ! (n - 1) = LF
             then (Returned (take (n - 2) line'), rs')
             else read_line_loop s ch' line' rs')))"
  by pat_completeness auto
termination
  by (relation "measure (\<lambda>(s, ch, line, rs). length rs)") (auto dest: read_shorter [OF sym])

declare read_line_loop.simps [simp del]

definition read_line :: "tcp_socket \<Rightarrow> bytes turn list \<Rightarrow> bytes outcome \<times> bytes turn list" where
  "read_line s rs = read_line_loop s [CHR 0x00] [] rs"

lemma read_line_loop_shorter:
  "read_line_loop s ch line rs = (Returned l, rest) \<Longrightarrow> length rest < length rs"
proof (induction "length rs" arbitrary: ch line rs rule: less_induct)
  case less
  obtain out rs' tr where r: "async_read s ch 1 rs = (out, rs', tr)" by (metis surj_pair)
  then obtain cnt ch' where o: "out = Returned (cnt, ch')"
    using less(2) by (cases out) (auto simp: read_line_loop.simps [of s ch line rs])
  then have short: "length rs' < length rs" using r read_shorter(1) by blast
  show ?case
    using less(2) short
    by (auto simp: read_line_loop.simps [of s ch line rs] r o Let_def simp del: One_nat_def
        dest!: less(1) [OF short] split: if_splits)
qed

lemma read_line_shorter: "read_line s rs = (Returned l, rest) \<Longrightarrow> length rest < length rs"
  by (simp add: read_line_def read_line_loop_shorter)

section \<open>Parsing a request\<close>

text \<open>
  \<open>std::string::find\<close> from a position, \<open>find_first_not_of(" \t")\<close> and \<open>substr\<close>, whose position
  is never behind the end here.
\<close>

definition find_char :: "char \<Rightarrow> bytes \<Rightarrow> nat \<Rightarrow> nat option" where
  "find_char c s pos = (let i = pos + length (takeWhile (\<lambda>x. x \<noteq> c) (drop pos s)) in
     if i < length s then Some i else None)"

definition first_not_blank :: "bytes \<Rightarrow> nat option" where
  "first_not_blank s = (let i = length (takeWhile (\<lambda>x. x = CHR '' '' \<or> x = HT) s) in
     if i < length s then Some i else None)"

definition parse_request_line :: "bytes \<Rightarrow> exn + bytes \<times> bytes \<times> bytes" where
  "parse_request_line l = (case find_char CHR '' '' l 0 of
      None \<Rightarrow> Inl (Runtime_error ''malformed request line'')
    | Some sp1 \<Rightarrow>
        let pos = sp1 + 1 in
        (case find_char CHR '' '' l pos of
           None \<Rightarrow> Inr (take sp1 l, drop pos l, ''HTTP/1.0'')
         | Some sp2 \<Rightarrow> Inr (take sp1 l, take (sp2 - pos) (drop pos l), drop (sp2 + 1) l)))"

text \<open>\<open>::tolower\<close> in the C locale.\<close>

definition lower :: "char \<Rightarrow> char" where
  "lower c = (let n = of_char c :: nat in if 65 \<le> n \<and> n \<le> 90 then char_of (n + 32) else c)"

lemma lower_letters [simp]:
  "lower CHR ''H'' = CHR ''h''" "lower CHR ''C'' = CHR ''c''" "lower CHR ''L'' = CHR ''l''"
  "lower CHR ''-'' = CHR ''-''" "97 \<le> (of_char c :: nat) \<Longrightarrow> lower c = c"
  by (simp_all add: lower_def char_of_def Let_def bit_Suc_0_iff)

definition store_header :: "bytes \<Rightarrow> (bytes \<rightharpoonup> bytes) \<Rightarrow> (bytes \<rightharpoonup> bytes)" where
  "store_header l hs = (case find_char CHR '':'' l 0 of
      None \<Rightarrow> hs
    | Some colon \<Rightarrow>
        let key = take colon l; val = drop (colon + 1) l;
            trimmed = (case first_not_blank val of Some start \<Rightarrow> drop start val | None \<Rightarrow> val)
        in hs(map lower key \<mapsto> trimmed))"

function parse_headers ::
    "tcp_socket \<Rightarrow> (bytes \<rightharpoonup> bytes) \<Rightarrow> bytes turn list \<Rightarrow> (bytes \<rightharpoonup> bytes) outcome \<times> bytes turn list" where
  "parse_headers s hs rs = (case read_line s rs of (out, rs') \<Rightarrow>
     (case out of
        Pending \<Rightarrow> (Pending, rs')
      | Threw e \<Rightarrow> (Threw e, rs')
      | Returned line \<Rightarrow>
          (if line = [] then (Returned hs, rs') else parse_headers s (store_header line hs) rs')))"
  by pat_completeness auto
termination
  by (relation "measure (\<lambda>(s, hs, rs). length rs)") (auto dest: read_line_shorter [OF sym])

declare parse_headers.simps [simp del]

definition parse_request :: "tcp_socket \<Rightarrow> bytes turn list \<Rightarrow> http_request outcome \<times> bytes turn list" where
  "parse_request s rs = (case read_line s rs of (out, rs') \<Rightarrow>
     (case out of
        Pending \<Rightarrow> (Pending, rs')
      | Threw e \<Rightarrow> (Threw e, rs')
      | Returned line \<Rightarrow>
          (if line = [] then (Returned empty_request, rs')
           else (case parse_request_line line of
               Inl e \<Rightarrow> (Threw e, rs')
             | Inr (meth, path, version) \<Rightarrow>
                 (case parse_headers s Map.empty rs' of (out', rs'') \<Rightarrow>
                   (map_outcome (\<lambda>hs. \<lparr>req_method = meth, req_path = path, req_version = version,
                      req_headers = hs\<rparr>) out', rs''))))))"

lemma parse_headers_shorter:
  "parse_headers s hs rs = (Returned hs', rest) \<Longrightarrow> length rest < length rs"
proof (induction "length rs" arbitrary: hs rs rule: less_induct)
  case less
  obtain out rs' where r: "read_line s rs = (out, rs')" by (metis surj_pair)
  then obtain l where o: "out = Returned l"
    using less(2) by (cases out) (auto simp: parse_headers.simps [of s hs rs])
  then have short: "length rs' < length rs" using r read_line_shorter by blast
  show ?case
    using less(2) short
    by (auto simp: parse_headers.simps [of s hs rs] r o dest!: less(1) [OF short] split: if_splits)
qed

lemma parse_request_shorter:
  "parse_request s rs = (Returned r, rest) \<Longrightarrow> length rest < length rs"
  by (auto simp: parse_request_def dest!: read_line_shorter parse_headers_shorter
      split: prod.splits outcome.splits if_splits sum.splits)

section \<open>Routes and sessions\<close>

record site =
  index_html :: bytes
  status_json :: bytes

text \<open>
  A file system gives the contents of the files that can be opened. \<open>load_static_files\<close> stores
  into two globals; it throws at the first file that cannot be opened.
\<close>

definition read_file :: "(bytes \<Rightarrow> bytes option) \<Rightarrow> bytes \<Rightarrow> exn + bytes" where
  "read_file fs path = (case fs path of
      None \<Rightarrow> Inl (Runtime_error (''cannot open: '' @ path))
    | Some contents \<Rightarrow> Inr contents)"

definition load_static_files :: "(bytes \<Rightarrow> bytes option) \<Rightarrow> exn + site" where
  "load_static_files fs =
     and_then (read_file fs ''../examples/http-server/static/index.html'') (\<lambda>index.
       and_then (read_file fs ''../examples/http-server/static/status.json'') (\<lambda>status.
         Inr \<lparr>index_html = index, status_json = status\<rparr>))"

definition handle_route :: "site \<Rightarrow> http_request \<Rightarrow> http_response" where
  "handle_route files request =
     (if req_method request \<noteq> ''GET'' then
        response_default\<lparr>status := 405, status_text := ''Method Not Allowed'', content_type := ''text/plain'',
          resp_body := ''405 Method Not Allowed'' @ [LF]\<rparr>
      else if req_path request = ''/'' then
        response_default\<lparr>status := 200, status_text := ''OK'', content_type := ''text/html; charset=utf-8'',
          resp_body := index_html files\<rparr>
      else if req_path request = ''/hello'' then
        response_default\<lparr>status := 200, status_text := ''OK'', content_type := ''text/plain; charset=utf-8'',
          resp_body := ''Hello, World!'' @ [LF]\<rparr>
      else if req_path request = ''/json'' then
        response_default\<lparr>status := 200, status_text := ''OK'', content_type := ''application/json'',
          resp_body := status_json files\<rparr>
      else
        response_default\<lparr>status := 404, status_text := ''Not Found'', content_type := ''text/plain; charset=utf-8'',
          resp_body := ''404 Not Found'' @ [LF]\<rparr>)"

function http_handle_client :: "site \<Rightarrow> tcp_socket \<Rightarrow> bytes turn list \<Rightarrow> nat turn list \<Rightarrow> pump_result" where
  "http_handle_client files s rs ws =
     (case parse_request s rs of (o1, rs') \<Rightarrow>
       (case o1 of
          Pending \<Rightarrow> (Pending, [], [], rs', ws)
        | Threw e \<Rightarrow> pump_failed e rs' ws
        | Returned request \<Rightarrow>
            (if req_method request = [] then (Returned (), [], [], rs', ws)
             else let raw = response_to_string (handle_route files request) in
               (case async_write s (length raw) ws of (o2, ws', tr) \<Rightarrow>
                  sent_before (wire raw tr (used_up ws ws'))
                    (case o2 of
                       Pending \<Rightarrow> (Pending, [], [], rs', ws')
                     | Threw e \<Rightarrow> pump_failed e rs' ws'
                     | Returned _ \<Rightarrow> http_handle_client files s rs' ws')))))"
  by pat_completeness auto
termination
  by (relation "measure (\<lambda>(files, s, rs, ws). length rs)") (auto dest: parse_request_shorter [OF sym])

declare http_handle_client.simps [simp del]

text \<open>The pages are the contents that the files had when they were read.\<close>

lemma pages_from_files:
  assumes "load_static_files fs = Inr files" and "req_method request = ''GET''"
  shows "req_path request = ''/'' \<Longrightarrow>
      fs ''../examples/http-server/static/index.html'' = Some (resp_body (handle_route files request))"
    and "req_path request = ''/json'' \<Longrightarrow>
      fs ''../examples/http-server/static/status.json'' = Some (resp_body (handle_route files request))"
  using assms by (auto simp: load_static_files_def read_file_def handle_route_def split: option.splits)

text \<open>The accept loop spawns a session for the socket of every connection.\<close>

function http_accept_and_handle :: "tcp_server \<Rightarrow> fd turn list \<Rightarrow> accept_result" where
  "http_accept_and_handle s ts = (case async_accept_fd s ts of (out, rest, _) \<Rightarrow>
     (case out of
        Pending \<Rightarrow> (Pending, [], False, [])
      | Threw e \<Rightarrow> serve_failed e
      | Returned client_fd \<Rightarrow>
          (case tcp_socket_new (serv_loop s) client_fd of
             Inl e \<Rightarrow> serve_failed e
           | Inr socket \<Rightarrow> spawned [socket] (http_accept_and_handle s rest))))"
  by pat_completeness auto
termination
  by (relation "measure (\<lambda>(s, ts). length ts)") (auto dest: async_accept_fd_shorter [OF sym])

declare http_accept_and_handle.simps [simp del]

lemma http_accepts_alike: "http_accept_and_handle s ts = accept_and_handle s ts"
  by (induction s ts rule: http_accept_and_handle.induct)
     (subst http_accept_and_handle.simps, subst accept_and_handle.simps,
      auto split: prod.splits outcome.splits sum.splits)

section \<open>Lines of a byte stream\<close>

text \<open>The reference: the text before the first \<open>CR LF\<close> and the text behind it.\<close>

fun split_line :: "bytes \<Rightarrow> (bytes \<times> bytes) option" where
  "split_line [] = None"
| "split_line [c] = None"
| "split_line (c # d # s) =
     (if c = CR \<and> d = LF then Some ([], s)
      else map_option (\<lambda>(l, r). (c # l, r)) (split_line (d # s)))"

lemma split_line_append: "split_line s = Some (l, r) \<Longrightarrow> split_line (s @ t) = Some (l, r @ t)"
  by (induction s arbitrary: l rule: split_line.induct) (auto split: if_splits)

lemma split_line_snoc:
  "split_line s = None \<Longrightarrow> split_line (s @ [c]) =
     (if s \<noteq> [] \<and> last s = CR \<and> c = LF then Some (butlast s, []) else None)"
  by (induction s rule: split_line.induct) (auto split: if_splits)

lemma split_line_text: "LF \<notin> set l \<Longrightarrow> split_line (l @ CR # LF # r) = Some (l, r)"
proof (induction l)
  case (Cons c l)
  then show ?case by (cases l) auto
qed simp

text \<open>
  A turn of a connection that lives: the call is retried or hands over one byte, as the kernel
  must when it is asked for one. An empty delivery is the end of the stream.
\<close>

definition live_turn :: "bytes turn \<Rightarrow> bool" where
  "live_turn t \<longleftrightarrow> retries t \<or> (\<exists>c. ret t = Inr [c])"

definition eof_turn :: "bytes turn \<Rightarrow> bool" where
  "eof_turn t \<longleftrightarrow> ret t = Inr []"

lemma eof_delivery [simp]: "eof_turn t \<Longrightarrow> delivery t = []"
  by (simp add: eof_turn_def delivery_def)

text \<open>A stream that comes in one byte after the other, with no retries.\<close>

definition byte_turns :: "bytes \<Rightarrow> bytes turn list" where
  "byte_turns bs = map (\<lambda>c. \<lparr>ret = Inr [c], wake = None\<rparr>) bs"

lemma byte_turns_simps [simp]: "list_all live_turn (byte_turns bs)" "received (byte_turns bs) = bs"
  by (induction bs) (simp_all add: byte_turns_def live_turn_def received_def delivery_def)

lemma accepted_valid [simp]: "0 \<le> c \<Longrightarrow> tcp_ensure_valid (accepted_socket loop c) = None"
  by (simp add: tcp_ensure_valid_def accepted_socket_def)

text \<open>One iteration of \<open>read_line\<close>, by the kind of its turn.\<close>

lemma read_line_retry:
  assumes "tcp_ensure_valid s = None" "retries t"
  shows "read_line_loop s ch line (t # ts) = read_line_loop s ch line ts"
proof -
  have "async_read s ch 1 (t # ts) = emit (turn_calls (Recv (sock_fd s) 1) (Await (sock_fd s) Readable False) t)
      (async_read s ch 1 ts)"
    using assms tcp_read.run_retry [of t "sock_fd s" 1 ch ts] by (simp add: async_read_def)
  then show ?thesis
    by (simp add: read_line_loop.simps [of s ch line] emit_def split: prod.split)
qed

lemma read_line_byte:
  assumes "tcp_ensure_valid s = None" "ret t = Inr [c]"
  shows "read_line_loop s ch line (t # ts) =
    (if line \<noteq> [] \<and> last line = CR \<and> c = LF then (Returned (butlast line), ts)
     else read_line_loop s (poke ch 0 [c]) (line @ [c]) ts)"
proof -
  have "read_line_loop s ch line (t # ts) = (let line' = line @ [c]; n = length line' in
      if 2 \<le> n \<and> line' ! (n - 2) = CR \<and> line' ! (n - 1) = LF then (Returned (take (n - 2) line'), ts)
      else read_line_loop s (poke ch 0 [c]) line' ts)"
    using assms by (auto simp: read_line_loop.simps [of s ch line "t # ts"] async_read_def poke_def Let_def)
  then show ?thesis by (cases line rule: rev_cases) (simp_all add: nth_append Let_def)
qed

lemma read_line_eof:
  assumes "tcp_ensure_valid s = None" "eof_turn t"
  shows "read_line_loop s ch line (t # ts) = (Returned line, ts)"
  using assms by (simp add: read_line_loop.simps [of s ch line] async_read_def eof_turn_def)

lemma read_line_suspended:
  "tcp_ensure_valid s = None \<Longrightarrow> read_line_loop s ch line [] = (Pending, [])"
  by (simp add: read_line_loop.simps [of s ch line] async_read_def)

lemma read_line_loop_splits:
  assumes "tcp_ensure_valid s = None" "list_all live_turn conn" "split_line line = None"
  shows "case split_line (line @ received conn) of
      Some (l, behind) \<Rightarrow> \<exists>used conn'. conn = used @ conn' \<and> received conn' = behind
         \<and> read_line_loop s ch line (conn @ rest) = (Returned l, conn' @ rest)
    | None \<Rightarrow> \<exists>ch'. read_line_loop s ch line (conn @ rest) =
         read_line_loop s ch' (line @ received conn) rest"
  using assms(2,3)
proof (induction conn arbitrary: ch line)
  case Nil
  then show ?case by (auto simp: received_def)
next
  case (Cons t conn)
  show ?case
  proof (cases "retries t")
    case True
    then have "received (t # conn) = received conn"
      by (auto simp: retries_def received_def delivery_def split: sum.splits)
    with Cons.IH [of line ch] Cons.prems True show ?thesis
      by (auto simp: read_line_retry [OF assms(1)] split: option.splits intro: exI [of _ "t # _"])
  next
    case False
    with Cons.prems obtain c where c: "ret t = Inr [c]" by (auto simp: live_turn_def)
    then have rec: "delivery t = [c]" by (simp add: delivery_def)
    show ?thesis
    proof (cases "line \<noteq> [] \<and> last line = CR \<and> c = LF")
      case True
      then have "split_line (line @ [c]) = Some (butlast line, [])"
        using split_line_snoc [OF Cons.prems(2), of c] by simp
      from split_line_append [OF this] have "split_line (line @ received (t # conn)) = Some (butlast line, received conn)"
        by (simp add: rec)
      with True show ?thesis
        by (auto simp: read_line_byte [OF assms(1) c] intro: exI [of _ "[t]"])
    next
      case no: False
      then have "split_line (line @ [c]) = None" using split_line_snoc [OF Cons.prems(2), of c] by auto
      with Cons.IH [of "line @ [c]" "poke ch 0 [c]"] Cons.prems no show ?thesis
        by (auto simp: read_line_byte [OF assms(1) c] rec split: option.splits intro: exI [of _ "t # _"])
    qed
  qed
qed

text \<open>The reader as a whole, against the reference.\<close>

lemma read_line_splits:
  assumes "tcp_ensure_valid s = None" and "list_all live_turn conn"
  shows "case split_line (received conn) of
      Some (l, behind) \<Rightarrow> \<exists>used conn'. conn = used @ conn' \<and> received conn' = behind
         \<and> read_line s (conn @ rest) = (Returned l, conn' @ rest)
    | None \<Rightarrow> read_line s conn = (Pending, [])
         \<and> (\<forall>t ts. rest = t # ts \<and> eof_turn t \<longrightarrow> read_line s (conn @ rest) = (Returned (received conn), ts))"
proof (cases "split_line (received conn)")
  case None
  have "\<exists>ch'. read_line s (conn @ r) = read_line_loop s ch' (received conn) r" for r
    using read_line_loop_splits [OF assms, of "[]" "[CHR 0x00]" r] None by (simp add: read_line_def)
  from this [of "[]"] this [of rest] None show ?thesis
    by (auto simp: read_line_eof [OF assms(1)] read_line_suspended [OF assms(1)])
next
  case (Some p)
  then show ?thesis
    using read_line_loop_splits [OF assms, of "[]" "[CHR 0x00]" rest] by (cases p) (simp add: read_line_def)
qed

text \<open>
  C27. \<open>read_line\<close> splits the stream at the line ends. On a connection that lives, whatever
  retries there are, it returns the text before the first \<open>CR LF\<close> of the stream and leaves the
  text behind it for the next call, and it is suspended while there is none; when the stream
  ends first, it returns all of the text, as if it were a line.
\<close>

theorem read_line_splits_stream:
  assumes "tcp_ensure_valid s = None" and "list_all live_turn conn"
  shows "case split_line (received conn) of
      Some (l, behind) \<Rightarrow> \<exists>used conn'. conn = used @ conn' \<and> received conn' = behind
         \<and> read_line s (conn @ rest) = (Returned l, conn' @ rest)
    | None \<Rightarrow> read_line s conn = (Pending, [])
         \<and> (\<forall>t ts. rest = t # ts \<and> eof_turn t \<longrightarrow> read_line s (conn @ rest) = (Returned (received conn), ts))"
  using assms by (rule read_line_splits)

theorem read_line_splits_stream_witness:
  "\<exists>used conn'. [\<lparr>ret = Inr ''G'', wake = None\<rparr>, \<lparr>ret = Inl EAGAIN, wake = None\<rparr>, \<lparr>ret = Inr [CR], wake = None\<rparr>,
       \<lparr>ret = Inr [LF], wake = None\<rparr>, \<lparr>ret = Inr ''x'', wake = None\<rparr>] = used @ conn'
    \<and> received conn' = ''x''"
proof -
  let ?ts = "[\<lparr>ret = Inr ''G'', wake = None\<rparr>, \<lparr>ret = Inl EAGAIN, wake = None\<rparr>, \<lparr>ret = Inr [CR], wake = None\<rparr>,
       \<lparr>ret = Inr [LF], wake = None\<rparr>, \<lparr>ret = Inr ''x'', wake = None\<rparr>]"
  have v: "tcp_ensure_valid (accepted_socket 0 7) = None" by (simp add: tcp_ensure_valid_def accepted_socket_def)
  have l: "list_all live_turn ?ts" by (simp add: live_turn_def retries_def)
  have "received ?ts = [CHR ''G'', CR, LF, CHR ''x'']" by (simp add: received_def delivery_def)
  with read_line_splits_stream [OF v l, of "[]"] show ?thesis by auto
qed

section \<open>Requests that a client prints\<close>

text \<open>
  A request as a client sees it, the text it sends for it, and what the server is to make of
  it: the names of headers in lower case, the last one of a name.
\<close>

record client_request =
  cl_method :: bytes
  cl_path :: bytes
  cl_version :: bytes
  cl_headers :: "(bytes \<times> bytes) list"

definition request_text :: "client_request \<Rightarrow> bytes" where
  "request_text r = cl_method r @ '' '' @ cl_path r @ '' '' @ cl_version r @ [CR, LF]
     @ concat (map header_text (cl_headers r)) @ [CR, LF]"

definition store_pair :: "bytes \<times> bytes \<Rightarrow> (bytes \<rightharpoonup> bytes) \<Rightarrow> (bytes \<rightharpoonup> bytes)" where
  "store_pair h hs = hs(map lower (fst h) \<mapsto> snd h)"

definition meant_request :: "client_request \<Rightarrow> http_request" where
  "meant_request r = \<lparr>req_method = cl_method r, req_path = cl_path r, req_version = cl_version r,
     req_headers = fold store_pair (cl_headers r) Map.empty\<rparr>"

definition header_ok :: "bytes \<times> bytes \<Rightarrow> bool" where
  "header_ok h \<longleftrightarrow> LF \<notin> set (fst h) \<and> CHR '':'' \<notin> set (fst h)
     \<and> LF \<notin> set (snd h) \<and> snd h \<noteq> [] \<and> hd (snd h) \<noteq> CHR '' '' \<and> hd (snd h) \<noteq> HT"

definition request_ok :: "client_request \<Rightarrow> bool" where
  "request_ok r \<longleftrightarrow> cl_method r \<noteq> [] \<and> CHR '' '' \<notin> set (cl_method r @ cl_path r)
     \<and> LF \<notin> set (cl_method r @ cl_path r @ cl_version r) \<and> list_all header_ok (cl_headers r)"

lemma find_char_text:
  "c \<notin> set a \<Longrightarrow> pos = length pre \<Longrightarrow> find_char c (pre @ a @ c # b) pos = Some (pos + length a)"
  by (subgoal_tac "takeWhile (\<lambda>x. x \<noteq> c) (a @ c # b) = a")
    (simp add: find_char_def Let_def, subst takeWhile_append2, auto)

lemma parse_request_line_text:
  "CHR '' '' \<notin> set (m @ p) \<Longrightarrow> parse_request_line (m @ '' '' @ p @ '' '' @ v) = Inr (m, p, v)"
  using find_char_text [of "CHR '' ''" m 0 "[]" "p @ '' '' @ v"]
    find_char_text [of "CHR '' ''" p "length m + 1" "m @ '' ''" v]
  by (simp add: parse_request_line_def Let_def)

lemma store_header_text:
  assumes "header_ok h"
  shows "store_header (fst h @ '': '' @ snd h) hs = store_pair h hs"
proof -
  have "find_char CHR '':'' (fst h @ '': '' @ snd h) 0 = Some (length (fst h))"
    using assms find_char_text [of "CHR '':''" "fst h" 0 "[]" "'' '' @ snd h"] by (simp add: header_ok_def)
  moreover have "first_not_blank ('' '' @ snd h) = Some 1"
    using assms by (cases "snd h") (auto simp: first_not_blank_def header_ok_def Let_def)
  ultimately show ?thesis by (simp add: store_header_def store_pair_def Let_def)
qed

text \<open>The state of a connection behind a prefix of its turns.\<close>

definition reads_to :: "bytes turn list \<Rightarrow> bytes \<Rightarrow> bytes turn list \<Rightarrow> bool" where
  "reads_to conn behind conn' \<longleftrightarrow> list_all live_turn conn' \<and> received conn' = behind \<and> suffix conn' conn"

lemma reads_to_trans: "reads_to a x b \<Longrightarrow> reads_to b y c \<Longrightarrow> reads_to a y c"
  using suffix_order.trans by (auto simp: reads_to_def)

lemma read_line_text:
  assumes "tcp_ensure_valid s = None" "list_all live_turn conn"
    and "received conn = l @ [CR, LF] @ behind" "LF \<notin> set l"
  shows "\<exists>conn'. reads_to conn behind conn' \<and> read_line s (conn @ rest) = (Returned l, conn' @ rest)"
proof -
  have "split_line (received conn) = Some (l, behind)" using assms(3,4) by (simp add: split_line_text)
  with read_line_splits [OF assms(1,2), of rest] obtain used conn' where
    "conn = used @ conn'" "received conn' = behind" "read_line s (conn @ rest) = (Returned l, conn' @ rest)"
    by auto
  with assms(2) show ?thesis by (intro exI [of _ conn']) (simp add: reads_to_def suffix_def)
qed

lemma parse_headers_text:
  assumes "tcp_ensure_valid s = None" "list_all live_turn conn" "list_all header_ok hs"
    and "received conn = concat (map header_text hs) @ [CR, LF] @ behind"
  shows "\<exists>conn'. reads_to conn behind conn'
    \<and> parse_headers s m (conn @ rest) = (Returned (fold store_pair hs m), conn' @ rest)"
  using assms(2-)
proof (induction hs arbitrary: m conn)
  case Nil
  then have "received conn = [] @ [CR, LF] @ behind" by simp
  from read_line_text [OF assms(1) Nil(1) this, of rest] show ?case
    by (auto simp: parse_headers.simps [of s m "conn @ rest"])
next
  case (Cons h hs)
  let ?behind = "concat (map header_text hs) @ [CR, LF] @ behind"
  have "received conn = (fst h @ '': '' @ snd h) @ [CR, LF] @ ?behind"
    using Cons.prems(3) by (simp add: header_text_def [of h])
  moreover have "LF \<notin> set (fst h @ '': '' @ snd h)" using Cons.prems(2) by (simp add: header_ok_def)
  ultimately obtain conn1 where c1: "reads_to conn ?behind conn1"
    "read_line s (conn @ rest) = (Returned (fst h @ '': '' @ snd h), conn1 @ rest)"
    using read_line_text [OF assms(1) Cons.prems(1)] by blast
  then have "list_all live_turn conn1" "received conn1 = ?behind" by (simp_all add: reads_to_def)
  moreover have "list_all header_ok hs" using Cons.prems(2) by simp
  ultimately obtain conn2 where "reads_to conn1 behind conn2"
    "parse_headers s (store_pair h m) (conn1 @ rest) = (Returned (fold store_pair hs (store_pair h m)), conn2 @ rest)"
    using Cons.IH by blast
  moreover have "parse_headers s m (conn @ rest) = parse_headers s (store_pair h m) (conn1 @ rest)"
    using c1(2) Cons.prems(2) store_header_text [of h m] by (simp add: parse_headers.simps [of s m "conn @ rest"])
  ultimately show ?case using reads_to_trans [OF c1(1)] by auto
qed

lemma parse_request_text:
  assumes "tcp_ensure_valid s = None" "list_all live_turn conn" "request_ok r"
    and "received conn = request_text r @ behind"
  shows "\<exists>conn'. reads_to conn behind conn'
    \<and> parse_request s (conn @ rest) = (Returned (meant_request r), conn' @ rest)"
proof -
  let ?l = "cl_method r @ '' '' @ cl_path r @ '' '' @ cl_version r"
  let ?behind = "concat (map header_text (cl_headers r)) @ [CR, LF] @ behind"
  have ok: "cl_method r \<noteq> []" "CHR '' '' \<notin> set (cl_method r @ cl_path r)" "LF \<notin> set ?l"
    "list_all header_ok (cl_headers r)" using assms(3) by (auto simp: request_ok_def)
  have "received conn = ?l @ [CR, LF] @ ?behind" using assms(4) by (simp add: request_text_def)
  from read_line_text [OF assms(1,2) this ok(3), of rest] obtain conn1 where
    c1: "reads_to conn ?behind conn1" "read_line s (conn @ rest) = (Returned ?l, conn1 @ rest)" by blast
  then have "list_all live_turn conn1" "received conn1 = ?behind" by (simp_all add: reads_to_def)
  from parse_headers_text [OF assms(1) this(1) ok(4) this(2)] obtain conn2 where
    "reads_to conn1 behind conn2" "parse_headers s Map.empty (conn1 @ rest) =
      (Returned (fold store_pair (cl_headers r) Map.empty), conn2 @ rest)" by blast
  then show ?thesis
    using reads_to_trans [OF c1(1)] c1(2) ok(1) parse_request_line_text [OF ok(2), of "cl_version r"]
    by (auto simp: parse_request_def meant_request_def)
qed

section \<open>Properties\<close>

text \<open>
  C14. Round trip of a request. On a connection that lives, the parser gives back the request
  that a client printed: method, path and version, and the headers with the names in lower case
  and the blanks in front of the values removed, the last value of a name; and it reads not
  one byte further.
\<close>

theorem http_request_roundtrip:
  assumes "tcp_ensure_valid s = None" and "list_all live_turn conn" and "request_ok r"
    and "received conn = request_text r @ behind"
  shows "\<exists>used conn'. conn = used @ conn' \<and> received conn' = behind
    \<and> parse_request s (conn @ rest) = (Returned (meant_request r), conn' @ rest)"
  using parse_request_text [OF assms, of rest] by (auto simp: reads_to_def suffix_def)

theorem http_request_roundtrip_witness:
  "\<exists>conn'. received conn' = ''P''
    \<and> parse_request (accepted_socket 0 7) (byte_turns
        (''GET / HTTP/1.1'' @ [CR, LF] @ ''Host: a'' @ [CR, LF, CR, LF] @ ''P'')) =
      (Returned \<lparr>req_method = ''GET'', req_path = ''/'', req_version = ''HTTP/1.1'',
         req_headers = [''host'' \<mapsto> ''a'']\<rparr>, conn')"
proof -
  let ?r = "\<lparr>cl_method = ''GET'', cl_path = ''/'', cl_version = ''HTTP/1.1'', cl_headers = [(''Host'', ''a'')]\<rparr>"
  let ?text = "''GET / HTTP/1.1'' @ [CR, LF] @ ''Host: a'' @ [CR, LF, CR, LF] @ ''P''"
  have v: "tcp_ensure_valid (accepted_socket 0 7) = None" and l: "list_all live_turn (byte_turns ?text)" by simp_all
  have ok: "request_ok ?r" by (simp add: request_ok_def header_ok_def)
  have rec: "received (byte_turns ?text) = request_text ?r @ ''P''"
    unfolding byte_turns_simps by (simp add: request_text_def header_text_def)
  have m: "meant_request ?r = \<lparr>req_method = ''GET'', req_path = ''/'', req_version = ''HTTP/1.1'',
         req_headers = [''host'' \<mapsto> ''a'']\<rparr>"
    by (simp add: meant_request_def store_pair_def)
  from http_request_roundtrip [OF v l ok rec, of "[]"] show ?thesis
    unfolding m append_Nil2 by blast
qed

text \<open>The headers that every response has, and what a numeral may hold.\<close>

definition standard_headers :: "http_response \<Rightarrow> (bytes \<times> bytes) list" where
  "standard_headers r = [(''Content-Type'', content_type r),
     (''Content-Length'', to_dec (length (resp_body r))), (''Connection'', ''keep-alive'')]"

lemma header_ok_number: "LF \<notin> set k \<Longrightarrow> CHR '':'' \<notin> set k \<Longrightarrow> header_ok (k, to_dec n)"
proof -
  assume k: "LF \<notin> set k" "CHR '':'' \<notin> set k"
  have d: "\<forall>c \<in> set (to_dec n). is_digit c" using to_dec_digits(1) by (simp add: list_all_iff)
  moreover have "\<not> is_digit LF" "\<not> is_digit HT" "\<not> is_digit CHR '' ''" by (simp_all add: is_digit_def)
  moreover have "hd (to_dec n) \<in> set (to_dec n)" by simp
  ultimately have "hd (to_dec n) \<noteq> CHR '' ''" "hd (to_dec n) \<noteq> HT" "LF \<notin> set (to_dec n)" by metis+
  then show ?thesis using k by (auto simp: header_ok_def)
qed

lemma response_text:
  "response_to_string r = (''HTTP/1.1 '' @ to_dec (status r) @ '' '' @ status_text r) @ [CR, LF]
     @ concat (map header_text (standard_headers r @ resp_headers r)) @ [CR, LF] @ resp_body r"
  by (simp add: response_to_string_def standard_headers_def header_text_def)

lemma to_dec_no_LF [simp]: "LF \<notin> set (to_dec n)"
  using header_ok_number [of "[]" n] by (simp add: header_ok_def)

text \<open>
  C26. A client can tell where each response ends. Reading the bytes of a response that the
  routes build, line by line, a client finds the status line and then headers whose
  \<open>content-length\<close> is the decimal numeral of the length of the body, and behind the empty line
  there are exactly the body and what was sent after it.
\<close>

theorem http_response_framing:
  assumes "tcp_ensure_valid s = None" and "list_all live_turn conn"
    and "received conn = response_to_string (handle_route files request) @ behind"
  shows "\<exists>line hs conn1 conn2 body.
    read_line s conn = (Returned line, conn1) \<and> parse_headers s Map.empty conn1 = (Returned hs, conn2)
    \<and> body = resp_body (handle_route files request)
    \<and> prefix (''HTTP/1.1 '' @ to_dec (status (handle_route files request))) line
    \<and> hs ''content-length'' = Some (to_dec (length body)) \<and> received conn2 = body @ behind"
proof -
  define r where "r = handle_route files request"
  have r: "LF \<notin> set (status_text r)" "header_ok (''Content-Type'', content_type r)" "resp_headers r = []"
    unfolding r_def by (auto simp: handle_route_def response_default_def header_ok_def)
  let ?line = "''HTTP/1.1 '' @ to_dec (status r) @ '' '' @ status_text r"
  let ?hs = "standard_headers r" and ?behind = "resp_body r @ behind"
  have line: "LF \<notin> set ?line" using r(1) by simp
  have hs: "list_all header_ok ?hs" using r(2) header_ok_number [of "''Content-Length''"]
    by (simp add: standard_headers_def) (simp add: header_ok_def)
  have "received conn = ?line @ [CR, LF] @ concat (map header_text ?hs) @ [CR, LF] @ ?behind"
    unfolding assms(3) r_def [symmetric] response_text r(3) by simp
  from read_line_text [OF assms(1,2) this line, of "[]"] obtain conn1 where
    c1: "reads_to conn (concat (map header_text ?hs) @ [CR, LF] @ ?behind) conn1"
      "read_line s conn = (Returned ?line, conn1)" by auto
  then have "list_all live_turn conn1"
    "received conn1 = concat (map header_text ?hs) @ [CR, LF] @ ?behind" by (simp_all add: reads_to_def)
  from parse_headers_text [OF assms(1) this(1) hs this(2), of Map.empty "[]"] obtain conn2 where
    c2: "reads_to conn1 ?behind conn2" "parse_headers s Map.empty conn1 = (Returned (fold store_pair ?hs Map.empty), conn2)"
    by auto
  have "fold store_pair ?hs Map.empty ''content-length'' = Some (to_dec (length (resp_body r)))"
    by (simp add: standard_headers_def store_pair_def)
  moreover have "prefix (''HTTP/1.1 '' @ to_dec (status r)) ?line" by (simp add: prefix_def)
  moreover have "received conn2 = resp_body r @ behind" using c2(1) by (simp add: reads_to_def)
  ultimately show ?thesis using c1(2) c2(2) unfolding r_def by blast
qed

theorem http_response_framing_witness:
  "\<exists>line hs conn1 conn2. read_line (accepted_socket 0 7)
       (byte_turns
         (response_to_string (handle_route \<lparr>index_html = [], status_json = ''{}''\<rparr>
            \<lparr>req_method = ''GET'', req_path = ''/json'', req_version = [], req_headers = Map.empty\<rparr>) @ ''next'')) =
       (Returned line, conn1)
    \<and> parse_headers (accepted_socket 0 7) Map.empty conn1 = (Returned hs, conn2)
    \<and> hs ''content-length'' = Some (to_dec 2) \<and> received conn2 = ''{}next''"
proof -
  let ?files = "\<lparr>index_html = [], status_json = ''{}''\<rparr>"
  let ?req = "\<lparr>req_method = ''GET'', req_path = ''/json'', req_version = [], req_headers = Map.empty\<rparr>"
  let ?text = "response_to_string (handle_route ?files ?req) @ ''next''"
  have v: "tcp_ensure_valid (accepted_socket 0 7) = None" and l: "list_all live_turn (byte_turns ?text)" by simp_all
  have rec: "received (byte_turns ?text) = ?text" by (rule byte_turns_simps)
  have b: "resp_body (handle_route ?files ?req) = ''{}''" by (simp add: handle_route_def)
  have n: "length ''{}'' = 2" by simp
  obtain line hs conn1 conn2 where
    r: "read_line (accepted_socket 0 7) (byte_turns ?text) = (Returned line, conn1)"
      "parse_headers (accepted_socket 0 7) Map.empty conn1 = (Returned hs, conn2)"
    and h: "hs ''content-length'' = Some (to_dec (length ''{}''))" "received conn2 = ''{}'' @ ''next''"
    using http_response_framing [OF v l rec] unfolding b by blast
  from h have "hs ''content-length'' = Some (to_dec 2)" "received conn2 = ''{}next''" unfolding n by simp_all
  with r show ?thesis by (intro exI conjI)
qed

section \<open>Sessions\<close>

definition answer_text :: "site \<Rightarrow> client_request \<Rightarrow> bytes" where
  "answer_text files r = response_to_string (handle_route files (meant_request r))"

text \<open>One round of a session: what the write of the response comes to.\<close>

lemma http_round:
  assumes "parse_request s rs = (Returned request, rs1)" "req_method request \<noteq> []"
    and "http_handle_client files s rs ws = (out, log, sent, rs', ws')"
  shows "let raw = response_to_string (handle_route files request) in
    (prefix sent raw \<and> \<not> (out = Returned () \<and> log = []))
    \<or> (\<exists>ws1 sent1. sent = raw @ sent1 \<and> http_handle_client files s rs1 ws1 = (out, log, sent1, rs', ws'))"
proof -
  let ?raw = "response_to_string (handle_route files request)"
  obtain o2 ws1 tr where w: "async_write s (length ?raw) ws = (o2, ws1, tr)" by (metis surj_pair)
  obtain used where u: "ws = used @ ws1" "prefix (wire ?raw tr used) ?raw"
    "\<forall>n. o2 = Returned n \<longrightarrow> wire ?raw tr used = ?raw" using async_write_buffer [OF w] by blast
  have up: "used_up ws ws1 = used" using u(1) by simp
  have "http_handle_client files s rs ws = sent_before (wire ?raw tr used) (case o2 of
      Pending \<Rightarrow> (Pending, [], [], rs1, ws1)
    | Threw e \<Rightarrow> pump_failed e rs1 ws1
    | Returned _ \<Rightarrow> http_handle_client files s rs1 ws1)"
    using assms(1,2) w up by (simp add: http_handle_client.simps [of files s rs ws] Let_def)
  with assms(3) u(2,3) show ?thesis
    by (cases o2; cases "http_handle_client files s rs1 ws1")
      (auto simp: Let_def pump_failed_def caught_def split: if_splits)
qed

lemma parse_request_at_end:
  assumes "tcp_ensure_valid s = None" "list_all live_turn conn" "received conn = []"
  shows "parse_request s conn = (Pending, [])"
    and "eof_turn t \<Longrightarrow> parse_request s (conn @ t # ts) = (Returned empty_request, ts)"
  using read_line_splits [OF assms(1,2), of "t # ts"] assms(3) by (simp_all add: parse_request_def)

lemma http_session_answers:
  assumes "tcp_ensure_valid s = None" and "list_all live_turn conn" and "list_all request_ok reqs"
    and "received conn = concat (map request_text reqs)" and "rest = [] \<or> eof_turn (hd rest)"
    and "http_handle_client files s (conn @ rest) ws = (out, log, sent, rs', ws')"
  shows "prefix sent (concat (map (answer_text files) reqs))
    \<and> (out = Returned () \<and> log = [] \<longrightarrow> sent = concat (map (answer_text files) reqs) \<and> rs' = tl rest)"
  using assms(2-4,6)
proof (induction reqs arbitrary: conn ws sent)
  case Nil
  then have "received conn = []" by simp
  note at_end = parse_request_at_end [OF assms(1) Nil(1) this]
  show ?case
  proof (cases rest)
    case Nil
    with Nil.prems(4) at_end(1) show ?thesis
      by (simp add: http_handle_client.simps [of files s _ ws])
  next
    case (Cons t ts)
    with assms(5) have "parse_request s (conn @ rest) = (Returned empty_request, ts)" using at_end(2) by simp
    with Nil.prems(4) Cons show ?thesis
      by (simp add: http_handle_client.simps [of files s _ ws] empty_request_def)
  qed
next
  case (Cons r reqs)
  have "request_ok r" using Cons.prems(2) by simp
  moreover have "received conn = request_text r @ concat (map request_text reqs)" using Cons.prems(3) by simp
  ultimately obtain conn1 where c: "reads_to conn (concat (map request_text reqs)) conn1"
    "parse_request s (conn @ rest) = (Returned (meant_request r), conn1 @ rest)"
    using parse_request_text [OF assms(1) Cons.prems(1)] by blast
  have "req_method (meant_request r) \<noteq> []" using \<open>request_ok r\<close> by (simp add: meant_request_def request_ok_def)
  from http_round [OF c(2) this Cons.prems(4)]
  consider "prefix sent (answer_text files r)" "\<not> (out = Returned () \<and> log = [])"
    | ws1 sent1 where "sent = answer_text files r @ sent1"
        "http_handle_client files s (conn1 @ rest) ws1 = (out, log, sent1, rs', ws')"
    unfolding Let_def answer_text_def by blast
  then show ?case
  proof cases
    case 1
    then show ?thesis by (auto intro: prefix_prefix)
  next
    case 2
    with Cons.IH [of conn1 ws1 sent1] Cons.prems(2) c(1) show ?thesis by (simp add: reads_to_def)
  qed
qed

text \<open>
  C13. Every request of a session is answered, in order. When a client sends requests, one
  behind the other and without waiting, the bytes that went back are at every moment a prefix of
  the responses to these requests in the order of the requests; and when the client closes and
  the session ends without an error, all responses went out.
\<close>

theorem http_session_answers_all:
  assumes "tcp_ensure_valid s = None" and "list_all live_turn conn" and "list_all request_ok reqs"
    and "received conn = concat (map request_text reqs)" and "rest = [] \<or> eof_turn (hd rest)"
    and "http_handle_client files s (conn @ rest) ws = (out, log, sent, rs', ws')"
  shows "prefix sent (concat (map (answer_text files) reqs))
    \<and> (out = Returned () \<and> log = [] \<longrightarrow> sent = concat (map (answer_text files) reqs) \<and> rs' = tl rest)"
  using assms by (rule http_session_answers)

text \<open>A session of one request, for the witnesses.\<close>

definition example_site :: site where
  "example_site = \<lparr>index_html = [], status_json = []\<rparr>"

definition example_request :: client_request where
  "example_request = \<lparr>cl_method = ''GET'', cl_path = ''/hello'', cl_version = ''HTTP/1.1'', cl_headers = []\<rparr>"

lemma example_session:
  defines "raw \<equiv> answer_text example_site example_request"
  shows "http_handle_client example_site (accepted_socket 0 7)
      (byte_turns (request_text example_request) @ \<lparr>ret = Inr [], wake = None\<rparr> # [])
      [\<lparr>ret = Inr (length raw), wake = None\<rparr>] = (Returned (), [], raw, [], [])"
proof -
  let ?s = "accepted_socket 0 7" and ?conn = "byte_turns (request_text example_request)"
  let ?eof = "\<lparr>ret = Inr [], wake = None\<rparr>" and ?ws = "[\<lparr>ret = Inr (length raw), wake = None\<rparr>]"
  have v: "tcp_ensure_valid ?s = None" and l: "list_all live_turn ?conn" and ok: "request_ok example_request"
    by (simp_all add: request_ok_def example_request_def)
  have "received ?conn = request_text example_request @ []" by simp
  from parse_request_text [OF v l ok this, of "[?eof]"] obtain conn1 where
    c: "reads_to ?conn [] conn1"
      "parse_request ?s (?conn @ [?eof]) = (Returned (meant_request example_request), conn1 @ [?eof])" by blast
  have e: "parse_request ?s (conn1 @ [?eof]) = (Returned empty_request, [])"
    using c(1) by (intro parse_request_at_end(2) [OF v]) (auto simp: reads_to_def eof_turn_def)
  have "0 < length raw" by (simp add: raw_def answer_text_def response_to_string_def)
  then have "write_loop 7 (length raw) 0 ?ws = (Returned (length raw), [], [Send 7 0 (length raw)])"
    by (simp add: Let_def)
  then have w: "async_write ?s (length raw) ?ws = (Returned (length raw), [], [Send 7 0 (length raw)])"
    using v by (simp add: async_write_def accepted_socket_def)
  have "http_handle_client example_site ?s (conn1 @ [?eof]) [] = (Returned (), [], [], [], [])"
    by (simp add: http_handle_client.simps [of example_site ?s "conn1 @ [?eof]"] e empty_request_def)
  moreover have "req_method (meant_request example_request) \<noteq> []"
    by (simp add: meant_request_def example_request_def)
  ultimately show ?thesis
    using c(2) w by (simp add: http_handle_client.simps [of example_site ?s "?conn @ [?eof]"]
        raw_def answer_text_def Let_def used_up_def wire_def taken_def)
qed

theorem http_session_answers_all_witness:
  "answer_text example_site example_request = concat (map (answer_text example_site) [example_request])
   \<and> prefix (answer_text example_site example_request) (concat (map (answer_text example_site) [example_request]))"
proof -
  let ?eof = "\<lparr>ret = Inr [], wake = None\<rparr>" and ?conn = "byte_turns (request_text example_request)"
  have v: "tcp_ensure_valid (accepted_socket 0 7) = None" and l: "list_all live_turn ?conn"
    and ok: "list_all request_ok [example_request]"
    and rec: "received ?conn = concat (map request_text [example_request])"
    and e: "[?eof] = [] \<or> eof_turn (hd [?eof])"
    by (simp_all add: request_ok_def example_request_def eof_turn_def)
  from http_session_answers_all [OF v l ok rec e example_session] show ?thesis by blast
qed

section \<open>Requests that are not well formed\<close>

lemma split_line_none: "LF \<notin> set l \<Longrightarrow> split_line l = None"
  by (induction l rule: split_line.induct) auto

lemma find_char_none:
  assumes "c \<notin> set l"
  shows "find_char c l 0 = None"
proof -
  have "takeWhile (\<lambda>x. x \<noteq> c) l = l" using assms by (intro takeWhile_eq_all_conv [THEN iffD2]) auto
  then have "length (takeWhile (\<lambda>x. x \<noteq> c) l) = length l" by (rule arg_cong)
  then show ?thesis by (simp add: find_char_def Let_def)
qed

text \<open>
  What ends a session without a response. A first line without a blank is refused with an
  exception, which the session logs before it ends; no status goes back. An empty first line
  is taken for the end of the stream: the session ends with nothing logged, although the
  client is still there.
\<close>

theorem http_refuses_line:
  assumes "tcp_ensure_valid s = None" and "list_all live_turn conn"
    and "received conn = l @ [CR, LF] @ behind" and "LF \<notin> set l" and "CHR '' '' \<notin> set l"
  shows "\<exists>conn'. received conn' = behind \<and> http_handle_client files s (conn @ rest) ws =
    (Returned (), if l = [] then [] else [Runtime_error ''malformed request line''], [], conn' @ rest, ws)"
proof -
  from read_line_text [OF assms(1-4)] obtain conn' where
    c: "reads_to conn behind conn'" "read_line s (conn @ rest) = (Returned l, conn' @ rest)" by blast
  then show ?thesis
    using find_char_none [OF assms(5)]
    by (intro exI [of _ conn'])
      (auto simp: reads_to_def http_handle_client.simps [of files s "conn @ rest"] parse_request_def
        parse_request_line_def empty_request_def pump_failed_def caught_def)
qed

theorem http_refuses_line_witness:
  "\<exists>conn'. received conn' = ''x'' \<and>
    http_handle_client \<lparr>index_html = [], status_json = []\<rparr> (accepted_socket 0 7)
      (byte_turns (''GET'' @ [CR, LF] @ ''x'')) [] =
    (Returned (), [Runtime_error ''malformed request line''], [], conn', [])"
proof -
  let ?conn = "byte_turns (''GET'' @ [CR, LF] @ ''x'')"
  have v: "tcp_ensure_valid (accepted_socket 0 7) = None" and l: "list_all live_turn ?conn"
    and r: "received ?conn = ''GET'' @ [CR, LF] @ ''x''"
    and n: "LF \<notin> set ''GET''" "CHR '' '' \<notin> set ''GET''" by simp_all
  from http_refuses_line [OF v l r n, of _ "[]"] show ?thesis by (simp del: append.simps)
qed



end
