(* ===== verification/Http_Types.thy ===== *)
theory Http_Types
  imports Http_Server "HOL-Library.Sublist"
begin

text \<open>
  What holds of every request that \<open>parse_request\<close> hands to the route handler, whatever the
  client sent: the well-formedness that \<open>handle_route\<close> and the log line rely on. The lines are
  bounded by \<open>CR LF\<close> only, so a lone \<open>LF\<close> or \<open>CR\<close> can still be part of a field.
\<close>

section \<open>Text without a line end\<close>

definition crlf_free :: "bytes \<Rightarrow> bool" where
  "crlf_free s \<longleftrightarrow> split_line s = None"

lemma split_line_finds: "split_line s = Some (l, r) \<Longrightarrow> s = l @ CR # LF # r"
  by (induction s arbitrary: l rule: split_line.induct) (auto split: if_splits)

lemma split_line_found: "split_line (a @ CR # LF # b) \<noteq> None"
proof (induction a)
  case Nil
  then show ?case by simp
next
  case (Cons c a)
  then show ?case by (cases a) (auto split: if_splits)
qed

lemma crlf_free_iff: "crlf_free s \<longleftrightarrow> \<not> sublist [CR, LF] s"
proof
  assume s: "crlf_free s"
  show "\<not> sublist [CR, LF] s"
  proof
    assume "sublist [CR, LF] s"
    then obtain a b where "s = a @ CR # LF # b" by (auto simp: sublist_def)
    with s split_line_found [of a b] show False by (simp add: crlf_free_def)
  qed
next
  assume "\<not> sublist [CR, LF] s"
  then show "crlf_free s"
    by (cases "split_line s") (auto simp: crlf_free_def sublist_def dest!: split_line_finds)
qed

lemma crlf_free_part: "crlf_free s \<Longrightarrow> sublist t s \<Longrightarrow> crlf_free t"
  using sublist_order.order_trans by (auto simp: crlf_free_iff)

lemma crlf_free_parts [simp]:
  "crlf_free s \<Longrightarrow> crlf_free (take n s)" "crlf_free s \<Longrightarrow> crlf_free (drop n s)"
  "crlf_free s \<Longrightarrow> crlf_free (butlast s)" "crlf_free []"
  by (auto intro: crlf_free_part sublist_take sublist_drop sublist_butlast simp: crlf_free_def [of "[]"])

text \<open>Lower case changes neither the characters of a line end nor a colon, and is idempotent.\<close>

lemma of_char_lower:
  "(of_char (lower c) :: nat) =
     (if 65 \<le> (of_char c :: nat) \<and> (of_char c :: nat) \<le> 90 then of_char c + 32 else of_char c)"
  by (simp add: lower_def Let_def)

lemma lower_eq: "lower c = d \<longleftrightarrow> (of_char (lower c) :: nat) = of_char d"
  by simp

lemma lower_fixed [simp]:
  "lower c = CR \<longleftrightarrow> c = CR" "lower c = LF \<longleftrightarrow> c = LF" "lower c = CHR '':'' \<longleftrightarrow> c = CHR '':''"
  "lower (lower c) = lower c"
  by (simp only: lower_eq of_char_lower of_char_eq_iff [symmetric, where 'a = nat]; simp; fail)+

lemma crlf_free_lower [simp]: "crlf_free (map lower s) \<longleftrightarrow> crlf_free s"
proof -
  have "split_line (map lower s) = None \<longleftrightarrow> split_line s = None"
    by (induction s rule: split_line.induct) simp_all
  then show ?thesis by (simp add: crlf_free_def)
qed

section \<open>Lines\<close>

lemma read_line_loop_free:
  "read_line_loop s ch line rs = (Returned l, rest) \<Longrightarrow> crlf_free line \<Longrightarrow> crlf_free l"
proof (induction "length rs" arbitrary: ch line rs rule: less_induct)
  case less
  obtain out rs' tr where r: "async_read s ch 1 rs = (out, rs', tr)" by (metis surj_pair)
  then obtain cnt ch' where o: "out = Returned (cnt, ch')"
    using less(2) by (cases out) (auto simp: read_line_loop.simps [of s ch line rs])
  then have short: "length rs' < length rs" using r read_shorter(1) by blast
  let ?l = "line @ [ch' ! 0]"
  have snoc: "crlf_free ?l \<or> (take (length ?l - 2) ?l = butlast line)"
    using less(3) by (auto simp: crlf_free_def split_line_snoc butlast_conv_take)
  have at: "line \<noteq> [] \<Longrightarrow> (line @ [x]) ! (length line - 1) = last line \<and> 1 \<le> length line" for x
    by (cases line rule: rev_cases) simp_all
  have "l = line \<or> l = take (length ?l - 2) ?l \<or> (crlf_free ?l \<and> read_line_loop s ch' ?l rs' = (Returned l, rest))"
    using less(2,3) at by (auto simp: read_line_loop.simps [of s ch line rs] r o Let_def split_line_snoc crlf_free_def
        simp del: One_nat_def split: if_splits)
  then show ?case using less.hyps [OF short] less(3) snoc by auto
qed

lemma read_line_free: "read_line s rs = (Returned l, rest) \<Longrightarrow> crlf_free l"
  by (auto simp: read_line_def dest: read_line_loop_free)

section \<open>Requests\<close>

text \<open>
  A value has no leading blank unless it is blanks only; the code leaves such a value untrimmed.
\<close>

definition blank :: "char \<Rightarrow> bool" where
  "blank c \<longleftrightarrow> c = CHR '' '' \<or> c = HT"

definition header_wf :: "bytes \<Rightarrow> bytes \<Rightarrow> bool" where
  "header_wf key val \<longleftrightarrow> crlf_free key \<and> CHR '':'' \<notin> set key \<and> map lower key = key
     \<and> crlf_free val \<and> (val \<noteq> [] \<and> blank (hd val) \<longrightarrow> list_all blank val)"

definition request_wf :: "http_request \<Rightarrow> bool" where
  "request_wf r \<longleftrightarrow>
     crlf_free (req_method r) \<and> CHR '' '' \<notin> set (req_method r)
   \<and> crlf_free (req_path r) \<and> CHR '' '' \<notin> set (req_path r)
   \<and> crlf_free (req_version r)
   \<and> (\<forall>key \<in> dom (req_headers r). header_wf key (the (req_headers r key)))"

lemma find_char_found:
  assumes "find_char c s pos = Some i"
  shows "c \<notin> set (take (i - pos) (drop pos s))" and "pos \<le> i"
proof -
  have i: "i = pos + length (takeWhile (\<lambda>x. x \<noteq> c) (drop pos s))"
    using assms by (auto simp: find_char_def Let_def split: if_splits)
  then have "take (i - pos) (drop pos s) = takeWhile (\<lambda>x. x \<noteq> c) (drop pos s)"
    by (simp add: takeWhile_eq_take [symmetric])
  then show "c \<notin> set (take (i - pos) (drop pos s))" by (auto dest: set_takeWhileD)
  show "pos \<le> i" using i by simp
qed

lemma find_char_missing: "find_char c s pos = None \<Longrightarrow> c \<notin> set (drop pos s)"
proof -
  assume "find_char c s pos = None"
  then have "length (drop pos s) \<le> length (takeWhile (\<lambda>x. x \<noteq> c) (drop pos s))"
    by (auto simp: find_char_def Let_def split: if_splits)
  then have "takeWhile (\<lambda>x. x \<noteq> c) (drop pos s) = drop pos s"
    by (metis takeWhile_eq_take take_all)
  then show ?thesis by (metis (full_types) set_takeWhileD)
qed

lemma parse_request_line_wf:
  assumes "parse_request_line l = Inr (meth, path, version)" and "crlf_free l"
  shows "crlf_free meth \<and> CHR '' '' \<notin> set meth \<and> crlf_free path \<and> CHR '' '' \<notin> set path \<and> crlf_free version"
proof -
  obtain sp1 where sp1: "find_char CHR '' '' l 0 = Some sp1"
    using assms(1) by (auto simp: parse_request_line_def split: option.splits)
  have m: "meth = take sp1 l" using assms(1) sp1
    by (auto simp: parse_request_line_def Let_def split: option.splits)
  show ?thesis
  proof (cases "find_char CHR '' '' l (sp1 + 1)")
    case None
    then have "path = drop (sp1 + 1) l" "version = ''HTTP/1.0''"
      using assms(1) sp1 by (auto simp: parse_request_line_def Let_def)
    with m find_char_found(1) [OF sp1] find_char_missing [OF None] assms(2) show ?thesis
      by (simp add: crlf_free_def [of "''HTTP/1.0''"])
  next
    case (Some sp2)
    then have "path = take (sp2 - (sp1 + 1)) (drop (sp1 + 1) l)" "version = drop (sp2 + 1) l"
      using assms(1) sp1 by (auto simp: parse_request_line_def Let_def)
    with m find_char_found(1) [OF sp1] find_char_found(1) [OF Some] assms(2) show ?thesis by simp
  qed
qed

lemma trimmed_wf:
  assumes "trimmed = (case first_not_blank val of Some start \<Rightarrow> drop start val | None \<Rightarrow> val)"
  shows "trimmed \<noteq> [] \<and> blank (hd trimmed) \<longrightarrow> list_all blank trimmed"
proof (cases "first_not_blank val")
  case None
  then have "length val \<le> length (takeWhile blank val)"
    by (auto simp: first_not_blank_def Let_def blank_def [abs_def] split: if_splits)
  then have "takeWhile blank val = val" by (metis takeWhile_eq_take take_all)
  then have "list_all blank val" by (metis list_all_iff set_takeWhileD)
  with None assms show ?thesis by simp
next
  case (Some start)
  then have "trimmed = dropWhile blank val"
    using assms by (auto simp: first_not_blank_def Let_def blank_def [abs_def] dropWhile_eq_drop split: if_splits)
  then show ?thesis using hd_dropWhile [of blank val] by auto
qed

lemma store_header_wf:
  assumes "\<forall>key \<in> dom hs. header_wf key (the (hs key))" and "crlf_free l"
  shows "\<forall>key \<in> dom (store_header l hs). header_wf key (the (store_header l hs key))"
proof (cases "find_char CHR '':'' l 0")
  case None
  with assms show ?thesis by (simp add: store_header_def)
next
  case (Some colon)
  define trimmed where "trimmed = (case first_not_blank (drop (colon + 1) l) of
      Some start \<Rightarrow> drop start (drop (colon + 1) l) | None \<Rightarrow> drop (colon + 1) l)"
  have st: "store_header l hs = hs(map lower (take colon l) \<mapsto> trimmed)"
    using Some by (simp add: store_header_def trimmed_def Let_def cong: option.case_cong)
  have "CHR '':'' \<notin> set (take colon l)" using find_char_found(1) [OF Some] by simp
  then have "header_wf (map lower (take colon l)) trimmed"
    using assms(2) trimmed_wf [OF trimmed_def]
    by (auto simp: header_wf_def comp_def trimmed_def dest!: sym [of "CHR '':''"] split: option.split)
  with assms(1) show ?thesis by (auto simp: st)
qed

lemma parse_headers_wf:
  "parse_headers s hs rs = (Returned hs', rest) \<Longrightarrow> \<forall>key \<in> dom hs. header_wf key (the (hs key)) \<Longrightarrow>
     \<forall>key \<in> dom hs'. header_wf key (the (hs' key))"
proof (induction "length rs" arbitrary: hs rs rule: less_induct)
  case less
  obtain out rs' where r: "read_line s rs = (out, rs')" by (metis surj_pair)
  then obtain l where o: "out = Returned l"
    using less(2) by (cases out) (auto simp: parse_headers.simps [of s hs rs])
  with r have short: "length rs' < length rs" and free: "crlf_free l"
    using read_line_shorter read_line_free by blast+
  show ?case
  proof (cases "l = []")
    case True
    with less(2,3) r o show ?thesis by (simp add: parse_headers.simps [of s hs rs])
  next
    case False
    with less(2) r o have "parse_headers s (store_header l hs) rs' = (Returned hs', rest)"
      by (simp add: parse_headers.simps [of s hs rs])
    from less(1) [OF short this store_header_wf [OF less(3) free]] show ?thesis .
  qed
qed

text \<open>
  C15. Every parsed request is well formed. Whatever bytes a client sends, in whatever portions
  and with whatever errors in between, a request that \<open>parse_request\<close> returns has a method and
  a path without a blank, no field contains a line end, and every header name is in lower
  case and without a colon; a value starts with a blank only if it is nothing but blanks.
\<close>

theorem parsed_request_wf:
  assumes "parse_request s rs = (Returned request, rest)"
  shows "request_wf request"
proof -
  obtain out rs' where r: "read_line s rs = (out, rs')" by (metis surj_pair)
  then obtain l where o: "out = Returned l" using assms by (cases out) (auto simp: parse_request_def)
  have free: "crlf_free l" using read_line_free r o by blast
  show ?thesis
  proof (cases "l = []")
    case True
    with assms r o show ?thesis by (auto simp: parse_request_def request_wf_def empty_request_def)
  next
    case False
    then obtain meth path version where l: "parse_request_line l = Inr (meth, path, version)"
      using assms r o by (auto simp: parse_request_def split: sum.splits)
    obtain out' rs'' where h: "parse_headers s Map.empty rs' = (out', rs'')" by (metis surj_pair)
    then obtain hs where hs: "out' = Returned hs"
      "request = \<lparr>req_method = meth, req_path = path, req_version = version, req_headers = hs\<rparr>"
      using assms r o l False by (cases out') (auto simp: parse_request_def)
    from parse_headers_wf [OF h [unfolded hs(1)]] parse_request_line_wf [OF l free] show ?thesis
      by (simp add: request_wf_def hs(2))
  qed
qed

theorem parsed_request_wf_witness:
  "request_wf \<lparr>req_method = ''GET'', req_path = ''/'', req_version = ''HTTP/1.1'', req_headers = [''host'' \<mapsto> ''a'']\<rparr>"
proof -
  let ?r = "\<lparr>cl_method = ''GET'', cl_path = ''/'', cl_version = ''HTTP/1.1'', cl_headers = [(''Host'', ''a'')]\<rparr>"
  have v: "tcp_ensure_valid (accepted_socket 0 7) = None" and l: "list_all live_turn (byte_turns (request_text ?r))"
    by simp_all
  have ok: "request_ok ?r" by (simp add: request_ok_def header_ok_def)
  have rec: "received (byte_turns (request_text ?r)) = request_text ?r @ []" by simp
  have m: "meant_request ?r = \<lparr>req_method = ''GET'', req_path = ''/'', req_version = ''HTTP/1.1'',
         req_headers = [''host'' \<mapsto> ''a'']\<rparr>"
    by (simp add: meant_request_def store_pair_def)
  from parse_request_text [OF v l ok rec] obtain conn where
    "parse_request (accepted_socket 0 7) (byte_turns (request_text ?r) @ []) = (Returned (meant_request ?r), conn @ [])"
    by blast
  from parsed_request_wf [OF this] show ?thesis unfolding m .
qed

end
