(* ===== verification/Proxy_Server.thy ===== *)
theory Proxy_Server
  imports Loop_Spec Echo_Servers
begin

text \<open>
  \<open>examples/proxy-server/main.cpp\<close>: the asynchronous connect, the relay of one direction and
  the session that joins them, and the accept loop that spawns the sessions; the command line
  is in \<open>Cli_Args\<close>.

  \<open>inet_pton\<close> is a parameter, as in \<open>Udp\<close>. On Linux nothing between \<open>socket\<close> and \<open>connect\<close>
  can throw.
\<close>

section \<open>Connecting\<close>

text \<open>
  \<open>ready\<close> is how \<open>co_await loop.writable(fd)\<close> ends: \<open>None\<close> while it has not, \<open>Some None\<close> when
  the coroutine is resumed, \<open>Some (Some ex)\<close> when the registration throws. \<open>getsockopt\<close>
  answers with the pending error of the socket.
\<close>

definition connect_socket ::
    "kernel_answers \<Rightarrow> exn option option \<Rightarrow> fd \<Rightarrow> 32 word \<Rightarrow> 16 word \<Rightarrow> fd outcome \<times> io list" where
  "connect_socket K ready fd a port =
     (let conn = Sys_connect fd a (unat (htons port));
          wait = [conn, Await fd Writable False]; opt = Sys_getsockopt fd
      in (case K conn of
            Inr _ \<Rightarrow> (Returned fd, [conn])
          | Inl e \<Rightarrow>
              (if e \<noteq> EINPROGRESS then (Threw (System_error e ''connect''), [conn, Sys_close fd])
               else (case ready of
                   None \<Rightarrow> (Pending, wait)
                 | Some (Some ex) \<Rightarrow> (Threw ex, wait)
                 | Some None \<Rightarrow>
                     (case K opt of
                        Inl e' \<Rightarrow> (Threw (System_error e' ''getsockopt SO_ERROR''), wait @ [opt, Sys_close fd])
                      | Inr err \<Rightarrow>
                          (if err \<noteq> 0 then (Threw (System_error err ''connect''), wait @ [opt, Sys_close fd])
                           else (Returned fd, wait @ [opt])))))))"

definition async_connect_to ::
    "(bytes \<Rightarrow> int + 32 word option) \<Rightarrow> kernel_answers \<Rightarrow> exn option option \<Rightarrow> bytes \<Rightarrow> 16 word
       \<Rightarrow> fd outcome \<times> io list" where
  "async_connect_to inet_pton K ready host port = (case inet_pton host of
      Inr (Some a) \<Rightarrow>
        (case K Sys_socket of
           Inl e \<Rightarrow> (Threw (System_error e ''socket''), [Sys_socket])
         | Inr fd \<Rightarrow> (case connect_socket K ready fd a port of (out, tr) \<Rightarrow> (out, Sys_socket # tr)))
    | _ \<Rightarrow> (Threw (Runtime_error (''invalid address: '' @ host)), []))"

text \<open>
  C37. What \<open>async_connect_to\<close> comes to. It returns the new descriptor exactly when the address
  is valid and \<open>connect\<close> succeeds at once or is in progress, becomes writable and leaves no
  error; every other answer of the kernel makes it throw with the descriptor closed. The one
  exception is a throwing \<open>co_await\<close>: then the descriptor is neither returned nor closed.
\<close>

theorem async_connect_result:
  assumes "pton host = Inr (Some a)" and "K Sys_socket = Inr fd"
    and "async_connect_to pton K ready host port = (out, tr)"
  shows "(\<forall>c. out = Returned c \<longleftrightarrow> c = fd \<and>
       ((\<exists>x. K (Sys_connect fd a (unat (htons port))) = Inr x)
        \<or> (K (Sys_connect fd a (unat (htons port))) = Inl EINPROGRESS \<and> ready = Some None
            \<and> K (Sys_getsockopt fd) = Inr 0)))
    \<and> (out = Pending \<longleftrightarrow> K (Sys_connect fd a (unat (htons port))) = Inl EINPROGRESS \<and> ready = None)
    \<and> closed tr = (if (\<exists>e. out = Threw e)
         \<and> \<not> (K (Sys_connect fd a (unat (htons port))) = Inl EINPROGRESS \<and> (\<exists>ex. ready = Some (Some ex)))
         then [fd] else [])"
  using assms
  by (auto simp: async_connect_to_def connect_socket_def Let_def split: sum.splits option.splits if_splits)

theorem async_connect_result_witness:
  "closed [Sys_socket, Sys_connect 9 0x0100007F 36895, Await 9 Writable False, Sys_getsockopt 9, Sys_close 9] = [9]"
proof -
  let ?K = "\<lambda>c. case c of Sys_socket \<Rightarrow> Inr 9 | Sys_connect _ _ _ \<Rightarrow> Inl EINPROGRESS
    | Sys_getsockopt _ \<Rightarrow> Inr 111 | _ \<Rightarrow> Inr 0"
  let ?pton = "\<lambda>h. Inr (Some 0x0100007F) :: int + 32 word option"
  have p: "?pton ''127.0.0.1'' = Inr (Some 0x0100007F)" and k: "?K Sys_socket = Inr 9" by simp_all
  have port: "unat (htons 8080) = 36895" by (simp add: htons_def)
  have r: "async_connect_to ?pton ?K (Some None) ''127.0.0.1'' 8080 =
      (Threw (System_error 111 ''connect''),
       [Sys_socket, Sys_connect 9 0x0100007F 36895, Await 9 Writable False, Sys_getsockopt 9, Sys_close 9])"
    by (simp add: async_connect_to_def connect_socket_def Let_def port)
  from async_connect_result [OF p k r] show ?thesis by simp
qed

section \<open>Relaying\<close>

function relay_loop ::
    "tcp_socket \<Rightarrow> tcp_socket \<Rightarrow> bytes \<Rightarrow> bytes turn list \<Rightarrow> nat turn list \<Rightarrow> pump_result" where
  "relay_loop from_s to_s buf rs ws =
     (case async_read from_s buf 8192 rs of (o1, rs', _) \<Rightarrow>
       (case o1 of
          Pending \<Rightarrow> (Pending, [], [], rs', ws)
        | Threw e \<Rightarrow> pump_failed e rs' ws
        | Returned (cnt, buf') \<Rightarrow>
            (if cnt = 0 then (Returned (), [], [], rs', ws)
             else (case async_write to_s (length (take cnt buf')) ws of (o2, ws', tr) \<Rightarrow>
               sent_before (wire (take cnt buf') tr (used_up ws ws'))
                 (case o2 of
                    Pending \<Rightarrow> (Pending, [], [], rs', ws')
                  | Threw e \<Rightarrow> pump_failed e rs' ws'
                  | Returned _ \<Rightarrow> relay_loop from_s to_s buf' rs' ws')))))"
  by pat_completeness auto
termination
  by (relation "measure (\<lambda>(f, t, buf, rs, ws). length rs)") (auto dest: read_shorter [OF sym])

declare relay_loop.simps [simp del]

interpretation relaying: byte_pump "\<lambda>buf. async_read f buf 8192" "async_write t" "relay_loop f t" for f t
  by unfold_locales
    (erule async_read_returned async_write_buffer, erule async_read_returned async_write_buffer,
     rule relay_loop.simps)

text \<open>
  The two sockets of a session are shared by its two relays. \<open>teardown\<close> is what follows the
  \<open>try\<close> block; it is reached when the loop ended or its exception was caught.
\<close>

record proxy_pair =
  from_sock :: tcp_socket
  to_sock :: tcp_socket

definition teardown :: "proxy_pair \<Rightarrow> io list \<times> proxy_pair" where
  "teardown p = (fst (tcp_close (from_sock p)) @ fst (tcp_close (to_sock p)),
     p\<lparr>from_sock := snd (tcp_close (from_sock p)), to_sock := snd (tcp_close (to_sock p))\<rparr>)"

definition relay :: "proxy_pair \<Rightarrow> bytes turn list \<Rightarrow> nat turn list \<Rightarrow> pump_result \<times> io list \<times> proxy_pair" where
  "relay p rs ws =
     (let r = relay_loop (from_sock p) (to_sock p) (replicate 8192 (CHR 0x00)) rs ws in
      case fst r of
        Returned _ \<Rightarrow> (r, teardown p)
      | _ \<Rightarrow> (r, [], p))"

text \<open>
  C17. A relay is faithful and closes both sides. At every moment the bytes that went to the one
  peer are a prefix of the bytes that came from the other, and all of them when the stream
  ended without an error. When the relay is over, it has closed both sockets, each once, after
  taking them out of the loop; while it is suspended it has closed none.
\<close>

theorem relay_copies_and_closes:
  assumes "relay p rs ws = ((out, log, sent, rs', ws'), tr, p')"
    and "tcp_valid (from_sock p)" and "tcp_valid (to_sock p)"
  shows "(\<exists>used rest. rs = used @ rest \<and> prefix sent (received used)
      \<and> (out = Returned () \<and> log = [] \<longrightarrow> sent = received used \<and> rest = rs'))
    \<and> closed tr = (if out = Returned () then [sock_fd (from_sock p), sock_fd (to_sock p)] else [])
    \<and> (tcp_valid (from_sock p') \<or> tcp_valid (to_sock p') \<longleftrightarrow> out \<noteq> Returned ())"
proof -
  let ?buf = "replicate 8192 (CHR 0x00)"
  from assms(1) have "relay_loop (from_sock p) (to_sock p) ?buf rs ws = (out, log, sent, rs', ws')"
    by (auto simp: relay_def Let_def split: outcome.splits)
  note copies = relaying.pump_copies [OF this]
  from assms have "closed tr = (if out = Returned () then [sock_fd (from_sock p), sock_fd (to_sock p)] else [])
    \<and> (tcp_valid (from_sock p') \<or> tcp_valid (to_sock p') \<longleftrightarrow> out \<noteq> Returned ())"
    by (auto simp: relay_def Let_def teardown_def tcp_close_def tcp_valid_def split: outcome.splits)
  with copies show ?thesis by blast
qed

theorem relay_copies_and_closes_witness:
  "closed [Loop_remove 7, Sys_close 7, Loop_remove 8, Sys_close 8] = [7, 8]"
proof -
  let ?p = "\<lparr>from_sock = accepted_socket 0 7, to_sock = accepted_socket 0 8\<rparr>"
  let ?rs = "[\<lparr>ret = Inr ''ab'', wake = None\<rparr>, \<lparr>ret = Inr [], wake = None\<rparr>]"
  have l: "relay_loop (accepted_socket 0 7) (accepted_socket 0 8) buf ?rs [\<lparr>ret = Inr 2, wake = None\<rparr>] =
      (Returned (), [], ''ab'', [], [])" for buf
    by (simp add: relay_loop.simps async_read_def async_write_def tcp_ensure_valid_def accepted_socket_def
        poke_def used_up_def wire_def taken_def)
  have r: "relay ?p ?rs [\<lparr>ret = Inr 2, wake = None\<rparr>] =
      ((Returned (), [], ''ab'', [], []), [Loop_remove 7, Sys_close 7, Loop_remove 8, Sys_close 8],
       \<lparr>from_sock = tcp_default, to_sock = tcp_default\<rparr>)"
    by (simp add: relay_def l Let_def) (simp add: teardown_def tcp_close_def accepted_socket_def tcp_default_def)
  from relay_copies_and_closes [OF r] show ?thesis by (simp add: tcp_valid_def)
qed

lemma waiting_remove: "0 \<le> fd \<Longrightarrow> waiting (remove H fd L) = (waiting L)(fd := (\<lambda>d. None))"
  by (auto simp: remove_def waiting_def fun_eq_iff)

text \<open>
  The teardown of one relay strands the other. The comment in \<open>relay\<close> expects that closing
  the sockets wakes the sibling, so that it exits. But a coroutine that is suspended in an
  operation on the two sockets is only known to the loop by their entries, and \<open>close\<close> erases
  these without resuming anybody: afterwards no waiter of the loop is the sibling, no callback
  was posted, its task is still kept, and no event on the descriptors resumes anything.
\<close>

theorem relay_strands_sibling:
  assumes "teardown p = (tr, p')" and "tcp_ensure_valid (from_sock p) = None" and "tcp_ensure_valid (to_sock p) = None"
    and "\<And>fd d. waiting L fd d = Some h \<Longrightarrow> fd = sock_fd (from_sock p) \<or> fd = sock_fd (to_sock p)"
    and "fd = sock_fd (from_sock p) \<or> fd = sock_fd (to_sock p)" and "fd \<noteq> wakeup_fd L"
  shows "(\<forall>fd' d. waiting (removes H tr L) fd' d \<noteq> Some h)
    \<and> pending (removes H tr L) = pending L \<and> tasks (removes H tr L) = tasks L
    \<and> dispatch H \<lparr>ev_events = events, ev_fd = fd\<rparr> (removes H tr L) = (None, removes H tr L)"
proof -
  let ?f = "sock_fd (from_sock p)" and ?t = "sock_fd (to_sock p)"
  from assms(2,3) have pos: "0 \<le> ?f" "0 \<le> ?t" "sock_loop (from_sock p) \<noteq> None" "sock_loop (to_sock p) \<noteq> None"
    by (auto simp: tcp_ensure_valid_def split: if_splits)
  then have tr: "removes H tr L = remove H ?t (remove H ?f L)"
    using assms(1) by (auto simp: teardown_def tcp_close_def)
  have "waiting (removes H tr L) fd' d \<noteq> Some h" for fd' d
    using pos assms(4) by (auto simp: tr waiting_remove)
  moreover have "states (removes H tr L) fd = None" "wakeup_fd (removes H tr L) = wakeup_fd L"
    using pos assms(5) by (auto simp: tr remove_def)
  then have "dispatch H \<lparr>ev_events = events, ev_fd = fd\<rparr> (removes H tr L) = (None, removes H tr L)"
    using assms(6) by (simp add: dispatch_def)
  ultimately show ?thesis by (simp add: tr remove_def)
qed

theorem relay_strands_sibling_witness:
  "waiting (removes example_host (fst (teardown \<lparr>from_sock = accepted_socket 0 7, to_sock = accepted_socket 0 8\<rparr>))
      (example_loop\<lparr>states := [8 \<mapsto> fd_state_init\<lparr>read_handle := Some 2\<rparr>]\<rparr>)) 8 Readable \<noteq> Some 2"
proof -
  let ?p = "\<lparr>from_sock = accepted_socket 0 7, to_sock = accepted_socket 0 8\<rparr>"
  let ?L = "example_loop\<lparr>states := [8 \<mapsto> fd_state_init\<lparr>read_handle := Some 2\<rparr>]\<rparr>"
  obtain tr p' where t: "teardown ?p = (tr, p')" by (metis surj_pair)
  have v: "tcp_ensure_valid (from_sock ?p) = None" "tcp_ensure_valid (to_sock ?p) = None"
    by (simp_all add: tcp_ensure_valid_def accepted_socket_def)
  have w: "\<And>fd d. waiting ?L fd d = Some 2 \<Longrightarrow> fd = sock_fd (from_sock ?p) \<or> fd = sock_fd (to_sock ?p)"
    by (auto simp: waiting_def accepted_socket_def split: if_splits)
  have f: "(7 :: int) = sock_fd (from_sock ?p) \<or> 7 = sock_fd (to_sock ?p)" and u: "7 \<noteq> wakeup_fd ?L"
    by (simp_all add: example_loop_def)
  from relay_strands_sibling [OF t v w f u, where H = example_host and events = 0] t show ?thesis by simp
qed

section \<open>Sessions\<close>

text \<open>
  A session connects to the backend; then it spawns the relay from the client and awaits the
  relay to it. The two coroutines share nothing but the sockets and never run at the same time:
  each is a \<open>relay\<close> over its own turns, which end where the other one tears down. When the
  session ends early, its frame is destroyed and with it the client's socket.
\<close>

datatype session =
    Connecting
  | Failed "unit outcome" "exn list"
  | Relaying proxy_pair proxy_pair

definition handle_session ::
    "(bytes \<Rightarrow> int + 32 word option) \<Rightarrow> kernel_answers \<Rightarrow> exn option option \<Rightarrow> nat
       \<Rightarrow> tcp_socket \<Rightarrow> bytes \<Rightarrow> 16 word \<Rightarrow> session \<times> io list" where
  "handle_session inet_pton K ready loop client host port =
     (case async_connect_to inet_pton K ready host port of (out, tr) \<Rightarrow>
       (case out of
          Pending \<Rightarrow> (Connecting, tr)
        | Threw e \<Rightarrow> (Failed (fst (caught e)) (snd (caught e)), tr @ fst (tcp_close client))
        | Returned backend_fd \<Rightarrow>
            (case tcp_socket_new loop backend_fd of
               Inl e \<Rightarrow> (Failed (fst (caught e)) (snd (caught e)), tr @ fst (tcp_close client))
             | Inr backend \<Rightarrow>
                 (Relaying \<lparr>from_sock = client, to_sock = backend\<rparr> \<lparr>from_sock = backend, to_sock = client\<rparr>, tr))))"

text \<open>
  A session either relays in both directions between the client and the backend, with
  nothing closed, or has failed, and then it has closed the client's socket and, unless the
  wait itself threw, the one it opened. A standard exception is logged and does not get out.
\<close>

theorem session_result:
  assumes "pton host = Inr (Some a)" and "K Sys_socket = Inr fd" and "0 \<le> fd" and "tcp_valid client"
    and "\<And>ex. ready \<noteq> Some (Some ex)" and "handle_session pton K ready loop client host port = (r, tr)"
  shows "case r of
      Relaying there back \<Rightarrow> there = \<lparr>from_sock = client, to_sock = accepted_socket loop fd\<rparr>
        \<and> back = \<lparr>from_sock = accepted_socket loop fd, to_sock = client\<rparr> \<and> closed tr = []
    | Failed out log \<Rightarrow> out = Returned () \<and> length log = 1 \<and> closed tr = [fd, sock_fd client]
    | Connecting \<Rightarrow> ready = None \<and> closed tr = []"
  using assms
  by (auto simp: handle_session_def async_connect_to_def connect_socket_def Let_def tcp_socket_new_def accepted_socket_def
      tcp_close_def tcp_valid_def caught_def split: sum.splits option.splits if_splits)

theorem session_result_witness:
  "closed [Sys_socket, Sys_connect 9 0x0100007F 36895, Sys_close 9, Loop_remove 7, Sys_close 7] = [9, 7]"
proof -
  let ?K = "\<lambda>c. case c of Sys_socket \<Rightarrow> Inr 9 | Sys_connect _ _ _ \<Rightarrow> Inl 111 | _ \<Rightarrow> Inr 0"
  let ?pton = "\<lambda>h. Inr (Some 0x0100007F) :: int + 32 word option" and ?c = "accepted_socket 0 7"
  have p: "?pton ''127.0.0.1'' = Inr (Some 0x0100007F)" and k: "?K Sys_socket = Inr 9" "(0 :: int) \<le> 9"
    and v: "tcp_valid ?c" and n: "\<And>ex. (None :: exn option option) \<noteq> Some (Some ex)" by simp_all
  have port: "unat (htons 8080) = 36895" by (simp add: htons_def)
  have r: "handle_session ?pton ?K None 0 ?c ''127.0.0.1'' 8080 =
      (Failed (Returned ()) [System_error 111 ''connect''],
       [Sys_socket, Sys_connect 9 0x0100007F 36895, Sys_close 9, Loop_remove 7, Sys_close 7])"
    by (simp add: handle_session_def async_connect_to_def connect_socket_def Let_def port caught_def tcp_close_def accepted_socket_def)
  from session_result [OF p k v n r] show ?thesis by simp
qed

section \<open>The accept loop\<close>

text \<open>
  Each connection is handed to a session of its own, with a copy of the host and the port of
  the backend: a spawned session is kept as the arguments it was started with.
\<close>

type_synonym session_args = "tcp_socket \<times> bytes \<times> 16 word"

function proxy_accept_and_handle ::
    "tcp_server \<Rightarrow> bytes \<Rightarrow> 16 word \<Rightarrow> fd turn list \<Rightarrow> session_args serve_result" where
  "proxy_accept_and_handle s backend_host backend_port ts = (case async_accept_fd s ts of (out, rest, _) \<Rightarrow>
     (case out of
        Pending \<Rightarrow> (Pending, [], False, [])
      | Threw e \<Rightarrow> serve_failed e
      | Returned client_fd \<Rightarrow>
          (case tcp_socket_new (serv_loop s) client_fd of
             Inl e \<Rightarrow> serve_failed e
           | Inr client \<Rightarrow> spawned [(client, backend_host, backend_port)]
               (proxy_accept_and_handle s backend_host backend_port rest))))"
  by pat_completeness auto
termination
  by (relation "measure (\<lambda>(s, h, p, ts). length ts)") (auto dest: async_accept_fd_shorter [OF sym])

declare proxy_accept_and_handle.simps [simp del]

text \<open>It accepts as the other servers do, and every session gets the configured backend.\<close>

lemma proxy_accepts_alike:
  "proxy_accept_and_handle s host port ts = (case accept_and_handle s ts of
     (out, log, stp, socks) \<Rightarrow> (out, log, stp, map (\<lambda>c. (c, host, port)) socks))"
proof (induction s host port ts rule: proxy_accept_and_handle.induct)
  case (1 s host port ts)
  then show ?case
    by (subst proxy_accept_and_handle.simps, subst accept_and_handle.simps)
       (auto simp: serve_failed_def split: prod.splits outcome.splits sum.splits)
qed

end
