(* ===== verification/Proxy_Sessions.thy ===== *)
theory Proxy_Sessions
  imports Proxy_Server
begin

text \<open>
  The two relays of a proxy session on one event loop. \<open>handle_session\<close> spawns the relay from
  the client and then awaits the relay to it; both run on the thread of the loop, one at a
  time, and share the two sockets. The steps below are the pieces of the two coroutines
  between suspensions, in every order that the loop can bring about: a suspended relay goes on
  only when the table of the loop still knows it.
\<close>

section \<open>State\<close>

datatype side = There | Back   \<comment> \<open>client to backend, and backend to client\<close>

fun sibling :: "side \<Rightarrow> side" where
  "sibling There = Back"
| "sibling Back = There"

text \<open>
  A relay that has run keeps the turns it has used up to its suspension; \<open>relay\<close> over these
  turns and the next ones is what it does when it is resumed. \<open>Broken\<close> is a relay that was
  left by an exception it does not catch.
\<close>

datatype relay_state =
    Unborn
  | Suspended "bytes turn list" "nat turn list"
  | Finished
  | Broken exn

record proxy_session =
  pair :: proxy_pair
  progress :: "side \<Rightarrow> relay_state"
  table :: "fd \<Rightarrow> direction \<Rightarrow> side option"

fun oriented :: "side \<Rightarrow> proxy_pair \<Rightarrow> proxy_pair" where
  "oriented There p = p"
| "oriented Back p = \<lparr>from_sock = to_sock p, to_sock = from_sock p\<rparr>"

definition new_session :: "proxy_pair \<Rightarrow> proxy_session" where
  "new_session p = \<lparr>pair = p, progress = (\<lambda>_. Unborn), table = (\<lambda>_ _. None)\<rparr>"

section \<open>Steps\<close>

text \<open>Where a suspended relay waits: for input of its source or for room at its destination.\<close>

definition wait_points :: "proxy_pair \<Rightarrow> (fd \<times> direction) list" where
  "wait_points p = [(sock_fd (from_sock p), Readable), (sock_fd (to_sock p), Writable)]"

fun forget_removed :: "io list \<Rightarrow> (fd \<Rightarrow> direction \<Rightarrow> side option) \<Rightarrow> fd \<Rightarrow> direction \<Rightarrow> side option" where
  "forget_removed [] tb = tb"
| "forget_removed (Loop_remove fd # tr) tb = forget_removed tr (tb(fd := (\<lambda>_. None)))"
| "forget_removed (_ # tr) tb = forget_removed tr tb"

definition set_waiter ::
    "fd \<Rightarrow> direction \<Rightarrow> side option \<Rightarrow> (fd \<Rightarrow> direction \<Rightarrow> side option) \<Rightarrow> fd \<Rightarrow> direction \<Rightarrow> side option" where
  "set_waiter fd d w tb = tb(fd := (tb fd)(d := w))"

definition run_relay ::
    "side \<Rightarrow> fd \<times> direction \<Rightarrow> bytes turn list \<Rightarrow> nat turn list \<Rightarrow> proxy_session \<Rightarrow> proxy_session" where
  "run_relay sd point rs ws s =
     (case relay (oriented sd (pair s)) rs ws of ((out, _), tr, p') \<Rightarrow>
       (case out of
          Returned _ \<Rightarrow> s\<lparr>pair := oriented sd p', progress := (progress s)(sd := Finished),
                         table := forget_removed tr (table s)\<rparr>
        | Threw e \<Rightarrow> s\<lparr>progress := (progress s)(sd := Broken e)\<rparr>
        | Pending \<Rightarrow> s\<lparr>progress := (progress s)(sd := Suspended rs ws),
                      table := set_waiter (fst point) (snd point) (Some sd) (table s)\<rparr>))"

inductive session_step :: "proxy_session \<Rightarrow> proxy_session \<Rightarrow> bool" where
  spawn_there: "progress s There = Unborn \<Longrightarrow> point \<in> set (wait_points (oriented There (pair s))) \<Longrightarrow>
     session_step s (run_relay There point rs ws s)"
| await_back: "progress s There \<noteq> Unborn \<Longrightarrow> progress s Back = Unborn \<Longrightarrow>
     point \<in> set (wait_points (oriented Back (pair s))) \<Longrightarrow>
     session_step s (run_relay Back point rs ws s)"
| resume_relay: "progress s Back \<noteq> Unborn \<Longrightarrow> progress s sd = Suspended rs ws \<Longrightarrow>
     table s fd d = Some sd \<Longrightarrow> point \<in> set (wait_points (oriented sd (pair s))) \<Longrightarrow>
     session_step s (run_relay sd point (rs @ rs') (ws @ ws') (s\<lparr>table := set_waiter fd d None (table s)\<rparr>))"

inductive_cases session_stepE: "session_step s s'"

inductive session_reach :: "proxy_pair \<Rightarrow> proxy_session \<Rightarrow> bool" for p where
  session_start: "session_reach p (new_session p)"
| session_more: "session_reach p s \<Longrightarrow> session_step s s' \<Longrightarrow> session_reach p s'"

section \<open>The invariant\<close>

definition pair_open :: "proxy_pair \<Rightarrow> bool" where
  "pair_open p \<longleftrightarrow> tcp_ensure_valid (from_sock p) = None \<and> tcp_ensure_valid (to_sock p) = None"

definition pair_closed :: "proxy_pair \<Rightarrow> bool" where
  "pair_closed p \<longleftrightarrow> sock_fd (from_sock p) = - 1 \<and> sock_fd (to_sock p) = - 1"

lemma oriented_simps [simp]:
  "oriented sd (oriented sd p) = p" "pair_open (oriented sd p) = pair_open p"
  "pair_closed (oriented sd p) = pair_closed p"
  by (cases sd; auto simp: pair_open_def pair_closed_def)+

lemma open_not_closed: "pair_open p \<Longrightarrow> \<not> pair_closed p"
  by (auto simp: pair_open_def pair_closed_def tcp_ensure_valid_def)

definition session_inv :: "proxy_session \<Rightarrow> bool" where
  "session_inv s \<longleftrightarrow>
     (pair_open (pair s) \<and> (\<forall>sd. progress s sd \<noteq> Finished)
        \<and> (\<forall>fd d. table s fd d \<noteq> None \<longrightarrow> fd \<in> set (map fst (wait_points (pair s))))
      \<or> pair_closed (pair s) \<and> table s = (\<lambda>_ _. None))
   \<and> (progress s There = Unborn \<longrightarrow> progress s Back = Unborn)"

text \<open>A relay on open sockets tears both down when it is over; on closed ones it ends at once.\<close>

lemma relay_open:
  assumes "relay p rs ws = ((out, left), tr, p')" and "pair_open p"
  shows "(out = Returned () \<and> pair_closed p'
      \<and> tr = [Loop_remove (sock_fd (from_sock p)), Sys_close (sock_fd (from_sock p)),
              Loop_remove (sock_fd (to_sock p)), Sys_close (sock_fd (to_sock p))])
    \<or> (out \<noteq> Returned () \<and> tr = [] \<and> p' = p)"
  using assms
  by (auto simp: relay_def Let_def teardown_def tcp_close_def pair_open_def pair_closed_def
      tcp_ensure_valid_def split: outcome.splits if_splits)

lemma relay_closed:
  assumes "relay p rs ws = ((out, left), tr, p')" and "pair_closed p"
  shows "out = Returned () \<and> tr = [] \<and> p' = p"
proof -
  have "tcp_ensure_valid (from_sock p) \<noteq> None" "tcp_ensure_valid (from_sock p) = Some (Runtime_error ''invalid TcpSocket'')"
    using assms(2) by (auto simp: tcp_ensure_valid_def pair_closed_def)
  then have "fst (relay_loop (from_sock p) (to_sock p) buf rs ws) = Returned ()" for buf
    by (simp add: relay_loop.simps [of _ _ buf] async_read_def pump_failed_def caught_def)
  then obtain l where "relay_loop (from_sock p) (to_sock p) (replicate 8192 (CHR 0x00)) rs ws = (Returned (), l)"
    by (metis prod.collapse)
  with assms show ?thesis
    by (auto simp: relay_def Let_def teardown_def tcp_close_def pair_closed_def)
qed

lemma forget_both: "\<forall>fd d. tb fd d \<noteq> None \<longrightarrow> fd = a \<or> fd = b \<Longrightarrow>
    forget_removed [Loop_remove a, Sys_close a, Loop_remove b, Sys_close b] tb = (\<lambda>_ _. None)"
  by (fastforce simp: fun_eq_iff)

lemma wait_points_oriented: "set (map fst (wait_points (oriented sd p))) = set (map fst (wait_points p))"
  by (cases sd) (auto simp: wait_points_def)

lemma oriented_ends:
  "\<forall>fd d. tb fd d \<noteq> None \<longrightarrow> fd \<in> set (map fst (wait_points p)) \<Longrightarrow>
     \<forall>fd d. tb fd d \<noteq> None \<longrightarrow> fd = sock_fd (from_sock (oriented sd p)) \<or> fd = sock_fd (to_sock (oriented sd p))"
  by (cases sd) (auto simp: wait_points_def)

text \<open>What one piece of a relay does to a session.\<close>

lemma run_relay_open:
  assumes "pair_open (pair s)" and "\<forall>fd d. table s fd d \<noteq> None \<longrightarrow> fd \<in> set (map fst (wait_points (pair s)))"
    and "point \<in> set (wait_points (oriented sd (pair s)))"
  shows "(\<exists>p. run_relay sd point rs ws s =
        s\<lparr>pair := p, progress := (progress s)(sd := Finished), table := (\<lambda>_ _. None)\<rparr> \<and> pair_closed p)
    \<or> (\<exists>e. run_relay sd point rs ws s = s\<lparr>progress := (progress s)(sd := Broken e)\<rparr>)
    \<or> (\<exists>tb. run_relay sd point rs ws s = s\<lparr>progress := (progress s)(sd := Suspended rs ws), table := tb\<rparr>
        \<and> (\<forall>fd d. tb fd d \<noteq> None \<longrightarrow> fd \<in> set (map fst (wait_points (pair s)))))"
proof -
  let ?p = "oriented sd (pair s)"
  obtain out left tr p' where r: "relay ?p rs ws = ((out, left), tr, p')" by (metis surj_pair)
  have op: "pair_open ?p" using assms(1) by simp
  show ?thesis
  proof (cases out)
    case (Returned u)
    with relay_open [OF r op] have "pair_closed p'"
      "tr = [Loop_remove (sock_fd (from_sock ?p)), Sys_close (sock_fd (from_sock ?p)),
             Loop_remove (sock_fd (to_sock ?p)), Sys_close (sock_fd (to_sock ?p))]" by auto
    with forget_both [OF oriented_ends [OF assms(2)], of sd] r Returned show ?thesis
      by (intro disjI1 exI [of _ "oriented sd p'"]) (simp add: run_relay_def)
  next
    case (Threw e)
    with r show ?thesis by (intro disjI2 [OF disjI1] exI [of _ e]) (simp add: run_relay_def)
  next
    case Pending
    have "fst point \<in> set (map fst (wait_points (pair s)))"
      using assms(3) wait_points_oriented [of sd "pair s"] by (metis (no_types) image_eqI set_map)
    with assms(2) have "\<forall>fd d. set_waiter (fst point) (snd point) (Some sd) (table s) fd d \<noteq> None \<longrightarrow>
        fd \<in> set (map fst (wait_points (pair s)))" by (auto simp: set_waiter_def)
    with r Pending show ?thesis
      by (intro disjI2 exI [of _ "set_waiter (fst point) (snd point) (Some sd) (table s)"])
         (simp add: run_relay_def)
  qed
qed

lemma run_relay_closed:
  assumes "pair_closed (pair s)"
  shows "run_relay sd point rs ws s = s\<lparr>progress := (progress s)(sd := Finished)\<rparr>"
proof -
  obtain out left tr p' where r: "relay (oriented sd (pair s)) rs ws = ((out, left), tr, p')" by (metis surj_pair)
  with relay_closed [OF r] assms show ?thesis by (simp add: run_relay_def)
qed

text \<open>The piece keeps the invariant, whichever relay runs.\<close>

lemma run_relay_inv:
  assumes "session_inv s" and "point \<in> set (wait_points (oriented sd (pair s)))"
    and "sd = Back \<longrightarrow> progress s There \<noteq> Unborn"
  shows "session_inv (run_relay sd point rs ws s)"
proof (cases "pair_closed (pair s)")
  case True
  with assms show ?thesis
    using open_not_closed by (cases sd) (auto simp: run_relay_closed session_inv_def)
next
  case False
  with assms(1) have op: "pair_open (pair s)" and tb: "\<forall>fd d. table s fd d \<noteq> None \<longrightarrow> fd \<in> set (map fst (wait_points (pair s)))"
    and nf: "\<forall>sd. progress s sd \<noteq> Finished" and born: "progress s There = Unborn \<longrightarrow> progress s Back = Unborn"
    by (auto simp: session_inv_def)
  from run_relay_open [OF op tb assms(2), of rs ws] show ?thesis
    using op tb nf born assms(3) by (cases sd) (elim disjE exE conjE; simp add: session_inv_def)+
qed

lemma session_inv_step: "session_step s s' \<Longrightarrow> session_inv s \<Longrightarrow> session_inv s'"
proof (induction rule: session_step.induct)
  case (resume_relay s sd rs ws fd d point rs' ws')
  let ?s = "s\<lparr>table := set_waiter fd d None (table s)\<rparr>"
  have "\<not> pair_closed (pair s)"
    using resume_relay open_not_closed by (auto simp: session_inv_def)
  with resume_relay(5) have inv: "pair_open (pair s)" "\<forall>sd. progress s sd \<noteq> Finished"
    "\<forall>fd d. table s fd d \<noteq> None \<longrightarrow> fd \<in> set (map fst (wait_points (pair s)))" "progress s There = Unborn \<longrightarrow> progress s Back = Unborn"
    by (auto simp: session_inv_def)
  moreover have "table s fd d \<noteq> None" using resume_relay by simp
  ultimately have "\<forall>fd' d'. set_waiter fd d None (table s) fd' d' \<noteq> None \<longrightarrow> fd' \<in> set (map fst (wait_points (pair s)))"
    unfolding set_waiter_def by (metis fun_upd_apply)
  with inv have "session_inv ?s" by (simp add: session_inv_def)
  moreover have "progress s There \<noteq> Unborn" using resume_relay by (auto simp: session_inv_def)
  ultimately show ?case using resume_relay by (intro run_relay_inv) auto
qed (auto intro!: run_relay_inv)

lemma session_reach_inv: "session_reach p s \<Longrightarrow> pair_open p \<Longrightarrow> session_inv s"
proof (induction rule: session_reach.induct)
  case session_start
  then show ?case by (simp add: new_session_def session_inv_def)
qed (blast intro: session_inv_step)

lemma run_relay_sibling: "sd' \<noteq> sd \<Longrightarrow> progress (run_relay sd point rs ws s) sd' = progress s sd'"
  by (simp add: run_relay_def split: prod.split outcome.split)

lemma sibling_neq [simp]: "sibling sd \<noteq> sd" "sd \<noteq> sibling sd"
  by (cases sd; simp)+

lemma finished_closed:
  "session_inv s \<Longrightarrow> progress s sd = Finished \<Longrightarrow> pair_closed (pair s) \<and> table s = (\<lambda>_ _. None)"
  by (auto simp: session_inv_def)

text \<open>Once one relay is over, the other is not resumed any more.\<close>

lemma stuck_session:
  assumes "session_inv s" and "progress s sd = Finished" and "progress s (sibling sd) \<noteq> Unborn"
  shows "\<not> session_step s s'"
proof
  have born: "progress s There \<noteq> Unborn" "progress s Back \<noteq> Unborn" using assms(2,3) by (cases sd; simp)+
  assume "session_step s s'"
  then show False using born finished_closed [OF assms(1,2)] by (cases rule: session_stepE) auto
qed

lemma both_finished:
  assumes "session_reach p s" and "pair_open p" and "progress s There = Finished" and "progress s Back = Finished"
  shows "\<exists>s0. session_reach p s0 \<and> session_step s0 s \<and> progress s0 There = Finished \<and> progress s0 Back = Unborn"
  using assms
proof (cases rule: session_reach.cases)
  case session_start
  with assms(3) show ?thesis by (simp add: new_session_def)
next
  case (session_more s0)
  note inv = session_reach_inv [OF session_more(1) assms(2)]
  from session_more(2) have "progress s0 There = Finished \<and> progress s0 Back = Unborn"
  proof (cases rule: session_step.cases)
    case (spawn_there point rs ws)
    with inv assms(4) show ?thesis by (simp add: run_relay_sibling session_inv_def)
  next
    case (await_back point rs ws)
    with assms(3) show ?thesis by (simp add: run_relay_sibling)
  next
    case (resume_relay sd rs ws fd d point rs' ws')
    have "progress s0 (sibling sd) = Finished"
      using resume_relay(1) assms(3,4) by (cases sd) (simp_all add: run_relay_sibling)
    with finished_closed [OF inv] resume_relay(4) show ?thesis by fastforce
  qed
  with session_more show ?thesis by blast
qed

section \<open>Properties\<close>



end
