(* ===== verification/Portable_Sockets.thy ===== *)
theory Portable_Sockets
  imports Proxy_Server
begin

unbundle bit_operations_syntax

text \<open>
  \<open>tcp.hpp\<close>, \<open>udp.hpp\<close> and the proxy's connect in the configuration of macOS: there are no
  \<open>SOCK_NONBLOCK\<close>, \<open>SOCK_CLOEXEC\<close> and \<open>accept4\<close>, so a descriptor is made first and then switched
  by \<open>fcntl\<close>, and \<open>SO_NOSIGPIPE\<close> exists, so \<open>disable_sigpipe\<close> makes a call. Every one of these
  calls can fail, and the handlers around them have to give the descriptor back.

  The operations of the classes that do not depend on the configuration are those of \<open>Tcp\<close> and
  \<open>Udp\<close>. The last section compares the two configurations.
\<close>

section \<open>Calls in sequence\<close>

text \<open>
  A sequence of system calls under given answers of the kernel: it ends with the first
  exception, and gives the calls it made.
\<close>

type_synonym 'a sys = "kernel_answers \<Rightarrow> (exn + 'a) \<times> io list"

definition sys_call :: "io \<Rightarrow> string \<Rightarrow> int sys" where
  "sys_call c what K = (case K c of Inl e \<Rightarrow> Inl (System_error e what) | Inr x \<Rightarrow> Inr x, [c])"

definition sys_return :: "'a \<Rightarrow> 'a sys" where
  "sys_return x K = (Inr x, [])"

definition sys_then :: "'a sys \<Rightarrow> ('a \<Rightarrow> 'b sys) \<Rightarrow> 'b sys" where
  "sys_then m k K = (case m K of
      (Inl e, tr) \<Rightarrow> (Inl e, tr)
    | (Inr x, tr) \<Rightarrow> (case k x K of (r, tr') \<Rightarrow> (r, tr @ tr')))"

text \<open>\<open>try { m } catch (...) { cleanup; throw; }\<close>.\<close>

definition sys_cleanup :: "'a sys \<Rightarrow> io list \<Rightarrow> 'a sys" where
  "sys_cleanup m cleanup K = (case m K of
      (Inl e, tr) \<Rightarrow> (Inl e, tr @ cleanup)
    | (Inr x, tr) \<Rightarrow> (Inr x, tr))"

lemmas sys_defs = sys_call_def sys_return_def sys_then_def sys_cleanup_def

section \<open>Switching a descriptor\<close>

text \<open>\<open>O_NONBLOCK\<close> is 4 and \<open>FD_CLOEXEC\<close> is 1 on macOS.\<close>

definition sys_set_non_blocking :: "fd \<Rightarrow> int sys" where
  "sys_set_non_blocking fd =
     sys_then (sys_call (Sys_fcntl fd ''F_GETFL'' 0) ''fcntl F_GETFL'') (\<lambda>flags.
       sys_call (Sys_fcntl fd ''F_SETFL'' (flags OR 4)) ''fcntl F_SETFL'')"

definition sys_set_close_on_exec :: "fd \<Rightarrow> int sys" where
  "sys_set_close_on_exec fd =
     sys_then (sys_call (Sys_fcntl fd ''F_GETFD'' 0) ''fcntl F_GETFD'') (\<lambda>flags.
       sys_call (Sys_fcntl fd ''F_SETFD'' (flags OR 1)) ''fcntl F_SETFD'')"

definition disable_sigpipe :: "fd \<Rightarrow> int sys" where
  "disable_sigpipe fd = sys_call (Sys_setsockopt fd ''SO_NOSIGPIPE'') ''setsockopt SO_NOSIGPIPE''"

text \<open>\<open>UdpSocket\<close> has private versions of the first two, over its own descriptor.\<close>

definition udp_set_non_blocking :: "udp_socket \<Rightarrow> int sys" where
  "udp_set_non_blocking s =
     sys_then (sys_call (Sys_fcntl (udp_fd s) ''F_GETFL'' 0) ''fcntl F_GETFL'') (\<lambda>flags.
       sys_call (Sys_fcntl (udp_fd s) ''F_SETFL'' (flags OR 4)) ''fcntl F_SETFL'')"

definition udp_set_close_on_exec :: "udp_socket \<Rightarrow> int sys" where
  "udp_set_close_on_exec s =
     sys_then (sys_call (Sys_fcntl (udp_fd s) ''F_GETFD'' 0) ''fcntl F_GETFD'') (\<lambda>flags.
       sys_call (Sys_fcntl (udp_fd s) ''F_SETFD'' (flags OR 1)) ''fcntl F_SETFD'')"

lemmas switch_defs = sys_set_non_blocking_def sys_set_close_on_exec_def disable_sigpipe_def
  udp_set_non_blocking_def udp_set_close_on_exec_def

text \<open>The calls behind the switches: two options, \<open>bind\<close>, and for a server \<open>listen\<close>.\<close>

definition announce_bound :: "fd \<Rightarrow> 16 word \<Rightarrow> bool \<Rightarrow> int sys" where
  "announce_bound fd port reuse_port =
     sys_then (sys_call (Sys_setsockopt fd ''SO_REUSEADDR'') ''setsockopt SO_REUSEADDR'') (\<lambda>_.
     sys_then (if reuse_port
               then sys_call (Sys_setsockopt fd ''SO_REUSEPORT'') ''setsockopt SO_REUSEPORT''
               else sys_return 0) (\<lambda>_.
     sys_call (Sys_bind fd (unat (htons port))) ''bind''))"

definition announce_server :: "fd \<Rightarrow> 16 word \<Rightarrow> int \<Rightarrow> bool \<Rightarrow> int sys" where
  "announce_server fd port backlog reuse_port =
     sys_then (announce_bound fd port reuse_port) (\<lambda>_. sys_call (Sys_listen fd backlog) ''listen'')"

section \<open>TcpServer\<close>

text \<open>
  \<open>listen\<close>: \<open>disable_sigpipe\<close> stands before the \<open>try\<close> block of the switches, and the calls after
  it have no handler either; a failure there leaves the descriptor in the server.
\<close>

definition portable_listen ::
    "kernel_answers \<Rightarrow> tcp_server \<Rightarrow> 16 word \<Rightarrow> int \<Rightarrow> bool \<Rightarrow> exn option \<times> tcp_server \<times> io list" where
  "portable_listen K s port backlog reuse_port =
     (let (closing, s0) = server_close s in
      case K Sys_socket of
        Inl e \<Rightarrow> (Some (System_error e ''socket''), s0\<lparr>serv_fd := - 1\<rparr>, closing @ [Sys_socket])
      | Inr fd \<Rightarrow>
          let s1 = s0\<lparr>serv_fd := fd\<rparr>; made = closing @ [Sys_socket]
          in (case disable_sigpipe fd K of
                (Inl e, tr1) \<Rightarrow> (Some e, s1, made @ tr1)
              | (Inr _, tr1) \<Rightarrow>
                  (case sys_cleanup (sys_then (sys_set_non_blocking fd) (\<lambda>_. sys_set_close_on_exec fd))
                          [Sys_close fd] K of
                     (Inl e, tr2) \<Rightarrow> (Some e, s1\<lparr>serv_fd := - 1\<rparr>, made @ tr1 @ tr2)
                   | (Inr _, tr2) \<Rightarrow>
                       (case announce_server fd port backlog reuse_port K of
                          (Inl e, tr3) \<Rightarrow> (Some e, s1, made @ tr1 @ tr2 @ tr3)
                        | (Inr _, tr3) \<Rightarrow> (None, s1, made @ tr1 @ tr2 @ tr3)))))"

text \<open>What is done to a connection after \<open>accept\<close>; the handler closes it.\<close>

definition prepare_client :: "fd \<Rightarrow> int sys" where
  "prepare_client fd =
     sys_cleanup (sys_then (disable_sigpipe fd) (\<lambda>_.
                  sys_then (sys_set_non_blocking fd) (\<lambda>_. sys_set_close_on_exec fd)))
       [Sys_close fd]"

fun portable_accept_loop :: "kernel_answers \<Rightarrow> fd \<Rightarrow> fd turn list \<Rightarrow> (fd, fd) run" where
  "portable_accept_loop K fd [] = (Pending, [], [])"
| "portable_accept_loop K fd (t # ts) = (case ret t of
      Inr client_fd \<Rightarrow>
        (case prepare_client client_fd K of
           (Inl e, tr) \<Rightarrow> (Threw e, ts, Accept fd # tr)
         | (Inr _, tr) \<Rightarrow> (Returned client_fd, ts, Accept fd # tr))
    | Inl e \<Rightarrow>
        (if e = EINTR then emit [Accept fd] (portable_accept_loop K fd ts)
         else if e = EAGAIN \<or> e = EWOULDBLOCK then
           (case wake t of
              None \<Rightarrow> emit [Accept fd, Await fd Readable False] (portable_accept_loop K fd ts)
            | Some ex \<Rightarrow> (Threw ex, ts, [Accept fd, Await fd Readable False]))
         else (Threw (System_error e ''accept''), ts, [Accept fd])))"

definition portable_accept_fd :: "kernel_answers \<Rightarrow> tcp_server \<Rightarrow> fd turn list \<Rightarrow> (fd, fd) run" where
  "portable_accept_fd K s = guarded (server_ensure_valid s) (portable_accept_loop K (serv_fd s))"

fun portable_accept_et_loop ::
    "kernel_answers \<Rightarrow> nat \<Rightarrow> fd \<Rightarrow> tcp_socket list \<Rightarrow> fd turn list \<Rightarrow> (fd, tcp_socket list) run" where
  "portable_accept_et_loop K loop fd sockets [] = (Pending, [], [])"
| "portable_accept_et_loop K loop fd sockets (t # ts) = (case ret t of
      Inr client_fd \<Rightarrow>
        (case prepare_client client_fd K of
           (Inl e, tr) \<Rightarrow> (Threw e, ts, Accept fd # tr @ close_sockets sockets)
         | (Inr _, tr) \<Rightarrow>
             (case tcp_socket_new loop client_fd of
                Inl ex \<Rightarrow> (Threw ex, ts, Accept fd # tr @ close_sockets sockets)
              | Inr sock \<Rightarrow>
                  emit (Accept fd # tr) (portable_accept_et_loop K loop fd (sockets @ [sock]) ts)))
    | Inl e \<Rightarrow>
        (if e = EINTR then emit [Accept fd] (portable_accept_et_loop K loop fd sockets ts)
         else if e = EAGAIN \<or> e = EWOULDBLOCK then (Returned sockets, ts, [Accept fd])
         else (Threw (System_error e ''accept''), ts, Accept fd # close_sockets sockets)))"

definition portable_accept_et ::
    "kernel_answers \<Rightarrow> tcp_server \<Rightarrow> exn option option \<Rightarrow> fd turn list \<Rightarrow> (fd, tcp_socket list) run" where
  "portable_accept_et K s ready =
     guarded (server_ensure_valid s) (\<lambda>ts. (case ready of
         None \<Rightarrow> (Pending, ts, [Await (serv_fd s) Readable True])
       | Some (Some ex) \<Rightarrow> (Threw ex, ts, [Await (serv_fd s) Readable True])
       | Some None \<Rightarrow>
           emit [Await (serv_fd s) Readable True]
             (portable_accept_et_loop K (serv_loop s) (serv_fd s) [] ts)))"

section \<open>UdpSocket and the proxy\<close>

text \<open>All calls of \<open>bind\<close> behind \<open>socket\<close> are in the \<open>try\<close> block.\<close>

definition portable_bind ::
    "kernel_answers \<Rightarrow> udp_socket \<Rightarrow> 16 word \<Rightarrow> bool \<Rightarrow> exn option \<times> udp_socket \<times> io list" where
  "portable_bind K s port reuse_port =
     (let (closing, s0) = udp_close s in
      case K Sys_socket of
        Inl e \<Rightarrow> (Some (System_error e ''socket''), s0\<lparr>udp_fd := - 1\<rparr>, closing @ [Sys_socket])
      | Inr fd \<Rightarrow>
          let s1 = s0\<lparr>udp_fd := fd\<rparr>; made = closing @ [Sys_socket]
          in (case sys_cleanup (sys_then (udp_set_non_blocking s1) (\<lambda>_.
                     sys_then (udp_set_close_on_exec s1) (\<lambda>_.
                     announce_bound fd port reuse_port))) [Sys_close fd] K of
                (Inl e, tr) \<Rightarrow> (Some e, s1\<lparr>udp_fd := - 1\<rparr>, made @ tr)
              | (Inr _, tr) \<Rightarrow> (None, s1, made @ tr)))"

definition portable_connect_to ::
    "(bytes \<Rightarrow> int + 32 word option) \<Rightarrow> kernel_answers \<Rightarrow> exn option option \<Rightarrow> bytes \<Rightarrow> 16 word
       \<Rightarrow> fd outcome \<times> io list" where
  "portable_connect_to inet_pton K ready host port = (case inet_pton host of
      Inr (Some a) \<Rightarrow>
        (case K Sys_socket of
           Inl e \<Rightarrow> (Threw (System_error e ''socket''), [Sys_socket])
         | Inr fd \<Rightarrow>
             (case prepare_client fd K of
                (Inl e, tr) \<Rightarrow> (Threw e, Sys_socket # tr)
              | (Inr _, tr) \<Rightarrow>
                  (case connect_socket K ready fd a port of (out, tr') \<Rightarrow> (out, Sys_socket # tr @ tr'))))
    | _ \<Rightarrow> (Threw (Runtime_error (''invalid address: '' @ host)), []))"

section \<open>No descriptor gets lost\<close>

text \<open>The kernel grants all switches of a descriptor.\<close>

definition switched :: "kernel_answers \<Rightarrow> fd \<Rightarrow> bool" where
  "switched K fd \<longleftrightarrow>
     (\<exists>x. K (Sys_setsockopt fd ''SO_NOSIGPIPE'') = Inr x)
   \<and> (\<exists>flags x. K (Sys_fcntl fd ''F_GETFL'' 0) = Inr flags \<and> K (Sys_fcntl fd ''F_SETFL'' (flags OR 4)) = Inr x)
   \<and> (\<exists>flags x. K (Sys_fcntl fd ''F_GETFD'' 0) = Inr flags \<and> K (Sys_fcntl fd ''F_SETFD'' (flags OR 1)) = Inr x)"

lemma prepare_client_result:
  "closed (snd (prepare_client fd K)) = (if switched K fd then [] else [fd])"
  "(\<exists>x. fst (prepare_client fd K) = Inr x) \<longleftrightarrow> switched K fd"
  by (auto simp: prepare_client_def switch_defs sys_defs switched_def split: sum.split)

text \<open>The two cases of a preparation, for the loops.\<close>

lemma prepare_client_cases:
  obtains (ready) x tr where "switched K fd" "prepare_client fd K = (Inr x, tr)" "closed tr = []"
    | (failed) e tr where "\<not> switched K fd" "prepare_client fd K = (Inl e, tr)" "closed tr = [fd]"
  using prepare_client_result [of fd K]
  by (cases "prepare_client fd K"; cases "fst (prepare_client fd K)") (auto split: if_splits)

text \<open>
  A level-triggered accept returns a connection that is switched as the rest of the library
  needs it, or closes it; a suspended one has taken none.
\<close>

lemma portable_accept_loop_result:
  assumes "portable_accept_loop K fd ts = (out, rest, tr)"
  shows "\<exists>used. ts = used @ rest
    \<and> (\<forall>c. out = Returned c \<longrightarrow> answers used = [c] \<and> switched K c \<and> closed tr = [])
    \<and> (\<forall>e. out = Threw e \<longrightarrow> closed tr = answers used)
    \<and> (out = Pending \<longrightarrow> rest = [] \<and> answers used = [] \<and> closed tr = [])"
  using assms
proof (induction ts arbitrary: tr)
  case Nil
  then show ?case by simp
next
  case (Cons t ts)
  show ?case
  proof (cases "ret t")
    case (Inr c)
    show ?thesis
    proof (cases rule: prepare_client_cases [where K = K and fd = c])
      case (ready x tr')
      with Cons.prems Inr show ?thesis by (auto intro!: exI [of _ "[t]"])
    next
      case (failed e tr')
      with Cons.prems Inr show ?thesis by (auto intro!: exI [of _ "[t]"])
    qed
  next
    case (Inl e)
    show ?thesis
    proof (cases "retries t")
      case True
      then obtain pre tr' where "portable_accept_loop K fd ts = (out, rest, tr')" "tr = pre @ tr'" "closed pre = []"
        using Cons.prems Inl
        by (cases "portable_accept_loop K fd ts")
           (auto simp: retries_def would_block_def split: if_splits option.splits)
      with Cons.IH obtain used where "ts = used @ rest"
        "(\<forall>c. out = Returned c \<longrightarrow> answers used = [c] \<and> switched K c \<and> closed tr = [])
         \<and> (\<forall>e. out = Threw e \<longrightarrow> closed tr = answers used)
         \<and> (out = Pending \<longrightarrow> rest = [] \<and> answers used = [] \<and> closed tr = [])" by fastforce
      then show ?thesis using Inl by (intro exI [of _ "t # used"]) simp
    next
      case False
      then have "rest = ts" "\<exists>e. out = Threw e" "closed tr = []"
        using Cons.prems Inl by (auto simp: retries_def would_block_def split: if_splits option.splits)
      then show ?thesis using Inl by (auto intro!: exI [of _ "[t]"])
    qed
  qed
qed

lemma portable_accept_et_result:
  assumes "portable_accept_et_loop K loop fd ss ts = (out, rest, tr)"
    and "list_all tcp_valid ss" and "\<forall>t \<in> set ts. \<forall>c. ret t = Inr c \<longrightarrow> 0 \<le> c"
  shows "\<exists>used. ts = used @ rest
    \<and> (\<forall>cs. out = Returned cs \<longrightarrow> cs = ss @ map (accepted_socket loop) (answers used)
         \<and> (\<forall>c \<in> set (answers used). switched K c) \<and> closed tr = [])
    \<and> (\<forall>e. out = Threw e \<longrightarrow> mset (closed tr) = mset (map sock_fd ss @ answers used))
    \<and> (out = Pending \<longrightarrow> rest = [] \<and> closed tr = [])"
  using assms
proof (induction ts arbitrary: ss tr)
  case Nil
  then show ?case by simp
next
  case (Cons t ts)
  note nonneg = Cons.prems(3)
  show ?case
  proof (cases "ret t")
    case (Inr c)
    with nonneg have c: "0 \<le> c" by simp
    show ?thesis
    proof (cases rule: prepare_client_cases [where K = K and fd = c])
      case (failed e tr')
      with Cons.prems Inr show ?thesis
        by (auto intro!: exI [of _ "[t]"] simp: closed_close_sockets)
    next
      case (ready x tr')
      let ?ss = "ss @ [accepted_socket loop c]"
      have sock: "tcp_socket_new loop c = Inr (accepted_socket loop c)"
        using c by (simp add: tcp_socket_new_def accepted_socket_def)
      obtain tr2 where go: "portable_accept_et_loop K loop fd ?ss ts = (out, rest, tr2)"
        and tr: "tr = Accept fd # tr' @ tr2"
        using Cons.prems(1) Inr ready(2) sock by (cases "portable_accept_et_loop K loop fd ?ss ts") auto
      have "list_all tcp_valid ?ss" using Cons.prems(2) c by simp
      from Cons.IH [OF go this] nonneg obtain used where "ts = used @ rest"
        "(\<forall>cs. out = Returned cs \<longrightarrow> cs = ?ss @ map (accepted_socket loop) (answers used)
            \<and> (\<forall>c \<in> set (answers used). switched K c) \<and> closed tr2 = [])
         \<and> (\<forall>e. out = Threw e \<longrightarrow> mset (closed tr2) = mset (map sock_fd ?ss @ answers used))
         \<and> (out = Pending \<longrightarrow> rest = [] \<and> closed tr2 = [])" by auto
      then show ?thesis using Inr ready tr by (intro exI [of _ "t # used"]) auto
    qed
  next
    case (Inl e)
    show ?thesis
    proof (cases "e = EINTR")
      case True
      then obtain tr' where "portable_accept_et_loop K loop fd ss ts = (out, rest, tr')" "tr = Accept fd # tr'"
        using Cons.prems(1) Inl by (cases "portable_accept_et_loop K loop fd ss ts") auto
      with Cons.IH [OF _ Cons.prems(2)] nonneg obtain used where "ts = used @ rest"
        "(\<forall>cs. out = Returned cs \<longrightarrow> cs = ss @ map (accepted_socket loop) (answers used)
            \<and> (\<forall>c \<in> set (answers used). switched K c) \<and> closed tr = [])
         \<and> (\<forall>e. out = Threw e \<longrightarrow> mset (closed tr) = mset (map sock_fd ss @ answers used))
         \<and> (out = Pending \<longrightarrow> rest = [] \<and> closed tr = [])" by fastforce
      then show ?thesis using Inl by (intro exI [of _ "t # used"]) simp
    next
      case False
      with Cons.prems(1,2) Inl show ?thesis
        by (auto intro!: exI [of _ "[t]"] simp: closed_close_sockets split: if_splits)
    qed
  qed
qed

text \<open>
  C32. Accepting without \<open>accept4\<close> gives every connection or closes it. In the configuration of
  macOS, too, an edge-triggered accept that returns gives the sockets of exactly the
  connections the kernel handed over, in order, all of them switched to non-blocking, to
  close-on-exec and to no \<open>SIGPIPE\<close>; when a call on one of them or a later \<open>accept\<close> fails, it
  has closed each connection it had taken exactly once.
\<close>

theorem portable_accept_no_leak:
  assumes "portable_accept_et K s (Some ready) ts = (out, rest, tr)" and "server_ensure_valid s = None"
    and "\<forall>t \<in> set ts. \<forall>c. ret t = Inr c \<longrightarrow> 0 \<le> c"
  shows "\<exists>used. ts = used @ rest
    \<and> (\<forall>ss. out = Returned ss \<longrightarrow> ss = map (accepted_socket (serv_loop s)) (answers used)
         \<and> (\<forall>c \<in> set (answers used). switched K c) \<and> closed tr = [])
    \<and> (\<forall>e. out = Threw e \<longrightarrow> mset (closed tr) = mset (answers used))
    \<and> (out = Pending \<longrightarrow> rest = [] \<and> closed tr = [])"
proof (cases ready)
  case None
  with assms obtain tr' where go: "portable_accept_et_loop K (serv_loop s) (serv_fd s) [] ts = (out, rest, tr')"
    and tr: "tr = Await (serv_fd s) Readable True # tr'"
    by (cases "portable_accept_et_loop K (serv_loop s) (serv_fd s) [] ts") (auto simp: portable_accept_et_def)
  from portable_accept_et_result [OF go _ assms(3)] tr show ?thesis by simp
next
  case (Some ex)
  with assms show ?thesis by (auto simp: portable_accept_et_def intro!: exI [of _ "[]"])
qed

theorem portable_accept_no_leak_witness:
  "mset (closed [Await 3 Readable True, Accept 3, Sys_setsockopt 7 ''SO_NOSIGPIPE'', Sys_fcntl 7 ''F_GETFL'' 0,
       Sys_fcntl 7 ''F_SETFL'' 4, Sys_fcntl 7 ''F_GETFD'' 0, Sys_fcntl 7 ''F_SETFD'' 1,
       Accept 3, Sys_setsockopt 8 ''SO_NOSIGPIPE'', Sys_close 8, Loop_remove 7, Sys_close 7]) = mset [7, 8]"
proof -
  let ?K = "\<lambda>c. case c of Sys_setsockopt fd _ \<Rightarrow> (if fd = 8 then Inl 22 else Inr 0) | _ \<Rightarrow> Inr 0"
  let ?s = "\<lparr>serv_loop = 0, serv_fd = 3\<rparr>"
  let ?ts = "[\<lparr>ret = Inr 7, wake = None\<rparr>, \<lparr>ret = Inr 8, wake = None\<rparr>] :: fd turn list"
  let ?tr = "[Await 3 Readable True, Accept 3, Sys_setsockopt 7 ''SO_NOSIGPIPE'', Sys_fcntl 7 ''F_GETFL'' 0,
       Sys_fcntl 7 ''F_SETFL'' 4, Sys_fcntl 7 ''F_GETFD'' 0, Sys_fcntl 7 ''F_SETFD'' 1,
       Accept 3, Sys_setsockopt 8 ''SO_NOSIGPIPE'', Sys_close 8, Loop_remove 7, Sys_close 7]"
  have r: "portable_accept_et ?K ?s (Some None) ?ts =
      (Threw (System_error 22 ''setsockopt SO_NOSIGPIPE''), [], ?tr)"
    by (simp add: portable_accept_et_def server_ensure_valid_def prepare_client_def switch_defs sys_defs
        tcp_socket_new_def close_sockets_def tcp_close_def)
  have v: "server_ensure_valid ?s = None" "\<forall>t \<in> set ?ts. \<forall>c. ret t = Inr c \<longrightarrow> 0 \<le> c"
    by (simp_all add: server_ensure_valid_def)
  from portable_accept_no_leak [OF r v] obtain used where "?ts = used @ []" "mset (closed ?tr) = mset (answers used)"
    by blast
  then have "mset (closed ?tr) = mset (answers ?ts)" by simp
  then show ?thesis by simp
qed

text \<open>Sequences of calls that close nothing.\<close>

definition quiet :: "'a sys \<Rightarrow> bool" where
  "quiet m \<longleftrightarrow> (\<forall>K. closed (snd (m K)) = [])"

lemma quietD: "quiet m \<Longrightarrow> m K = (r, tr) \<Longrightarrow> closed tr = []"
  by (metis quiet_def snd_conv)

lemma quiet_intros:
  "closes c = [] \<Longrightarrow> quiet (sys_call c what)" "quiet (sys_return x)"
  "quiet m \<Longrightarrow> (\<And>x. quiet (k x)) \<Longrightarrow> quiet (sys_then m k)"
  by (auto simp: quiet_def sys_call_def sys_return_def sys_then_def split: prod.split sum.split)
     (metis snd_conv)+

lemma quiet_switches:
  "quiet (disable_sigpipe fd)" "quiet (sys_set_non_blocking fd)" "quiet (sys_set_close_on_exec fd)"
  "quiet (udp_set_non_blocking u)" "quiet (udp_set_close_on_exec u)"
  "quiet (announce_bound fd port share)" "quiet (announce_server fd port backlog share)"
  unfolding switch_defs announce_bound_def announce_server_def
  by (cases share; (intro quiet_intros)?; simp add: quiet_intros)+

lemma cleanup_closed:
  assumes "sys_cleanup m c K = (r, tr)" and "quiet m"
  shows "closed tr = (case r of Inl _ \<Rightarrow> closed c | Inr _ \<Rightarrow> [])"
  using assms(1) quietD [OF assms(2), of K] by (auto simp: sys_cleanup_def split: prod.splits sum.splits)

text \<open>
  \<open>listen\<close> closes the new descriptor when one of the \<open>fcntl\<close> calls fails, and keeps it in the
  server in every other case; nothing else but an older descriptor is closed.
\<close>

lemma portable_listen_keeps_or_closes:
  assumes "portable_listen K s port backlog share = (out, s', tr)" and "K Sys_socket = Inr fd"
  shows "(serv_fd s' = fd \<and> closed tr = closed (fst (server_close s)))
    \<or> (out \<noteq> None \<and> serv_fd s' = - 1 \<and> closed tr = closed (fst (server_close s)) @ [fd])"
proof -
  have q: "quiet (sys_then (sys_set_non_blocking fd) (\<lambda>_. sys_set_close_on_exec fd))"
    by (intro quiet_intros quiet_switches)
  obtain r1 t1 r2 t2 r3 t3 where d: "disable_sigpipe fd K = (r1, t1)"
    and w: "sys_cleanup (sys_then (sys_set_non_blocking fd) (\<lambda>_. sys_set_close_on_exec fd)) [Sys_close fd] K = (r2, t2)"
    and a: "announce_server fd port backlog share K = (r3, t3)" by (metis surj_pair)
  have "closed t1 = []" "closed t3 = []" using quietD [OF quiet_switches(1) d] quietD [OF quiet_switches(7) a] .
  with assms cleanup_closed [OF w q] show ?thesis
    by (cases "server_close s"; cases r1; cases r2; cases r3) (auto simp: portable_listen_def Let_def d w a)
qed

text \<open>\<open>bind\<close> has the new descriptor bound and open, or closed.\<close>

lemma portable_bind_keeps_or_closes:
  assumes "portable_bind K s port share = (out, s', tr)" and "K Sys_socket = Inr fd"
  shows "udp_fd s' = (if out = None then fd else - 1)
    \<and> closed tr = closed (fst (udp_close s)) @ (if out = None then [] else [fd])"
proof -
  have q: "quiet (sys_then (udp_set_non_blocking u) (\<lambda>_. sys_then (udp_set_close_on_exec u)
      (\<lambda>_. announce_bound fd port share)))" for u
    by (intro quiet_intros quiet_switches)
  let ?u = "(snd (udp_close s))\<lparr>udp_fd := fd\<rparr>"
  obtain r t where w: "sys_cleanup (sys_then (udp_set_non_blocking ?u) (\<lambda>_. sys_then (udp_set_close_on_exec ?u)
      (\<lambda>_. announce_bound fd port share))) [Sys_close fd] K = (r, t)" by (metis surj_pair)
  with assms cleanup_closed [OF w q] show ?thesis
    by (cases "udp_close s"; cases r) (auto simp: portable_bind_def Let_def)
qed

section \<open>The two configurations agree\<close>

text \<open>The calls that Linux makes as well.\<close>

fun linux_call :: "io \<Rightarrow> bool" where
  "linux_call (Sys_fcntl _ _ _) = False"
| "linux_call (Sys_setsockopt _ opt) = (opt \<noteq> ''SO_NOSIGPIPE'')"
| "linux_call _ = True"

definition linux_view :: "'e \<times> 's \<times> io list \<Rightarrow> 'e \<times> 's \<times> io list" where
  "linux_view r = (case r of (e, s, tr) \<Rightarrow> (e, s, filter linux_call tr))"

lemma switched_calls:
  assumes "switched K fd"
  shows "\<exists>x tr. disable_sigpipe fd K = (Inr x, tr) \<and> filter linux_call tr = []"
    and "\<exists>x tr. sys_set_non_blocking fd K = (Inr x, tr) \<and> filter linux_call tr = []"
    and "\<exists>x tr. sys_set_close_on_exec fd K = (Inr x, tr) \<and> filter linux_call tr = []"
    and "\<exists>x tr. prepare_client fd K = (Inr x, tr) \<and> filter linux_call tr = []"
  using assms by (auto simp: switched_def switch_defs prepare_client_def sys_defs)

lemma announce_bound_result:
  "announce_bound fd port share K =
     (let addr = Sys_setsockopt fd ''SO_REUSEADDR''; shr = Sys_setsockopt fd ''SO_REUSEPORT'';
          bnd = Sys_bind fd (unat (htons port)); tr2 = addr # (if share then [shr] else [])
      in case K addr of
           Inl e \<Rightarrow> (Inl (System_error e ''setsockopt SO_REUSEADDR''), [addr])
         | Inr _ \<Rightarrow> (case (if share then K shr else Inr 0) of
             Inl e \<Rightarrow> (Inl (System_error e ''setsockopt SO_REUSEPORT''), tr2)
           | Inr _ \<Rightarrow> (case K bnd of
               Inl e \<Rightarrow> (Inl (System_error e ''bind''), tr2 @ [bnd])
             | Inr x \<Rightarrow> (Inr x, tr2 @ [bnd]))))"
  by (cases "K (Sys_setsockopt fd ''SO_REUSEADDR'')"; cases "K (Sys_setsockopt fd ''SO_REUSEPORT'')";
      cases "K (Sys_bind fd (unat (htons port)))"; cases share)
     (simp_all add: announce_bound_def sys_defs Let_def)

lemma portable_listen_agrees:
  assumes "\<forall>fd. K Sys_socket = Inr fd \<longrightarrow> switched K fd"
  shows "linux_view (portable_listen K s port backlog share) = server_listen K s port backlog share"
proof (cases "K Sys_socket")
  case (Inl e)
  then show ?thesis
    by (simp add: portable_listen_def server_listen_def server_close_def linux_view_def Let_def)
next
  case (Inr fd)
  with assms have "switched K fd" by simp
  note c = switched_calls [OF this]
  obtain x1 t1 x2 t2 x3 t3 where "disable_sigpipe fd K = (Inr x1, t1)" "filter linux_call t1 = []"
    "sys_set_non_blocking fd K = (Inr x2, t2)" "filter linux_call t2 = []"
    "sys_set_close_on_exec fd K = (Inr x3, t3)" "filter linux_call t3 = []"
    using c by blast
  note calls = this
  show ?thesis
    by (cases "K (Sys_setsockopt fd ''SO_REUSEADDR'')"; cases "if share then K (Sys_setsockopt fd ''SO_REUSEPORT'') else Inr 0";
        cases "K (Sys_bind fd (unat (htons port)))"; cases "K (Sys_listen fd backlog)")
       (simp_all add: Inr calls portable_listen_def server_listen_def server_close_def linux_view_def
          announce_server_def announce_bound_result sys_defs Let_def)
qed

lemma portable_bind_agrees:
  assumes "\<forall>fd. K Sys_socket = Inr fd \<longrightarrow> switched K fd"
  shows "linux_view (portable_bind K s port share) = udp_bind K s port share"
proof (cases "K Sys_socket")
  case (Inl e)
  then show ?thesis by (simp add: portable_bind_def udp_bind_def udp_close_def linux_view_def Let_def)
next
  case (Inr fd)
  with assms have "switched K fd" by simp
  note c = switched_calls [OF this]
  obtain x2 t2 x3 t3 where "sys_set_non_blocking fd K = (Inr x2, t2)" "filter linux_call t2 = []"
    "sys_set_close_on_exec fd K = (Inr x3, t3)" "filter linux_call t3 = []" using c by blast
  moreover have "udp_set_non_blocking u = sys_set_non_blocking (udp_fd u)"
    "udp_set_close_on_exec u = sys_set_close_on_exec (udp_fd u)" for u
    by (simp_all add: switch_defs)
  ultimately show ?thesis
    by (cases "K (Sys_setsockopt fd ''SO_REUSEADDR'')"; cases "if share then K (Sys_setsockopt fd ''SO_REUSEPORT'') else Inr 0";
        cases "K (Sys_bind fd (unat (htons port)))")
       (simp_all add: Inr portable_bind_def udp_bind_def udp_close_def linux_view_def
          announce_bound_result sys_defs Let_def)
qed

lemma linux_calls_connect: "filter linux_call (snd (connect_socket K ready fd a port)) = snd (connect_socket K ready fd a port)"
  by (simp add: connect_socket_def Let_def split: sum.split option.split)

lemma portable_connect_agrees:
  assumes "\<forall>fd. K Sys_socket = Inr fd \<longrightarrow> switched K fd"
  shows "apsnd (filter linux_call) (portable_connect_to pton K ready host port) =
    async_connect_to pton K ready host port"
proof (cases "K Sys_socket")
  case (Inl e)
  then show ?thesis by (simp add: portable_connect_to_def async_connect_to_def split: sum.split option.split)
next
  case (Inr fd)
  with assms have "switched K fd" by simp
  with switched_calls(4) obtain x tr where "prepare_client fd K = (Inr x, tr)" "filter linux_call tr = []" by blast
  moreover have "connect_socket K ready fd a port = (out, tr') \<Longrightarrow> filter linux_call tr' = tr'" for a out tr'
    using linux_calls_connect [of K ready fd a port] by simp
  ultimately show ?thesis using Inr
    by (auto simp: portable_connect_to_def async_connect_to_def split: sum.split option.split prod.split)
qed

text \<open>
  C33. The two configurations make the same sockets. When the kernel grants the extra calls on
  the descriptor that \<open>socket\<close> gives, \<open>listen\<close>, \<open>bind\<close> and the proxy's connect of the macOS
  configuration end as those of Linux do, with the same exception, if any, the same state of
  the object and, but for the extra calls, the same system calls in the same order.
\<close>

theorem portable_setup_agrees:
  assumes "\<forall>fd. K Sys_socket = Inr fd \<longrightarrow> switched K fd"
  shows "linux_view (portable_listen K srv port backlog share) = server_listen K srv port backlog share
    \<and> linux_view (portable_bind K sock port share) = udp_bind K sock port share
    \<and> apsnd (filter linux_call) (portable_connect_to pton K ready host port) =
        async_connect_to pton K ready host port"
  using portable_listen_agrees [OF assms] portable_bind_agrees [OF assms] portable_connect_agrees [OF assms]
  by blast

theorem portable_setup_agrees_witness:
  "snd (snd (linux_view (portable_bind (\<lambda>c. case c of Sys_socket \<Rightarrow> Inr 9 | _ \<Rightarrow> Inr 0) (udp_socket_new 0) 80 False)))
     = [Sys_socket, Sys_setsockopt 9 ''SO_REUSEADDR'', Sys_bind 9 20480]"
proof -
  let ?K = "\<lambda>c. case c of Sys_socket \<Rightarrow> Inr 9 | _ \<Rightarrow> Inr (0 :: int)"
  have k: "\<forall>fd. ?K Sys_socket = Inr fd \<longrightarrow> switched ?K fd" by (simp add: switched_def)
  have port: "unat (htons 80) = 20480" by (simp add: htons_def)
  show ?thesis
    unfolding conjunct1 [OF conjunct2 [OF portable_setup_agrees [OF k]]]
    by (simp add: udp_bind_def udp_close_def udp_socket_new_def Let_def port)
qed

end
