(* ===== verification/Worker_Group.thy ===== *)
theory Worker_Group
  imports Loop_Spec Udp
begin

text \<open>
  \<open>include/coro_epoll/worker_group.hpp\<close>: a group of event loops, each run by a thread of its
  own, handed out round robin; and the part that all \<open>main\<close> functions of the examples share,
  which gives every loop of a group one listening socket.
\<close>

section \<open>WorkerGroup\<close>

text \<open>
  \<open>joinable\<close> says of every thread whether it still has to be joined. \<open>next_index_\<close> is a
  \<open>std::size_t\<close> and wraps.
\<close>

record ('c, 'k) worker_group =
  group_loops :: "('c, 'k) event_loop list"
  joinable :: "bool list"
  next_index :: "64 word"

fun make_loops :: "(nat \<Rightarrow> exn + 'l) \<Rightarrow> nat list \<Rightarrow> exn + 'l list" where
  "make_loops mk [] = Inr []"
| "make_loops mk (i # is) = (case mk i of
      Inl e \<Rightarrow> Inl e
    | Inr l \<Rightarrow> (case make_loops mk is of Inl e \<Rightarrow> Inl e | Inr ls \<Rightarrow> Inr (l # ls)))"

definition worker_group_new ::
    "(nat \<Rightarrow> exn + ('c, 'k) event_loop) \<Rightarrow> nat \<Rightarrow> exn + ('c, 'k) worker_group" where
  "worker_group_new mk worker_count =
     (if worker_count = 0 then Inl (Invalid_argument ''worker_count must be greater than zero'')
      else (case make_loops mk [0..<worker_count] of
          Inl e \<Rightarrow> Inl e
        | Inr ls \<Rightarrow> Inr \<lparr>group_loops = ls, joinable = replicate worker_count True, next_index = 0\<rparr>))"

text \<open>
  The body of a worker thread, from what \<open>run\<close> comes to: standard exceptions are logged, any
  other one terminates the program.
\<close>

datatype thread_end = Ended | Logged exn | Terminated

definition worker_thread :: "unit outcome \<Rightarrow> thread_end option" where
  "worker_thread out = (case out of
      Returned _ \<Rightarrow> Some Ended
    | Threw e \<Rightarrow> Some (if std_exception e then Logged e else Terminated)
    | Pending \<Rightarrow> None)"

text \<open>\<open>next\<close> gives a reference to a loop of the group, here its position.\<close>

definition group_next :: "('c, 'k) worker_group \<Rightarrow> nat \<times> ('c, 'k) worker_group" where
  "group_next g = (unat (next_index g) mod length (group_loops g), g\<lparr>next_index := next_index g + 1\<rparr>)"

definition group_stop ::
    "('c, 'k, unit) loop_host \<Rightarrow> ('c, 'k) worker_group \<Rightarrow> ('c, 'k) worker_group" where
  "group_stop H g = g\<lparr>group_loops := map (stop H) (group_loops g)\<rparr>"

text \<open>\<open>join\<close> returns when every thread has ended; after it none is joinable.\<close>

definition group_join :: "('c, 'k) worker_group \<Rightarrow> ('c, 'k) worker_group" where
  "group_join g = g\<lparr>joinable := map (\<lambda>j. if j then False else j) (joinable g)\<rparr>"

definition group_delete ::
    "('c, 'k, unit) loop_host \<Rightarrow> ('c, 'k) worker_group \<Rightarrow> ('c, 'k) worker_group" where
  "group_delete H g = group_join (group_stop H g)"

section \<open>One socket for every loop\<close>

abbreviation SOMAXCONN :: int where "SOMAXCONN \<equiv> 4096"

text \<open>
  The loop of every \<open>main\<close>: take the next worker, make a socket on its loop, keep it, and post
  to the worker the spawning of the coroutine that serves it. A post is kept as the worker and
  the position of its socket. An exception leaves the loop; it comes with the socket that was
  being set up, which its unwinding destroys before the sockets made so far.
\<close>

fun start_servers ::
    "(nat \<Rightarrow> nat \<Rightarrow> exn option \<times> 's \<times> io list) \<Rightarrow> nat list
       \<Rightarrow> ('c, 'k) worker_group \<Rightarrow> 's list \<Rightarrow> (nat \<times> nat) list
       \<Rightarrow> (exn \<times> 's) option \<times> ('c, 'k) worker_group \<times> 's list \<times> (nat \<times> nat) list" where
  "start_servers install [] g servers posts = (None, g, servers, posts)"
| "start_servers install (i # is) g servers posts =
     (let (worker, g') = group_next g
      in case install i worker of
           (Some e, s, _) \<Rightarrow> (Some (e, s), g', servers, posts)
         | (None, s, _) \<Rightarrow>
             start_servers install is g' (servers @ [s]) (posts @ [(worker, length servers)]))"

definition tcp_setup ::
    "(nat \<Rightarrow> kernel_answers) \<Rightarrow> 16 word \<Rightarrow> nat \<Rightarrow> nat \<Rightarrow> exn option \<times> tcp_server \<times> io list" where
  "tcp_setup K port i worker = server_listen (K i) (tcp_server_new worker) port SOMAXCONN True"

definition udp_setup ::
    "(nat \<Rightarrow> kernel_answers) \<Rightarrow> 16 word \<Rightarrow> nat \<Rightarrow> nat \<Rightarrow> exn option \<times> udp_socket \<times> io list" where
  "udp_setup K port i worker = udp_bind (K i) (udp_socket_new worker) port True"

section \<open>Round robin\<close>

fun next_n :: "nat \<Rightarrow> ('c, 'k) worker_group \<Rightarrow> nat list \<times> ('c, 'k) worker_group" where
  "next_n 0 g = ([], g)"
| "next_n (Suc n) g =
     (case group_next g of (w, g') \<Rightarrow> (case next_n n g' of (ws, g'') \<Rightarrow> (w # ws, g'')))"

lemma next_n_spec:
  "next_n n g = (map (\<lambda>i. unat (next_index g + of_nat i) mod length (group_loops g)) [0..<n],
     g\<lparr>next_index := next_index g + of_nat n\<rparr>)"
proof (induction n arbitrary: g)
  case 0
  then show ?case by simp
next
  case (Suc n)
  have "map (\<lambda>i. unat (next_index g + of_nat i) mod length (group_loops g)) [0..<Suc n] =
      unat (next_index g) mod length (group_loops g)
        # map (\<lambda>i. unat (next_index g + 1 + of_nat i) mod length (group_loops g)) [0..<n]"
    by (subst upt_conv_Cons) (simp_all add: map_Suc_upt [symmetric] comp_def ac_simps del: upt_Suc)
  with Suc show ?case by (simp add: group_next_def ac_simps del: upt_Suc)
qed

lemma unat_index_add:
  "unat (w :: 64 word) + i < 2 ^ 64 \<Longrightarrow> unat (w + of_nat i) = unat w + i"
  by (simp add: unat_word_ariths unat_of_nat)

lemma mod_window:
  assumes "0 < (n :: nat)"
  shows "distinct (map (\<lambda>i. (a + i) mod n) [0..<n])" and "set (map (\<lambda>i. (a + i) mod n) [0..<n]) = {0..<n}"
proof -
  have le: "i = j" if "i \<le> j" "j < n" "(a + j) mod n = (a + i) mod n" for i j
  proof -
    have "n dvd j - i" using that mod_eq_dvd_iff_nat [of "a + i" "a + j" n] by simp
    moreover have "j - i < n" using that(2) by simp
    ultimately have "j - i = 0" using nat_dvd_not_less by blast
    with that(1) show ?thesis by simp
  qed
  have inj: "inj_on (\<lambda>i. (a + i) mod n) {0..<n}"
  proof (rule inj_onI)
    fix i j assume "i \<in> {0..<n}" "j \<in> {0..<n}" "(a + i) mod n = (a + j) mod n"
    then show "i = j" using le [of i j] le [of j i] by (cases "i \<le> j") auto
  qed
  then show "distinct (map (\<lambda>i. (a + i) mod n) [0..<n])" by (simp add: distinct_map)
  have "(\<lambda>i. (a + i) mod n) ` {0..<n} \<subseteq> {0..<n}" using assms by auto
  with inj show "set (map (\<lambda>i. (a + i) mod n) [0..<n]) = {0..<n}"
    by (simp add: endo_inj_surj)
qed

text \<open>
  Round robin. The \<open>k\<close>-th call of \<open>next\<close> from any point on gives the loop number
  \<open>(start + k) mod 2 ^ 64 mod size\<close>; and as long as the index does not wrap, any \<open>size\<close>
  calls in a row give every loop of the group exactly once.
\<close>

theorem round_robin:
  assumes "next_n k g = (ws, g')" and "group_loops g \<noteq> []"
  shows "(\<forall>i < k. ws ! i = ((unat (next_index g) + i) mod 2 ^ 64) mod length (group_loops g))
    \<and> (k = length (group_loops g) \<and> unat (next_index g) + k \<le> 2 ^ 64 \<longrightarrow>
         distinct ws \<and> set ws = {0..<length (group_loops g)})"
proof (intro conjI impI allI)
  let ?n = "length (group_loops g)"
  have ws: "ws = map (\<lambda>i. unat (next_index g + of_nat i) mod ?n) [0..<k]"
    using assms(1) by (simp add: next_n_spec)
  show "ws ! i = ((unat (next_index g) + i) mod 2 ^ 64) mod ?n" if "i < k" for i
    using that by (simp add: ws unat_word_ariths unat_of_nat mod_add_right_eq)
  assume k: "k = ?n \<and> unat (next_index g) + k \<le> 2 ^ 64"
  then have "ws = map (\<lambda>i. (unat (next_index g) + i) mod ?n) [0..<?n]"
    unfolding ws by (intro map_cong) (auto simp: unat_index_add)
  with mod_window [of ?n "unat (next_index g)"] assms(2)
  show "distinct ws" "set ws = {0..<?n}" by simp_all
qed

definition example_group :: "(handle, interest_list) worker_group" where
  "example_group = \<lparr>group_loops = [example_loop, example_loop, example_loop],
     joinable = [True, True, True], next_index = 4\<rparr>"

theorem round_robin_witness:
  "distinct [1, 2, 0 :: nat] \<and> set [1, 2, 0 :: nat] = {0..<3}"
proof -
  have r: "next_n 3 example_group = ([1, 2, 0], example_group\<lparr>next_index := 7\<rparr>)"
    by (simp add: next_n_spec example_group_def upt_rec)
  have n: "group_loops example_group \<noteq> []" by (simp add: example_group_def)
  have "length (group_loops example_group) = 3" "unat (next_index example_group) + 3 \<le> 2 ^ 64"
    by (simp_all add: example_group_def)
  with round_robin [OF r n] show ?thesis by simp
qed

section \<open>Starting the servers\<close>

lemma start_servers_spec:
  fixes install :: "nat \<Rightarrow> nat \<Rightarrow> exn option \<times> 's \<times> io list" and g :: "('c, 'k) worker_group"
  defines "ok \<equiv> \<lambda>(i, w). fst (install i w) = None"
    and "failure \<equiv> \<lambda>(i, w). map_option (\<lambda>e. (e, fst (snd (install i w)))) (fst (install i w))"
  shows "ps = zip is (fst (next_n (length is) g)) \<Longrightarrow>
    start_servers install is g servers posts = (out, g', servers', posts') \<Longrightarrow>
      out = (case dropWhile ok ps of [] \<Rightarrow> None | p # _ \<Rightarrow> failure p)
    \<and> servers' = servers @ map (\<lambda>(i, w). fst (snd (install i w))) (takeWhile ok ps)
    \<and> posts' = posts @ zip (map snd (takeWhile ok ps))
                 [length servers..<length servers + length (takeWhile ok ps)]"
proof (induction "is" arbitrary: g servers posts ps)
  case Nil
  then show ?case by simp
next
  case (Cons i "is")
  obtain w g1 where nx: "group_next g = (w, g1)" by (metis surj_pair)
  let ?qs = "zip is (fst (next_n (length is) g1))"
  have ps: "ps = (i, w) # ?qs" using Cons.prems(1) by (simp add: nx split: prod.split)
  obtain x s tr where st: "install i w = (x, s, tr)" by (metis surj_pair)
  show ?case
  proof (cases x)
    case (Some e)
    with Cons.prems(2) st show ?thesis by (auto simp: nx ps ok_def failure_def)
  next
    case None
    let ?m = "length (takeWhile ok ?qs)"
    have "start_servers install is g1 (servers @ [s]) (posts @ [(w, length servers)]) = (out, g', servers', posts')"
      using Cons.prems(2) None st by (simp add: nx)
    from Cons.IH [OF refl this] have IH:
      "out = (case dropWhile ok ?qs of [] \<Rightarrow> None | p # _ \<Rightarrow> failure p)"
      "servers' = servers @ s # map (\<lambda>(i, w). fst (snd (install i w))) (takeWhile ok ?qs)"
      "posts' = posts @ (w, length servers) # zip (map snd (takeWhile ok ?qs))
          [Suc (length servers)..<Suc (length servers) + ?m]"
      by simp_all
    have "[length servers..<length servers + Suc ?m] =
        length servers # [Suc (length servers)..<Suc (length servers) + ?m]"
      by (simp add: upt_conv_Cons del: upt_Suc)
    with IH None st show ?thesis by (simp add: ps ok_def del: upt_Suc)
  qed
qed

lemma make_loops_length: "make_loops mk is = Inr ls \<Longrightarrow> length ls = length is"
  by (induction "is" arbitrary: ls) (auto split: sum.splits)

lemma fresh_group:
  assumes "worker_group_new mk n = Inr g"
  shows "length (group_loops g) = n" and "next_index g = 0" and "0 < n"
  using assms make_loops_length [of mk "[0..<n]"] by (auto simp: worker_group_new_def split: if_splits sum.splits)

lemma fresh_next:
  assumes "worker_group_new mk n = Inr g" and "n \<le> 2 ^ 64"
  shows "fst (next_n n g) = [0..<n]"
proof -
  have "unat ((of_nat i) :: 64 word) mod n = i" if "i < n" for i
    using that assms(2) by (simp add: unat_of_nat)
  then have "map (\<lambda>i. unat ((of_nat i) :: 64 word) mod n) [0..<n] = map id [0..<n]"
    by (intro map_cong) auto
  then show ?thesis by (simp add: next_n_spec fresh_group [OF assms(1)])
qed

lemma takeWhile_upt: "\<exists>m \<le> n. takeWhile P [0..<n] = [0..<m] \<and> (m < n \<longrightarrow> \<not> P m \<and> dropWhile P [0..<n] = m # [Suc m..<n])
    \<and> (m = n \<longrightarrow> dropWhile P [0..<n] = [])"
proof (induction n)
  case 0
  then show ?case by simp
next
  case (Suc n)
  then obtain m where m: "m \<le> n" "takeWhile P [0..<n] = [0..<m]"
    "m < n \<longrightarrow> \<not> P m \<and> dropWhile P [0..<n] = m # [Suc m..<n]" "m = n \<longrightarrow> dropWhile P [0..<n] = []" by blast
  show ?case
  proof (cases "m = n")
    case True
    then have all: "list_all P [0..<n]" using m(4) by (simp only: dropWhile_Nil_iff)
    then have "takeWhile P ([0..<n] @ [n]) = [0..<n] @ takeWhile P [n]"
      "dropWhile P ([0..<n] @ [n]) = dropWhile P [n]"
      by (simp_all add: takeWhile_append_all dropWhile_append_all)
    then show ?thesis by (cases "P n") (auto intro: exI [of _ "Suc n"] exI [of _ n])
  next
    case False
    then have lt: "m < n" and np: "\<not> P m" "m \<in> set [0..<n]" using m by auto
    have "takeWhile P ([0..<n] @ [n]) = takeWhile P [0..<n]" using np by (intro takeWhile_append1)
    moreover have "dropWhile P ([0..<n] @ [n]) = dropWhile P [0..<n] @ [n]" using np by (intro dropWhile_append1)
    ultimately show ?thesis using m lt by (intro exI [of _ m]) auto
  qed
qed

lemma start_servers_fresh:
  assumes "worker_group_new mk n = Inr g" and "n \<le> 2 ^ 64"
    and "start_servers install [0..<n] g [] [] = (out, g', servers, posts)"
  shows "\<exists>m \<le> n. servers = map (\<lambda>i. fst (snd (install i i))) [0..<m]
    \<and> posts = map (\<lambda>i. (i, i)) [0..<m] \<and> (\<forall>i < m. fst (install i i) = None)
    \<and> (out = None \<longleftrightarrow> m = n)
    \<and> (\<forall>e s. out = Some (e, s) \<longrightarrow> fst (install m m) = Some e \<and> fst (snd (install m m)) = s)"
proof -
  let ?ok = "\<lambda>(i, w). fst (install i w) = None" and ?P = "\<lambda>i. fst (install i i) = None"
  have z: "zip [0..<n] (fst (next_n (length [0..<n]) g)) = map (\<lambda>i. (i, i)) [0..<n]"
    using fresh_next [OF assms(1,2)] by (simp add: zip_same_conv_map)
  note r = start_servers_spec [OF z [symmetric] assms(3)]
  obtain m where m: "m \<le> n" "takeWhile ?P [0..<n] = [0..<m]"
    "m < n \<longrightarrow> \<not> ?P m \<and> dropWhile ?P [0..<n] = m # [Suc m..<n]" "m = n \<longrightarrow> dropWhile ?P [0..<n] = []"
    using takeWhile_upt [of n ?P] by blast
  have t: "takeWhile ?ok (map (\<lambda>i. (i, i)) [0..<n]) = map (\<lambda>i. (i, i)) [0..<m]"
    using m(2) by (simp add: takeWhile_map comp_def)
  have d: "dropWhile ?ok (map (\<lambda>i. (i, i)) [0..<n]) = map (\<lambda>i. (i, i)) (dropWhile ?P [0..<n])"
    by (simp add: dropWhile_map comp_def)
  have all: "\<forall>i < m. ?P i" using m(2) set_takeWhileD [of _ ?P "[0..<n]"] by fastforce
  have out: "out = (if m = n then None else map_option (\<lambda>e. (e, fst (snd (install m m)))) (fst (install m m)))"
    using conjunct1 [OF r] m unfolding d by (cases "m = n") auto
  have "servers = map (\<lambda>i. fst (snd (install i i))) [0..<m]" "posts = map (\<lambda>i. (i, i)) [0..<m]"
    using conjunct2 [OF r] unfolding t by (simp_all add: comp_def zip_same_conv_map)
  moreover have "m \<noteq> n \<longrightarrow> fst (install m m) \<noteq> None" using m(1,3) by auto
  ultimately show ?thesis using m(1) all out by (intro exI [of _ m]) (auto split: if_splits)
qed

text \<open>
  One socket for every loop. On a new group, when every set-up succeeds, the loop number
  \<open>i\<close> gets the socket number \<open>i\<close>, made on that loop, and one post to serve it. When the
  set-up number \<open>m\<close> throws, the exception leaves the loop of \<open>main\<close>, which destroys the
  sockets \<open>0\<close> to \<open>m - 1\<close>, while the posts to serve exactly these sockets have been made and
  the workers run them.
\<close>

theorem one_socket_per_loop:
  assumes "worker_group_new mk n = Inr g" and "n \<le> 2 ^ 64"
    and "start_servers install [0..<n] g [] [] = (out, g', servers, posts)"
  shows "\<exists>m \<le> n. servers = map (\<lambda>i. fst (snd (install i i))) [0..<m]
    \<and> posts = map (\<lambda>i. (i, i)) [0..<m] \<and> (\<forall>i < m. fst (install i i) = None)
    \<and> (out = None \<longleftrightarrow> m = n)
    \<and> (\<forall>e s. out = Some (e, s) \<longrightarrow> fst (install m m) = Some e \<and> fst (snd (install m m)) = s)"
  using assms by (rule start_servers_fresh)

theorem one_socket_per_loop_witness:
  "\<exists>m \<le> 2. [(0 :: nat, 0 :: nat)] = map (\<lambda>i. (i, i)) [0..<m] \<and> m \<noteq> 2"
proof -
  let ?K = "\<lambda>i c. case c of Sys_socket \<Rightarrow> (if i = 0 then Inr 9 else Inl 24) | _ \<Rightarrow> Inr (0 :: int)"
  let ?g = "\<lparr>group_loops = [example_loop, example_loop], joinable = [True, True], next_index = 0\<rparr>"
  have g: "worker_group_new (\<lambda>_. Inr example_loop) 2 = Inr ?g"
    by (simp add: worker_group_new_def numeral_2_eq_2)
  have n: "(2 :: nat) \<le> 2 ^ 64" by simp
  have first: "tcp_setup ?K 80 0 0 = (None, \<lparr>serv_loop = 0, serv_fd = 9\<rparr>, Sys_socket # listen_calls 9 80 SOMAXCONN True)"
    by (simp add: tcp_setup_def server_listen_def server_close_def tcp_server_new_def listen_calls_def Let_def)
  have second: "fst (tcp_setup ?K 80 1 1) = Some (System_error 24 ''socket'')"
    by (simp add: tcp_setup_def server_listen_def server_close_def tcp_server_new_def Let_def)
  then obtain s tr where "tcp_setup ?K 80 1 1 = (Some (System_error 24 ''socket''), s, tr)"
    by (cases "tcp_setup ?K 80 1 1") simp
  with first have r: "start_servers (tcp_setup ?K 80) [0..<2] ?g [] [] =
      (Some (System_error 24 ''socket'', s), ?g\<lparr>next_index := 2\<rparr>, [\<lparr>serv_loop = 0, serv_fd = 9\<rparr>], [(0, 0)])"
    by (simp add: group_next_def upt_rec)
  from one_socket_per_loop [OF g n r] show ?thesis
    by (elim ex_forward conjE) (intro conjI; (assumption | simp only: option.distinct simp_thms))
qed

section \<open>Stopping the group\<close>

text \<open>
  Destroying a group. The destructor stops every loop of the group, changes nothing else
  of them, and leaves no thread to be joined; a second \<open>stop\<close> or \<open>join\<close> changes no flag.
\<close>

theorem group_delete_stops:
  "list_all stopped (group_loops (group_delete H g))
   \<and> map states (group_loops (group_delete H g)) = map states (group_loops g)
   \<and> map pending (group_loops (group_delete H g)) = map pending (group_loops g)
   \<and> True \<notin> set (joinable (group_delete H g))
   \<and> joinable (group_join (group_delete H g)) = joinable (group_delete H g)"
  by (auto simp: group_delete_def group_join_def group_stop_def list_all_iff stop_def wakeup_def comp_def)

end
