(* ===== verification/Server_Mains.thy ===== *)
theory Server_Mains
  imports Worker_Group Http_Server
begin

text \<open>
  The \<open>main\<close> functions of the examples: the command line, the worker group, the business pool
  where there is one, one socket for every loop, and \<open>join\<close>. What the kernel answers and what
  the construction of a loop gives are parameters; what is printed is left out.
\<close>

section \<open>From the command line to the serving loops\<close>

text \<open>
  How \<open>main\<close> goes on after its start: \<open>Serving\<close> is the state in which it waits in
  \<open>workers.join()\<close>, with the sockets and the posts that serve them; \<open>Exit_failure\<close> is the
  handler that logs and returns 1; an exception of another type is not caught.
\<close>

datatype 's main_end = Serving "'s list" "(nat \<times> nat) list" | Exit_failure exn | Uncaught exn

definition fatal :: "exn \<Rightarrow> 's main_end" where
  "fatal e = (if std_exception e then Exit_failure e else Uncaught e)"

definition serve_all :: "(nat \<Rightarrow> nat \<Rightarrow> exn option \<times> 's \<times> io list) \<Rightarrow> nat
    \<Rightarrow> ('c, 'k) worker_group \<Rightarrow> 's main_end" where
  "serve_all install worker_count g = (case start_servers install [0..<worker_count] g [] [] of
      (Some (e, _), _) \<Rightarrow> fatal e
    | (None, _, servers, posts) \<Rightarrow> Serving servers posts)"

definition pool_server_main :: "exn + 16 word \<times> nat \<times> nat \<Rightarrow> (nat \<Rightarrow> exn + ('c, 'k) event_loop)
    \<Rightarrow> (16 word \<Rightarrow> nat \<Rightarrow> nat \<Rightarrow> exn option \<times> 's \<times> io list) \<Rightarrow> 's main_end" where
  "pool_server_main args mk install = (case args of
      Inl e \<Rightarrow> fatal e
    | Inr (port, worker_count, business_worker_count) \<Rightarrow>
        (case worker_group_new mk worker_count of
           Inl e \<Rightarrow> fatal e
         | Inr g \<Rightarrow>
             (case pool_new business_worker_count :: exn + unit pool of
                Inl e \<Rightarrow> fatal e
              | Inr _ \<Rightarrow> serve_all (install port) worker_count g)))"

definition plain_server_main :: "exn + 16 word \<times> nat \<Rightarrow> (nat \<Rightarrow> exn + ('c, 'k) event_loop)
    \<Rightarrow> (16 word \<Rightarrow> nat \<Rightarrow> nat \<Rightarrow> exn option \<times> 's \<times> io list) \<Rightarrow> 's main_end" where
  "plain_server_main args mk install = (case args of
      Inl e \<Rightarrow> fatal e
    | Inr (port, worker_count) \<Rightarrow>
        (case worker_group_new mk worker_count of
           Inl e \<Rightarrow> fatal e
         | Inr g \<Rightarrow> serve_all (install port) worker_count g))"

definition tcp_echo_main where
  "tcp_echo_main hw mk K argv = pool_server_main (tcp_echo_args hw argv) mk (tcp_setup K)"

definition tcp_echo_et_main where
  "tcp_echo_et_main hw mk K argv = pool_server_main (tcp_echo_et_args hw argv) mk (tcp_setup K)"

definition udp_echo_main where
  "udp_echo_main hw mk K argv = pool_server_main (udp_echo_args hw argv) mk (udp_setup K)"

definition udp_echo_et_main where
  "udp_echo_et_main hw mk K argv = pool_server_main (udp_echo_et_args hw argv) mk (udp_setup K)"

text \<open>The HTTP server reads its static files first.\<close>

definition http_main where
  "http_main fs hw mk K argv = (case load_static_files fs of
      Inl e \<Rightarrow> fatal e
    | Inr _ \<Rightarrow> plain_server_main (http_args hw argv) mk (tcp_setup K))"

definition proxy_main where
  "proxy_main hw mk K argv = (case proxy_args hw argv of
      Inl e \<Rightarrow> fatal e
    | Inr (listen_port, backend_host, backend_port, worker_count) \<Rightarrow>
        plain_server_main (Inr (listen_port, worker_count)) mk (tcp_setup K))"

section \<open>Properties\<close>

lemma fatal_not_serving [simp]: "fatal e \<noteq> Serving ss ps"
  by (simp add: fatal_def)

lemma serve_all_serving:
  assumes "worker_group_new mk n = Inr g" and "n \<le> 2 ^ 64" and "serve_all install n g = Serving servers posts"
  shows "servers = map (\<lambda>i. fst (snd (install i i))) [0..<n] \<and> posts = map (\<lambda>i. (i, i)) [0..<n]
    \<and> (\<forall>i < n. fst (install i i) = None)"
proof -
  obtain g' where s: "start_servers install [0..<n] g [] [] = (None, g', servers, posts)"
    using assms(3) by (auto simp: serve_all_def split: prod.splits option.splits)
  from start_servers_fresh [OF assms(1,2) s] show ?thesis by auto
qed

lemma tcp_setup_listens:
  assumes "fst (tcp_setup K port i w) = None"
  shows "\<exists>fd. K i Sys_socket = Inr fd \<and> fst (snd (tcp_setup K port i w)) = \<lparr>serv_loop = w, serv_fd = fd\<rparr>
    \<and> (\<forall>c \<in> set (listen_calls fd port SOMAXCONN True). \<exists>x. K i c = Inr x)"
  using assms
  by (auto simp: tcp_setup_def server_listen_def server_close_def tcp_server_new_def listen_calls_def Let_def
      split: sum.splits)

lemma args_bounded:
  "parse_worker_count p hw argv = Inr n \<Longrightarrow> hw < 2 ^ 64 \<Longrightarrow> n < 2 ^ 64"
  by (auto simp: parse_worker_count_def parse_count_text_Inr split: if_splits)

text \<open>
  C20. The TCP echo server comes up on all loops or not at all. When \<open>main\<close> gets to \<open>join\<close>, the
  command line was accepted, and each of the given number of loops has a server of its own,
  whose descriptor was made by \<open>socket\<close> and for which every call up to \<open>listen\<close> on the given
  port succeeded, and one post to serve it.
\<close>

theorem tcp_main_serves_all_loops:
  assumes "tcp_echo_main hw mk K argv = Serving servers posts" and "hw < 2 ^ 64"
  shows "\<exists>port n business. tcp_echo_args hw argv = Inr (port, n, business)
    \<and> length servers = n \<and> posts = map (\<lambda>i. (i, i)) [0..<n]
    \<and> (\<forall>i < n. \<exists>fd. K i Sys_socket = Inr fd \<and> servers ! i = \<lparr>serv_loop = i, serv_fd = fd\<rparr>
         \<and> (\<forall>c \<in> set (listen_calls fd port SOMAXCONN True). \<exists>x. K i c = Inr x))"
proof -
  obtain port n business g where a: "tcp_echo_args hw argv = Inr (port, n, business)"
    and g: "worker_group_new mk n = Inr g" and s: "serve_all (tcp_setup K port) n g = Serving servers posts"
    using assms(1) by (auto simp: tcp_echo_main_def pool_server_main_def split: sum.splits prod.splits)
  have "parse_worker_count 2 hw argv = Inr n"
    using a by (auto simp: tcp_echo_args_def pool_server_args_def)
  then have "n \<le> 2 ^ 64" using args_bounded assms(2) by (metis less_imp_le)
  from serve_all_serving [OF g this s] have
    ss: "servers = map (\<lambda>i. fst (snd (tcp_setup K port i i))) [0..<n]" "posts = map (\<lambda>i. (i, i)) [0..<n]"
      "\<forall>i < n. fst (tcp_setup K port i i) = None" by simp_all
  have "\<exists>fd. K i Sys_socket = Inr fd \<and> servers ! i = \<lparr>serv_loop = i, serv_fd = fd\<rparr>
         \<and> (\<forall>c \<in> set (listen_calls fd port SOMAXCONN True). \<exists>x. K i c = Inr x)" if "i < n" for i
    using tcp_setup_listens [of K port i i] ss(1,3) that by simp
  with a ss(1,2) show ?thesis by (intro exI [of _ port] exI [of _ n] exI [of _ business]) simp
qed

theorem tcp_main_serves_all_loops_witness:
  "\<exists>port n business. tcp_echo_args 1 [''server''] = Inr (port, n, business)
    \<and> length [\<lparr>serv_loop = 0, serv_fd = 9\<rparr>] = n"
proof -
  let ?K = "\<lambda>i c. case c of Sys_socket \<Rightarrow> Inr 9 | _ \<Rightarrow> Inr 0"
  let ?mk = "\<lambda>i :: nat. Inr example_loop"
  have t: "tcp_setup ?K 8888 0 0 = (None, \<lparr>serv_loop = 0, serv_fd = 9\<rparr>, Sys_socket # listen_calls 9 8888 SOMAXCONN True)"
    by (simp add: tcp_setup_def server_listen_def server_close_def tcp_server_new_def listen_calls_def Let_def)
  have "tcp_echo_main 1 ?mk ?K [''server''] = Serving [\<lparr>serv_loop = 0, serv_fd = 9\<rparr>] [(0, 0)]"
    by (simp add: tcp_echo_main_def pool_server_main_def tcp_echo_args_def pool_server_args_def and_then_def
        parse_port_def parse_worker_count_def parse_business_worker_count_def worker_group_new_def pool_new_def
        serve_all_def group_next_def t)
  from tcp_main_serves_all_loops [OF this] show ?thesis by auto
qed

end
