(* ===== verification/Server_Shutdown.thy ===== *)
theory Server_Shutdown
  imports Server_Mains
begin

text \<open>
  The end of \<open>main\<close>: its locals are destroyed in the reverse order of their declaration,
  whether \<open>join\<close> returned or an exception left the set-up of the sockets. First come the
  servers (the one under construction before those in the vector), then the business pool,
  whose destructor works off its queue, then the worker group, which stops and joins its
  threads and destroys the loops, each with the coroutines it still keeps.
\<close>

section \<open>Destructors\<close>

text \<open>What happens to one loop of a group; no step changes the number of loops.\<close>

definition on_loop ::
    "nat \<Rightarrow> (('c, 'k) event_loop \<Rightarrow> ('c, 'k) event_loop) \<Rightarrow> ('c, 'k) worker_group \<Rightarrow> ('c, 'k) worker_group" where
  "on_loop w f g = g\<lparr>group_loops := (group_loops g)[w := f (group_loops g ! w)]\<rparr>"

text \<open>The destructors of the sockets call \<open>close\<close>, which also takes them out of their loop.\<close>

definition tcp_socket_delete :: "tcp_socket \<Rightarrow> io list" where
  "tcp_socket_delete s = fst (tcp_close s)"

definition tcp_server_delete ::
    "('c, 'k, unit) loop_host \<Rightarrow> tcp_server \<Rightarrow> ('c, 'k) worker_group \<Rightarrow> io list \<times> ('c, 'k) worker_group" where
  "tcp_server_delete H s g =
     (let tr = fst (server_close s) in (tr, on_loop (serv_loop s) (removes H tr) g))"

definition udp_socket_delete ::
    "('c, 'k, unit) loop_host \<Rightarrow> udp_socket \<Rightarrow> ('c, 'k) worker_group \<Rightarrow> io list \<times> ('c, 'k) worker_group" where
  "udp_socket_delete H s g =
     (let tr = fst (udp_close s)
      in (tr, case udp_loop s of None \<Rightarrow> g | Some w \<Rightarrow> on_loop w (removes H tr) g))"

text \<open>A vector destroys its elements from the front.\<close>

fun delete_all :: "('s \<Rightarrow> 'g \<Rightarrow> io list \<times> 'g) \<Rightarrow> 's list \<Rightarrow> 'g \<Rightarrow> io list \<times> 'g" where
  "delete_all delete [] g = ([], g)"
| "delete_all delete (s # ss) g =
     (case delete s g of (tr, g1) \<Rightarrow> (case delete_all delete ss g1 of (tr', g2) \<Rightarrow> (tr @ tr', g2)))"

text \<open>
  \<open>locals h\<close> are the sockets among the locals and parameters of the frame \<open>h\<close>, in the order in
  which they are destroyed with it. The body of \<open>~EventLoop\<close> closes the descriptors of the
  loop; its members, and with \<open>tasks_\<close> the frames, are destroyed after the body.
\<close>

definition frame_delete :: "(handle \<Rightarrow> tcp_socket list) \<Rightarrow> task \<Rightarrow> io list" where
  "frame_delete locals t = (case t of None \<Rightarrow> [] | Some h \<Rightarrow> concat (map tcp_socket_delete (locals h)))"

definition loop_delete :: "(handle \<Rightarrow> tcp_socket list) \<Rightarrow> ('c, 'k) event_loop \<Rightarrow> io list" where
  "loop_delete locals L =
     map Sys_close (event_loop_delete L) @ concat (map (frame_delete locals) (tasks L))"

definition group_teardown ::
    "('c, 'k, unit) loop_host \<Rightarrow> (handle \<Rightarrow> tcp_socket list) \<Rightarrow> ('c, 'k) worker_group \<Rightarrow> io list" where
  "group_teardown H locals g = concat (map (loop_delete locals) (group_loops (group_delete H g)))"

text \<open>
  \<open>late\<close> are the continuations that the jobs of the business pool post to the loops while
  its destructor works off the queue; a \<open>main\<close> without a pool has none.
\<close>

definition main_teardown ::
    "('c, 'k, unit) loop_host
       \<Rightarrow> (('c, 'k, unit) loop_host \<Rightarrow> 's \<Rightarrow> ('c, 'k) worker_group \<Rightarrow> io list \<times> ('c, 'k) worker_group)
       \<Rightarrow> (handle \<Rightarrow> tcp_socket list) \<Rightarrow> (exn \<times> 's) option \<Rightarrow> 's list \<Rightarrow> (nat \<times> 'c) list
       \<Rightarrow> ('c, 'k) worker_group \<Rightarrow> io list" where
  "main_teardown H delete locals out servers late g =
     (case delete_all (delete H) ((case out of None \<Rightarrow> [] | Some (e, s) \<Rightarrow> [s]) @ servers) g of
        (tr, g1) \<Rightarrow> tr @ group_teardown H locals (fold (\<lambda>(w, c). on_loop w (post H c)) late g1))"

section \<open>What the teardown closes\<close>

text \<open>What the destruction of a loop depends on; the operations before it leave it alone.\<close>

definition loop_holds :: "('c, 'k, 'z) event_loop_scheme \<Rightarrow> fd \<times> fd \<times> task list" where
  "loop_holds L = (wakeup_fd L, epoll_fd L, tasks L)"

lemma loop_holds_ops [simp]:
  "loop_holds (remove H fd L) = loop_holds L" "loop_holds (post H c L) = loop_holds L"
  "loop_holds (stop H L) = loop_holds L"
  by (simp_all add: loop_holds_def remove_def post_def stop_def wakeup_def)

lemma loop_holds_removes [simp]: "loop_holds (removes H tr L) = loop_holds L"
  by (induction H tr L rule: removes.induct) simp_all

lemma on_loop_holds [simp]:
  assumes "\<And>L. loop_holds (f L) = loop_holds L"
  shows "map loop_holds (group_loops (on_loop w f g)) = map loop_holds (group_loops g)"
  by (cases "w < length (group_loops g)")
     (simp_all add: on_loop_def map_update assms list_update_same_conv list_update_beyond)

text \<open>The equation of \<open>delete_all\<close> by components.\<close>

lemma delete_all_Cons:
  "delete_all d (s # ss) g =
     (fst (d s g) @ fst (delete_all d ss (snd (d s g))), snd (delete_all d ss (snd (d s g))))"
  by (simp split: prod.split)

lemma delete_all_holds:
  assumes "\<And>s g. map loop_holds (group_loops (snd (d s g))) = map loop_holds (group_loops g)"
  shows "map loop_holds (group_loops (snd (delete_all d ss g))) = map loop_holds (group_loops g)"
  by (induction ss arbitrary: g) (simp_all add: delete_all_Cons assms del: delete_all.simps(2))

lemma tcp_server_delete_holds:
  "map loop_holds (group_loops (snd (tcp_server_delete H s g))) = map loop_holds (group_loops g)"
  by (simp add: tcp_server_delete_def Let_def)

lemma fold_post_holds:
  "map loop_holds (group_loops (fold (\<lambda>(w, c). on_loop w (post H c)) ps g)) = map loop_holds (group_loops g)"
  by (induction ps arbitrary: g) (simp_all add: case_prod_beta)

lemma group_delete_holds: "map loop_holds (group_loops (group_delete H g)) = map loop_holds (group_loops g)"
  by (simp add: group_delete_def group_join_def group_stop_def comp_def)

lemma loop_delete_holds: "\<exists>F. loop_delete locals = F \<circ> loop_holds"
  by (rule exI [of _ "\<lambda>(w, e, ts). map Sys_close ((if 0 \<le> w then [w] else []) @ (if 0 \<le> e then [e] else []))
        @ concat (map (frame_delete locals) ts)"])
     (simp add: fun_eq_iff loop_holds_def loop_delete_def event_loop_delete_def)

lemma group_teardown_holds:
  fixes g g' :: "('c, 'k) worker_group"
  assumes "map loop_holds (group_loops g') = map loop_holds (group_loops g)"
  shows "group_teardown H locals g' = concat (map (loop_delete locals) (group_loops g))"
proof -
  obtain F where F: "loop_delete locals = F \<circ> (loop_holds :: ('c, 'k) event_loop \<Rightarrow> _)"
    using loop_delete_holds by blast
  have "map (loop_delete locals) (group_loops (group_delete H g')) =
      map F (map loop_holds (group_loops (group_delete H g')))"
    by (simp only: F map_map)
  also have "\<dots> = map (loop_delete locals) (group_loops g)"
    by (simp only: group_delete_holds assms) (simp only: F map_map)
  finally show ?thesis by (simp only: group_teardown_def)
qed

text \<open>The descriptors that the members of a loop stand for.\<close>

definition loop_descriptors :: "(handle \<Rightarrow> tcp_socket list) \<Rightarrow> ('c, 'k) event_loop \<Rightarrow> fd list" where
  "loop_descriptors locals L =
     wakeup_fd L # epoll_fd L #
     map sock_fd (filter tcp_valid (concat (map (case_option [] locals) (tasks L))))"

lemma closed_tcp_sockets: "closed (concat (map tcp_socket_delete ss)) = map sock_fd (filter tcp_valid ss)"
  by (induction ss) (auto simp: tcp_socket_delete_def tcp_close_def tcp_valid_def)

lemma closed_map_close [simp]: "closed (map Sys_close fds) = fds"
  by (induction fds) simp_all

lemma closed_frames: "closed (concat (map (frame_delete locals) ts))
    = map sock_fd (filter tcp_valid (concat (map (case_option [] locals) ts)))"
  by (induction ts) (auto simp: frame_delete_def closed_tcp_sockets split: option.split)

lemma closed_loop_delete:
  "0 \<le> wakeup_fd L \<Longrightarrow> 0 \<le> epoll_fd L \<Longrightarrow> closed (loop_delete locals L) = loop_descriptors locals L"
  by (simp add: loop_delete_def event_loop_delete_def closed_frames loop_descriptors_def)

lemma closed_loops:
  "\<forall>L \<in> set Ls. 0 \<le> wakeup_fd L \<and> 0 \<le> epoll_fd L \<Longrightarrow>
     closed (concat (map (loop_delete locals) Ls)) = concat (map (loop_descriptors locals) Ls)"
  by (induction Ls) (simp_all add: closed_loop_delete)

lemma closed_servers:
  "closed (fst (delete_all (tcp_server_delete H) ss g)) = filter (\<lambda>fd. 0 \<le> fd) (map serv_fd ss)"
  by (induction ss arbitrary: g)
     (simp_all add: delete_all_Cons tcp_server_delete_def server_close_def Let_def del: delete_all.simps(2))

lemma closed_teardown:
  assumes "\<forall>L \<in> set (group_loops g). 0 \<le> wakeup_fd L \<and> 0 \<le> epoll_fd L"
  shows "closed (main_teardown H tcp_server_delete locals out servers late g) =
      filter (\<lambda>fd. 0 \<le> fd) (map serv_fd ((case out of None \<Rightarrow> [] | Some (e, s) \<Rightarrow> [s]) @ servers))
      @ concat (map (loop_descriptors locals) (group_loops g))"
proof -
  let ?ss = "(case out of None \<Rightarrow> [] | Some (e, s) \<Rightarrow> [s]) @ servers"
  obtain tr g1 where d: "delete_all (tcp_server_delete H) ?ss g = (tr, g1)" by (metis surj_pair)
  have "map loop_holds (group_loops g1) = map loop_holds (group_loops g)"
    using delete_all_holds [of "tcp_server_delete H" ?ss g, OF tcp_server_delete_holds] d by simp
  then have "group_teardown H locals (fold (\<lambda>(w, c). on_loop w (post H c)) late g1) =
      concat (map (loop_delete locals) (group_loops g))"
    by (intro group_teardown_holds) (simp only: fold_post_holds)
  with closed_loops [OF assms, of locals] closed_servers [of H ?ss g] d
  show ?thesis by (simp add: main_teardown_def)
qed

text \<open>The descriptors that \<open>socket\<close> gave to the first set-ups, in order.\<close>

definition opened :: "(nat \<Rightarrow> kernel_answers) \<Rightarrow> nat \<Rightarrow> fd list" where
  "opened K i = (case K i Sys_socket of Inl _ \<Rightarrow> [] | Inr fd \<Rightarrow> [fd])"

text \<open>The descriptors that \<open>socket\<close> gives are not negative.\<close>

definition socket_laws :: "(nat \<Rightarrow> kernel_answers) \<Rightarrow> bool" where
  "socket_laws K \<longleftrightarrow> (\<forall>i fd. K i Sys_socket = Inr fd \<longrightarrow> 0 \<le> fd)"

lemma tcp_setup_holds:
  assumes "socket_laws K"
  shows "filter (\<lambda>fd. 0 \<le> fd) [serv_fd (fst (snd (tcp_setup K port i w)))] = opened K i"
  using assms
  by (auto simp: tcp_setup_def server_listen_def server_close_def tcp_server_new_def opened_def Let_def
      socket_laws_def split: sum.split)

lemma tcp_setups_hold:
  assumes "socket_laws K"
  shows "filter (\<lambda>fd. 0 \<le> fd) (map serv_fd (map (\<lambda>i. fst (snd (tcp_setup K port i i))) is))
    = concat (map (opened K) is)"
proof (induction "is")
  case (Cons i "is")
  with tcp_setup_holds [OF assms, where i = i and port = port and w = i] show ?case by (simp split: if_splits)
qed simp

text \<open>
  C21. However \<open>main\<close> ends, it closes what it opened. Whether all servers came up and \<open>join\<close>
  returned, or the set-up of one of them threw, the destruction of the locals of \<open>main\<close> closes
  every descriptor that \<open>socket\<close> gave to a set-up, the failing one included, and then, loop by
  loop, the two descriptors of the loop and those of the sockets that its remaining coroutines
  own, each exactly once and nothing else, whatever the loops served and whatever the pool
  still posted in the meantime.
\<close>

theorem main_closes_descriptors:
  assumes "worker_group_new mk n = Inr g" and "n \<le> 2 ^ 64"
    and "start_servers (tcp_setup K port) [0..<n] g [] [] = (out, g', servers, posts)"
    and "socket_laws K"
    and "\<forall>L \<in> set (group_loops served). 0 \<le> wakeup_fd L \<and> 0 \<le> epoll_fd L"
  shows "mset (closed (main_teardown H tcp_server_delete locals out servers late served)) =
      mset (concat (map (opened K) [0..<(if out = None then n else Suc (length servers))]))
      + mset (concat (map (loop_descriptors locals) (group_loops served)))"
proof -
  from start_servers_fresh [OF assms(1-3)] obtain m where m: "m \<le> n"
    "servers = map (\<lambda>i. fst (snd (tcp_setup K port i i))) [0..<m]" "out = None \<longleftrightarrow> m = n"
    "\<forall>e s. out = Some (e, s) \<longrightarrow> fst (snd (tcp_setup K port m m)) = s" by blast
  have "mset (filter (\<lambda>fd. 0 \<le> fd) (map serv_fd ((case out of None \<Rightarrow> [] | Some (e, s) \<Rightarrow> [s]) @ servers)))
      = mset (concat (map (opened K) [0..<(if out = None then n else Suc m)]))"
  proof (cases out)
    case None
    with m(3) tcp_setups_hold [OF assms(4), of port "[0..<m]"] show ?thesis by (simp add: m(2))
  next
    case (Some p)
    then obtain e s where p: "out = Some (e, s)" by (cases p) auto
    then have "filter (\<lambda>fd. 0 \<le> fd) [serv_fd s] = opened K m"
      using m(4) tcp_setup_holds [OF assms(4), where i = m and port = port and w = m] by simp
    with tcp_setups_hold [OF assms(4), of port "[0..<m]"] p show ?thesis
      by (simp add: m(2) ac_simps split: if_splits)
  qed
  then show ?thesis unfolding closed_teardown [OF assms(5)] by (simp add: m(2))
qed

theorem main_closes_descriptors_witness:
  "mset [9, 8, 3, 5 :: int] = mset (concat (map (opened (\<lambda>i c. case c of Sys_socket \<Rightarrow> Inr (8 + int i)
      | Sys_listen _ _ \<Rightarrow> (if i = 0 then Inr 0 else Inl 98) | _ \<Rightarrow> Inr 0)) [0..<2])) + mset [3, 5]"
proof -
  let ?K = "\<lambda>i c. case c of Sys_socket \<Rightarrow> Inr (8 + int i)
      | Sys_listen _ _ \<Rightarrow> (if i = 0 then Inr 0 else Inl 98) | _ \<Rightarrow> Inr 0"
  let ?g = "\<lparr>group_loops = [example_loop, example_loop], joinable = [True, True], next_index = 0\<rparr>"
  let ?L = "example_loop\<lparr>wakeup_fd := 3, epoll_fd := 5, tasks := []\<rparr>"
  let ?served = "?g\<lparr>group_loops := [?L]\<rparr>"
  have g: "worker_group_new (\<lambda>_. Inr example_loop) 2 = Inr ?g"
    by (simp add: worker_group_new_def numeral_2_eq_2)
  have n: "(2 :: nat) \<le> 2 ^ 64" by simp
  have s0: "fst (tcp_setup ?K 80 0 0) = None" "fst (snd (tcp_setup ?K 80 0 0)) = \<lparr>serv_loop = 0, serv_fd = 8\<rparr>"
    and s1: "fst (tcp_setup ?K 80 1 1) = Some (System_error 98 ''listen'')"
      "fst (snd (tcp_setup ?K 80 1 1)) = \<lparr>serv_loop = 1, serv_fd = 9\<rparr>"
    by (simp_all add: tcp_setup_def server_listen_def server_close_def tcp_server_new_def Let_def)
  from s0 s1 obtain t0 t1 where t: "tcp_setup ?K 80 0 0 = (None, \<lparr>serv_loop = 0, serv_fd = 8\<rparr>, t0)"
    "tcp_setup ?K 80 1 1 = (Some (System_error 98 ''listen''), \<lparr>serv_loop = 1, serv_fd = 9\<rparr>, t1)"
    by (cases "tcp_setup ?K 80 0 0", cases "tcp_setup ?K 80 1 1") auto
  then have r: "start_servers (tcp_setup ?K 80) [0..<2] ?g [] [] =
      (Some (System_error 98 ''listen'', \<lparr>serv_loop = 1, serv_fd = 9\<rparr>), ?g\<lparr>next_index := 2\<rparr>,
       [\<lparr>serv_loop = 0, serv_fd = 8\<rparr>], [(0, 0)])"
    by (simp add: group_next_def upt_rec)
  have k: "socket_laws ?K" by (simp add: socket_laws_def)
  have l: "\<forall>L \<in> set (group_loops ?served). 0 \<le> wakeup_fd L \<and> 0 \<le> epoll_fd L" by simp
  show ?thesis
    using main_closes_descriptors [OF g n r k l, where H = example_host and locals = "\<lambda>_. []" and late = "[]"]
      closed_teardown [OF l, where H = example_host and locals = "\<lambda>_. []" and late = "[]"
        and out = "Some (System_error 98 ''listen'', \<lparr>serv_loop = 1, serv_fd = 9\<rparr>)"
        and servers = "[\<lparr>serv_loop = 0, serv_fd = 8\<rparr>]"]
    by (simp add: loop_descriptors_def opened_def upt_rec)
qed

text \<open>
  The sockets of the remaining coroutines are taken out of their loop after the loop has closed
  its epoll instance: \<open>remove\<close> calls \<open>epoll_ctl\<close> with a descriptor that is not open any more.
\<close>

lemma loop_delete_removes_late:
  assumes "Some h \<in> set (tasks L)" and "s \<in> set (locals h)" and "tcp_ensure_valid s = None" and "0 \<le> epoll_fd L"
  shows "\<exists>xs ys. loop_delete locals L = xs @ Sys_close (epoll_fd L) # ys \<and> Loop_remove (sock_fd s) \<in> set ys"
proof -
  let ?ys = "concat (map (frame_delete locals) (tasks L))"
  have "Loop_remove (sock_fd s) \<in> set (frame_delete locals (Some h))"
    using assms(2,3)
    by (auto simp: frame_delete_def tcp_socket_delete_def tcp_close_def tcp_ensure_valid_def split: if_splits
        intro!: bexI [of _ s])
  with assms(1) have "Loop_remove (sock_fd s) \<in> set ?ys" by auto
  moreover have "\<exists>xs. loop_delete locals L = xs @ Sys_close (epoll_fd L) # ?ys"
    using assms(4) by (simp add: loop_delete_def event_loop_delete_def)
  ultimately show ?thesis by blast
qed

end
