(* ===== verification/Spec2Isabelle.thy ===== *)
theory Spec2Isabelle
  imports Task_Void Loop_Runtime Pipe_Wakeup Pool_On_Loop Reactor Udp_Echo Http_Types Proxy_Sessions Portable_Sockets
    Server_Shutdown
begin

text \<open>
  A verification development for \<^verbatim>\<open>cpp-coroutine-epoll\<close>, a header-only C++20 library of coroutine
  networking (\<open>include/coro_epoll/\<close>) with six example servers (\<open>examples/\<close>).

  \<^bold>\<open>The program.\<close> A program of the library is a set of coroutines of type \<open>Task\<close>. Each runs on
  an \<open>EventLoop\<close>, one thread around epoll or kqueue: a coroutine that would block awaits
  readiness of a descriptor, the loop keeps its handle in a table and resumes it from
  \<open>dispatch\<close>. \<open>TcpSocket\<close>, \<open>TcpServer\<close> and \<open>UdpSocket\<close> wrap non-blocking system calls in such
  awaits. Other threads reach a loop through \<open>post\<close>, a queue with an eventfd (or pipe) to wake
  the loop. \<open>WorkerGroup\<close> runs one loop per thread, \<open>ThreadPool\<close> runs blocking functions and
  posts the resumption of the coroutine that waits for the result. The examples are TCP and UDP
  echo servers (level- and edge-triggered), an HTTP server and a TCP proxy.

  \<^bold>\<open>The theories.\<close>
  \<^item> \<open>Coro_Prelude\<close>: exceptions, error numbers, outcomes of coroutine bodies, buffers, lists.
  \<^item> \<open>Sys_Io\<close>: turns (what one iteration of a system call loop gets from the kernel), traces of
    calls, and the locale \<open>retry_loop\<close>, the contract of a loop that retries on EINTR and awaits
    on EAGAIN; interpreted for \<open>async_read\<close>, \<open>async_accept_fd\<close>, \<open>async_recv_from\<close>, \<open>async_send_to\<close>.
  \<^item> \<open>Unique_Owner\<close>: the locale of move-only owners; interpreted for \<open>Task\<close>, \<open>TcpSocket\<close>, \<open>UdpSocket\<close>.
  \<^item> \<open>Coro_Task\<close>: \<open>task.hpp\<close>. A heap of frames, the promise, the awaiters and the final
    suspension as a step relation; \<open>co_await\<close> refines a call; no dangling handle is resumed.
  \<^item> \<open>Task_Void\<close>: the specialisation \<open>Task<void>\<close>, and the simulation by which it runs as \<open>Task<T>\<close>.
  \<^item> \<open>Event_Loop\<close>, \<open>Loop_Spec\<close>: the Linux branch of \<open>event_loop.hpp\<close>, one definition per method
    over a record of its members; the abstract table of waiters, the invariant that the table
    and the interest list of the kernel agree, and the locale \<open>loop_client\<close>.
  \<^item> \<open>Loop_Runtime\<close>: the machine of \<open>Coro_Task\<close> as the runtime of the loop; it interprets
    \<open>loop_client\<close>, so the invariant holds for every program of coroutines.
  \<^item> \<open>Fifo_Executor\<close>, \<open>Loop_Wakeup\<close>, \<open>Thread_Pool\<close>: the threads. The locale of a work queue, the
    interleaving of \<open>post\<close>, \<open>stop\<close> and the loop thread, and that of the workers of the pool
    (\<open>thread_pool.hpp\<close>), as step relations over atomic actions and critical sections.
  \<^item> \<open>Pool_On_Loop\<close>: the pool and the loop together, from the job to the coroutine it resumes.
  \<^item> \<open>Pipe_Wakeup\<close>: the same interleaving over a channel, with the locale \<open>wakeup_channel\<close> of what
    the protocol needs of it; interpreted for the pipe of macOS and for the eventfd.
  \<^item> \<open>Kqueue_Loop\<close>, \<open>Reactor\<close>: the macOS branch, and the locale \<open>reactor\<close> of a table of waiters,
    interpreted for both branches.
  \<^item> \<open>Tcp\<close>, \<open>Udp\<close>: \<open>tcp.hpp\<close> and \<open>udp.hpp\<close>, every method, in the configuration of Linux;
    \<open>Portable_Sockets\<close>: what the configuration of macOS does differently, with \<open>fcntl\<close> and \<open>accept\<close>.
  \<^item> \<open>Worker_Group\<close>: \<open>worker_group.hpp\<close> and the loop of every \<open>main\<close> that starts the servers.
  \<^item> \<open>Cli_Args\<close>, \<open>Server_Mains\<close>, \<open>Server_Shutdown\<close>: the command lines of the examples, their \<open>main\<close>
    functions up to \<open>join\<close>, and the destruction of the locals of \<open>main\<close>.
  \<^item> \<open>Echo_Servers\<close>, \<open>Udp_Echo\<close>, \<open>Http_Server\<close>, \<open>Proxy_Server\<close>: the coroutines of the examples;
    the locale \<open>byte_pump\<close> of a loop that copies a stream, interpreted for both echo sessions and
    for the relay of the proxy. \<open>Http_Types\<close>: the well-formedness of every parsed request.
    \<open>Proxy_Sessions\<close>: the two relays of a session as a step relation on their shared sockets.

  \<^bold>\<open>Correspondence.\<close> A class is a record of its members, a method a definition of the same name
  (with a prefix where names clash: \<open>tcp_close\<close>, \<open>server_close\<close>, \<open>udp_close\<close>, \<open>kq_dispatch\<close>). A
  coroutine body is a function over the turns of its environment, which quantify over all
  behaviours of the kernel and the peers; it is \<open>Pending\<close> where the turns end. A thrown exception
  is a value: \<open>exn option\<close>, a sum, or \<open>Threw\<close>. Integers that wrap are words. System calls are
  recorded in a trace, so that what is closed, sent and awaited can be stated.

  \<^bold>\<open>What the lemmas show.\<close> Ownership: frames and descriptors are owned once and released once.
  Waiting: registrations agree with the kernel through \<open>run\<close>, an event resumes exactly its
  waiters, no wakeup is lost, posted and submitted work is run once in order and the threads come
  to rest. Input and output: \<open>async_write\<close> sends the whole buffer, the reads return what was
  delivered, the echo servers and the proxy pass a stream on unchanged. HTTP: \<open>read_line\<close> equals a
  reference split of the stream, the parser inverts the printing of a request, a response can be
  delimited by its reader, pipelined requests are answered in order. Start: a command line is
  accepted exactly when it is well formed, and every loop gets its listening socket. End: however
  \<open>main\<close> ends, it closes every descriptor it obtained once. Variants: the two versions of \<open>Task\<close>,
  the two backends and the two socket configurations agree. Several theorems state behaviour that the code does not intend; their texts say so.

  \<^bold>\<open>Bounds.\<close> Recursions over turns end because every round uses at least one turn; there is no
  fuel. Runs of the threads are bounded by measures that the theorems name;
  what a thread does to come to rest is a number of its own steps, and the rest of the system
  may stand still meanwhile.

  \<^bold>\<open>Not modelled.\<close> What is printed; memory exhaustion (\<open>bad_alloc\<close>) and the limits of the native
  stack, of which only the depth is computed; the address of the peer that \<open>accept4\<close> stores, which
  the code ignores; the accessors that only hand out a member (\<open>fd()\<close>, \<open>WorkerGroup::size()\<close>, the
  pointers of \<open>UdpEndpoint\<close>) and the branches for systems without \<open>SO_REUSEPORT\<close>; data races
  between the destruction of a server and the worker that still runs its coroutine (the
  teardown is a sequence here); CMake files and the README.
\<close>

section \<open>From the listening socket to the answers\<close>



section \<open>From the listening socket to the backend\<close>

lemma relay_faithful:
  assumes "relay p rs ws = ((out, log, sent, rs', ws'), tr, p')"
  shows "prefix sent (received rs) \<and> (out = Returned () \<and> log = [] \<longrightarrow> (\<exists>used. rs = used @ rs' \<and> sent = received used))"
proof -
  from assms have "relay_loop (from_sock p) (to_sock p) (replicate 8192 (CHR 0x00)) rs ws = (out, log, sent, rs', ws')"
    by (auto simp: relay_def Let_def split: outcome.splits)
  from relaying.pump_copies [OF this] obtain used rest where "rs = used @ rest" "prefix sent (received used)"
    "out = Returned () \<and> log = [] \<longrightarrow> sent = received used \<and> rest = rs'" by blast
  then show ?thesis by (auto simp: received_def)
qed



end
